(* ===== verification/Plant_Prelude.thy ===== *)
theory Plant_Prelude
  imports Main "HOL-Library.Word"
begin

text \<open>
  Shared vocabulary of the development: Go's fixed-width integers as words, byte
  strings, \<^verbatim>\<open>encoding/binary\<close> big-endian access, the functions of the
  \<^verbatim>\<open>strings\<close> package the sources use, points in time and durations, and the
  generic list lemmas that several components need. The collection
  \<open>codec_simps\<close> holds the round-trip laws of the byte codecs.
\<close>

unbundle bit_operations_syntax

named_theorems codec_simps \<open>round-trip laws of the byte-level codecs\<close>

section \<open>Integers, bytes and big-endian access\<close>

type_synonym byte = "8 word"
type_synonym uint16 = "16 word"
type_synonym uint32 = "32 word"
type_synonym uint64 = "64 word"

text \<open>
  \<^verbatim>\<open>binary.BigEndian.PutUint16/32/64\<close> write the most significant byte first;
  \<^verbatim>\<open>Uint16/32/64\<close> read it back. The readers are applied by the sources only to
  slices of sufficient length; on shorter ones Go panics and the model's value is not used.
\<close>

definition put_uint16 :: "uint16 \<Rightarrow> byte list" where
  "put_uint16 w = [ucast (drop_bit 8 w), ucast w]"

fun get_uint16 :: "byte list \<Rightarrow> uint16" where
  "get_uint16 (a # b # _) = push_bit 8 (ucast a) OR ucast b"
| "get_uint16 _ = 0"

definition put_uint32 :: "uint32 \<Rightarrow> byte list" where
  "put_uint32 w = [ucast (drop_bit 24 w), ucast (drop_bit 16 w), ucast (drop_bit 8 w), ucast w]"

fun get_uint32 :: "byte list \<Rightarrow> uint32" where
  "get_uint32 (a # b # c # d # _) =
     push_bit 24 (ucast a) OR push_bit 16 (ucast b) OR push_bit 8 (ucast c) OR ucast d"
| "get_uint32 _ = 0"

definition put_uint64 :: "uint64 \<Rightarrow> byte list" where
  "put_uint64 w = put_uint32 (ucast (drop_bit 32 w)) @ put_uint32 (ucast w)"

definition get_uint64 :: "byte list \<Rightarrow> uint64" where
  "get_uint64 bs = push_bit 32 (ucast (get_uint32 bs)) OR ucast (get_uint32 (drop 4 bs))"

lemma unat_byte_less: "unat (w :: byte) < 256"
  using unsigned_less [of w, where ?'a = nat] by simp

lemma unat_uint16_less: "unat (w :: uint16) < 65536"
  using unsigned_less [of w, where ?'a = nat] by simp

lemma unat_uint32_less: "unat (w :: uint32) < 4294967296"
  using unsigned_less [of w, where ?'a = nat] by simp

lemma unat_of_nat_uint16: "n < 65536 \<Longrightarrow> unat (of_nat n :: uint16) = n"
  by (subst unat_of_nat) simp

lemma unat_of_nat_uint32: "n < 4294967296 \<Longrightarrow> unat (of_nat n :: uint32) = n"
  by (subst unat_of_nat) simp

lemma unat_of_nat_byte: "n < 256 \<Longrightarrow> unat (of_nat n :: byte) = n"
  by (subst unat_of_nat) simp

lemma bit_byte_high: "8 \<le> n \<Longrightarrow> \<not> bit (b :: byte) n"
  by (auto dest: bit_imp_le_length)

lemma length_put_uint16 [simp]: "length (put_uint16 w) = 2"
  by (simp add: put_uint16_def)

lemma length_put_uint32 [simp]: "length (put_uint32 w) = 4"
  by (simp add: put_uint32_def)

lemma length_put_uint64 [simp]: "length (put_uint64 w) = 8"
  by (simp add: put_uint64_def)

lemma get_put_uint16 [simp, codec_simps]: "get_uint16 (put_uint16 w @ rest) = w"
  unfolding put_uint16_def
  by (simp, rule bit_word_eqI) (auto simp: bit_simps)

lemma get_put_uint16_exact [simp, codec_simps]: "get_uint16 (put_uint16 w) = w"
  using get_put_uint16 [of w "[]"] by simp

lemma put_get_uint16 [codec_simps]: "put_uint16 (get_uint16 [a, b]) = [a, b]"
  unfolding put_uint16_def
  by (auto intro!: bit_word_eqI simp: bit_simps bit_byte_high)

lemma put_get_uint16_slice: "length bs = 2 \<Longrightarrow> put_uint16 (get_uint16 bs) = bs"
proof -
  assume "length bs = 2"
  then obtain a b where "bs = [a, b]" by (auto simp: length_Suc_conv numeral_2_eq_2)
  then show ?thesis by (simp only: put_get_uint16)
qed

lemma get_put_uint32 [simp, codec_simps]: "get_uint32 (put_uint32 w @ rest) = w"
  unfolding put_uint32_def
proof (simp, rule bit_word_eqI)
  fix n assume "n < LENGTH(32)"
  then consider "n < 8" | "8 \<le> n" "n < 16" | "16 \<le> n" "n < 24" | "24 \<le> n" "n < 32"
    by fastforce
  then show "bit (push_bit 24 (ucast (ucast (drop_bit 24 w) :: byte)) OR
      push_bit 16 (ucast (ucast (drop_bit 16 w) :: byte)) OR
      push_bit 8 (ucast (ucast (drop_bit 8 w) :: byte)) OR (ucast (ucast w :: byte) :: uint32)) n = bit w n"
    by cases (auto simp: bit_simps)
qed

lemma get_put_uint32_exact [simp, codec_simps]: "get_uint32 (put_uint32 w) = w"
  using get_put_uint32 [of w "[]"] by simp

lemma put_get_uint32 [codec_simps]: "put_uint32 (get_uint32 [a, b, c, d]) = [a, b, c, d]"
  unfolding put_uint32_def
  by (auto intro!: bit_word_eqI simp: bit_simps bit_byte_high)

lemma put_get_uint32_slice:
  assumes "length bs = 4"
  shows "put_uint32 (get_uint32 bs) = bs"
proof -
  from assms obtain a b c d where "bs = [a, b, c, d]"
    by (auto simp: length_Suc_conv eval_nat_numeral)
  then show ?thesis by (simp only: put_get_uint32)
qed

lemma get_put_uint64 [simp, codec_simps]: "get_uint64 (put_uint64 w @ rest) = w"
proof -
  have "push_bit 32 (ucast (ucast (drop_bit 32 w) :: uint32)) OR ucast (ucast w :: uint32) = w"
    by (rule bit_word_eqI) (auto simp: bit_simps)
  then show ?thesis
    by (simp add: get_uint64_def put_uint64_def)
qed

section \<open>The strings package\<close>

text \<open>
  Go strings are byte sequences; they are modelled as \<^typ>\<open>string\<close>, whose characters
  are bytes. \<^verbatim>\<open>strings.Split(s, sep)\<close> for a one-byte separator,
  \<^verbatim>\<open>strings.Join\<close>, \<^verbatim>\<open>strings.ContainsAny\<close>, \<^verbatim>\<open>strings.HasPrefix\<close>.
\<close>

fun split_on :: "char \<Rightarrow> string \<Rightarrow> string list" where
  "split_on c [] = [[]]"
| "split_on c (x # xs) =
     (if x = c then [] # split_on c xs
      else case split_on c xs of [] \<Rightarrow> [[x]] | y # ys \<Rightarrow> (x # y) # ys)"

fun join_with :: "char \<Rightarrow> string list \<Rightarrow> string" where
  "join_with c [] = []"
| "join_with c [s] = s"
| "join_with c (s # t # ts) = s @ c # join_with c (t # ts)"

definition contains_any :: "string \<Rightarrow> string \<Rightarrow> bool" where
  "contains_any s cs = list_ex (\<lambda>x. x \<in> set cs) s"

definition has_prefix :: "string \<Rightarrow> string \<Rightarrow> bool" where
  "has_prefix s p = (take (length p) s = p)"

lemma split_on_ne [simp]: "split_on c s \<noteq> []"
  by (cases s) (auto split: list.splits)

lemma split_on_append_sep:
  "c \<notin> set s \<Longrightarrow> split_on c (s @ c # t) = s # split_on c t"
  by (induction s) auto

lemma split_on_no_sep: "c \<notin> set s \<Longrightarrow> split_on c s = [s]"
  by (induction s) auto

lemma split_join:
  "xs \<noteq> [] \<Longrightarrow> \<forall>x \<in> set xs. c \<notin> set x \<Longrightarrow> split_on c (join_with c xs) = xs"
  by (induction c xs rule: join_with.induct) (auto simp: split_on_append_sep split_on_no_sep)

lemma join_with_Cons: "ts \<noteq> [] \<Longrightarrow> join_with c (s # ts) = s @ c # join_with c ts"
  by (cases ts) auto

lemma join_with_Cons_Cons: "join_with c ((x # y) # ys) = x # join_with c (y # ys)"
  by (cases ys) auto

lemma join_split: "join_with c (split_on c s) = s"
proof (induction s)
  case Nil
  then show ?case by simp
next
  case (Cons x xs)
  then show ?case
    by (cases "split_on c xs") (auto simp: join_with_Cons join_with_Cons_Cons)
qed

lemma sep_notin_split: "y \<in> set (split_on c s) \<Longrightarrow> c \<notin> set y"
proof (induction s arbitrary: y)
  case Nil
  then show ?case by simp
next
  case (Cons x xs)
  then show ?case
    by (cases "split_on c xs") (auto split: if_splits)
qed

lemma join_with_inject:
  assumes "xs \<noteq> []" "ys \<noteq> []" "\<forall>x \<in> set xs. c \<notin> set x" "\<forall>y \<in> set ys. c \<notin> set y"
    and "join_with c xs = join_with c ys"
  shows "xs = ys"
  using split_join [OF assms(1,3)] split_join [OF assms(2,4)] unfolding assms(5) by (rule trans [OF sym])

lemma not_contains_any: "\<not> contains_any s cs \<longleftrightarrow> set s \<inter> set cs = {}"
  by (auto simp: contains_any_def list_ex_iff)

text \<open>Conversions \<^verbatim>\<open>[]byte(s)\<close> and \<^verbatim>\<open>string(b)\<close>.\<close>

definition bytes_of_string :: "string \<Rightarrow> byte list" where
  "bytes_of_string s = map of_char s"

definition string_of_bytes :: "byte list \<Rightarrow> string" where
  "string_of_bytes bs = map (\<lambda>b. char_of (unat b)) bs"

lemma length_bytes_of_string [simp]: "length (bytes_of_string s) = length s"
  by (simp add: bytes_of_string_def)

lemma length_string_of_bytes [simp]: "length (string_of_bytes bs) = length bs"
  by (simp add: string_of_bytes_def)

lemma unat_of_char_byte: "unat (of_char c :: byte) = of_char c"
proof -
  have "(of_char c :: byte) = of_nat (of_char c)"
    by (rule of_nat_of_char [symmetric])
  moreover have "(of_char c :: nat) < 2 ^ LENGTH(8)"
    using nat_of_char_less_256 [of c] by simp
  ultimately show ?thesis
    by (simp add: unat_of_nat)
qed

lemma string_of_bytes_of_string [simp, codec_simps]: "string_of_bytes (bytes_of_string s) = s"
  by (simp add: string_of_bytes_def bytes_of_string_def unat_of_char_byte comp_def)

section \<open>Time and durations\<close>

text \<open>The value of an \<^verbatim>\<open>int64\<close> computation: the mathematical result reduced modulo \<open>2 ^ 64\<close>.\<close>

definition wrap64 :: "int \<Rightarrow> int" where
  "wrap64 x = (x + 2 ^ 63) mod 2 ^ 64 - 2 ^ 63"

lemma wrap64_id: "- (2 ^ 63) \<le> x \<Longrightarrow> x < 2 ^ 63 \<Longrightarrow> wrap64 x = x"
  by (simp add: wrap64_def)

text \<open>
  A \<^verbatim>\<open>time.Time\<close> is its distance from the Unix epoch in nanoseconds, an unbounded
  integer; the zero value of the Go type is 1 January of year 1. A \<^verbatim>\<open>time.Duration\<close>
  is a signed 64-bit number of nanoseconds; \<^verbatim>\<open>Time.Sub\<close> saturates at its ends.
\<close>

type_synonym gotime = int
type_synonym duration = int

definition zero_time :: gotime where
  "zero_time = - 62135596800000000000"

definition max_duration :: duration where
  "max_duration = 9223372036854775807"

definition min_duration :: duration where
  "min_duration = - 9223372036854775808"

definition time_sub :: "gotime \<Rightarrow> gotime \<Rightarrow> duration" where
  "time_sub t u = max min_duration (min max_duration (t - u))"

text \<open>\<^verbatim>\<open>Duration.Truncate(time.Millisecond)\<close> rounds toward zero.\<close>

definition truncate_ms :: "duration \<Rightarrow> duration" where
  "truncate_ms d = (if d < 0 then - ((- d) div 1000000 * 1000000) else d div 1000000 * 1000000)"

abbreviation seconds :: "int \<Rightarrow> duration" where
  "seconds n \<equiv> n * 1000000000"

abbreviation millis :: "int \<Rightarrow> duration" where
  "millis n \<equiv> n * 1000000"

lemma time_sub_ge_iff:
  "0 < d \<Longrightarrow> d \<le> max_duration \<Longrightarrow> d \<le> time_sub t u \<longleftrightarrow> u + d \<le> t"
  by (auto simp: time_sub_def min_duration_def max_duration_def)

section \<open>Operations of the environment that may fail\<close>

text \<open>
  An operating-system call that may fail consults a schedule of outcomes: the head says
  whether the next call fails; once the schedule is empty every call succeeds.
\<close>

type_synonym faults = "bool list"

fun next_fault :: "faults \<Rightarrow> bool \<times> faults" where
  "next_fault [] = (False, [])"
| "next_fault (f # fs) = (f, fs)"

section \<open>Generic lemmas on lists\<close>

lemma sum_list_map_eq_0: "\<forall>x \<in> set xs. f x = 0 \<Longrightarrow> sum_list (map f xs) = (0 :: nat)"
  by (induction xs) auto

lemma sum_list_fun_upd_distinct:
  fixes f :: "'a \<Rightarrow> nat"
  assumes "distinct xs" "k \<in> set xs"
  shows "sum_list (map (f(k := v)) xs) + f k = sum_list (map f xs) + v"
  using assms
proof (induction xs)
  case Nil
  then show ?case by simp
next
  case (Cons x xs)
  have "map (f(k := v)) xs = map f xs" if "k \<notin> set xs"
    using that by (intro map_cong) auto
  with Cons show ?case
    by (cases "k = x") (auto simp del: fun_upd_apply simp: fun_upd_same fun_upd_other)
qed

end
