(* ===== verification/Uns_Topic.thy ===== *)
theory Uns_Topic
  imports Plant_Prelude
begin

text \<open>
  The Unified Namespace addresses of \<^verbatim>\<open>internal/domain/uns/topic.go\<close>: segment
  validation, the six-level ISA-95 topic with its printer and parser, the lifecycle
  topics, and the MQTT filter language (\<^verbatim>\<open>MatchFilter\<close>, \<^verbatim>\<open>ValidateFilter\<close>). The
  lemmas show that printing and parsing are inverse, that addresses of distinct tags and
  of lifecycle messages never collide, and that the matcher implements the declarative
  meaning of a filter.
\<close>

section \<open>Segments and topics\<close>

datatype seg_error = SegEmpty | SegReserved | SegDollar | SegTooLong

definition reserved_chars :: string where
  "reserved_chars = ''/+# '' @ [CHR 0x09, CHR 0x0D, CHR 0x0A]"

definition ValidateSegment :: "string \<Rightarrow> seg_error option" where
  "ValidateSegment s =
     (if s = [] then Some SegEmpty
      else if contains_any s reserved_chars then Some SegReserved
      else if has_prefix s ''$'' then Some SegDollar
      else if length s > 128 then Some SegTooLong
      else None)"

record topic =
  t_enterprise :: string
  t_site :: string
  t_area :: string
  t_line :: string
  t_cell :: string
  t_tag :: string

definition EdgeSegment :: string where
  "EdgeSegment = ''_edge''"

definition topic_segments :: "topic \<Rightarrow> (string \<times> string) list" where
  "topic_segments t =
     [(''enterprise'', t_enterprise t), (''site'', t_site t), (''area'', t_area t),
      (''line'', t_line t), (''cell'', t_cell t), (''tag'', t_tag t)]"

fun first_bad_segment :: "(string \<times> string) list \<Rightarrow> (string \<times> seg_error) option" where
  "first_bad_segment [] = None"
| "first_bad_segment ((name, v) # rest) =
     (case ValidateSegment v of Some e \<Rightarrow> Some (name, e) | None \<Rightarrow> first_bad_segment rest)"

definition topic_Validate :: "topic \<Rightarrow> (string \<times> seg_error) option" where
  "topic_Validate t = first_bad_segment (topic_segments t)"

definition topic_String :: "topic \<Rightarrow> string" where
  "topic_String t =
     join_with CHR ''/''
       [t_enterprise t, t_site t, t_area t, t_line t, t_cell t, t_tag t]"

datatype topic_error = WrongSegmentCount nat | BadSegment string seg_error

definition ParseTopic :: "string \<Rightarrow> topic_error + topic" where
  "ParseTopic s =
     (case split_on CHR ''/'' s of
        [a, b, c, d, e, f] \<Rightarrow>
          (let t = \<lparr>t_enterprise = a, t_site = b, t_area = c, t_line = d, t_cell = e, t_tag = f\<rparr>
           in case topic_Validate t of
                Some (n, err) \<Rightarrow> Inl (BadSegment n err)
              | None \<Rightarrow> Inr t)
      | parts \<Rightarrow> Inl (WrongSegmentCount (length parts)))"

definition LifecycleTopic :: "string \<Rightarrow> string \<Rightarrow> string \<Rightarrow> string \<Rightarrow> string" where
  "LifecycleTopic enterprise site node mt =
     join_with CHR ''/'' [enterprise, site, EdgeSegment, node, mt]"

section \<open>Filters\<close>

text \<open>
  The loop of \<^verbatim>\<open>MatchFilter\<close> over the filter's levels; \<open>ts\<close> is the part of the
  topic from the current index on, so \<^verbatim>\<open>i >= len(tp)\<close> is \<open>ts = []\<close> and the final
  \<^verbatim>\<open>len(fp) == len(tp)\<close> is that nothing remains.
\<close>

fun match_levels :: "string list \<Rightarrow> string list \<Rightarrow> bool" where
  "match_levels [] ts = (ts = [])"
| "match_levels (f # fs) ts =
     (if f = ''#'' then fs = []
      else case ts of
             [] \<Rightarrow> False
           | t # ts' \<Rightarrow> if f \<noteq> ''+'' \<and> f \<noteq> t then False else match_levels fs ts')"

definition MatchFilter :: "string \<Rightarrow> string \<Rightarrow> bool" where
  "MatchFilter filt tpc =
     (if filt = ''#'' then True
      else match_levels (split_on CHR ''/'' filt) (split_on CHR ''/'' tpc))"

datatype filter_error = FilterEmpty | HashNotLast | PartialWildcard | EmptyFilterSegment

fun validate_levels :: "string list \<Rightarrow> filter_error option" where
  "validate_levels [] = None"
| "validate_levels (p # ps) =
     (if p = ''#'' then (if ps \<noteq> [] then Some HashNotLast else validate_levels ps)
      else if p = ''+'' then validate_levels ps
      else if contains_any p ''+#'' then Some PartialWildcard
      else if p = [] then Some EmptyFilterSegment
      else validate_levels ps)"

definition ValidateFilter :: "string \<Rightarrow> filter_error option" where
  "ValidateFilter filt =
     (if filt = [] then Some FilterEmpty else validate_levels (split_on CHR ''/'' filt))"

section \<open>Lemmas on segments and topics\<close>

lemma reserved_slash: "CHR ''/'' \<in> set reserved_chars"
  by (simp add: reserved_chars_def)

lemma valid_segment_no_slash: "ValidateSegment s = None \<Longrightarrow> CHR ''/'' \<notin> set s"
  using reserved_slash by (auto simp: ValidateSegment_def not_contains_any split: if_splits)

lemma valid_segment_no_wildcard:
  "ValidateSegment s = None \<Longrightarrow> CHR ''+'' \<notin> set s \<and> CHR ''#'' \<notin> set s \<and> s \<noteq> []"
  by (auto simp: ValidateSegment_def not_contains_any reserved_chars_def split: if_splits)

lemma topic_Validate_None_iff:
  "topic_Validate t = None \<longleftrightarrow>
     (\<forall>s \<in> {t_enterprise t, t_site t, t_area t, t_line t, t_cell t, t_tag t}.
        ValidateSegment s = None)"
  by (auto simp: topic_Validate_def topic_segments_def split: option.splits)

lemma valid_topic_levels:
  assumes "topic_Validate t = None"
  shows "split_on CHR ''/'' (topic_String t) =
     [t_enterprise t, t_site t, t_area t, t_line t, t_cell t, t_tag t]"
  unfolding topic_String_def
  by (rule split_join) (use assms in \<open>auto simp: topic_Validate_None_iff valid_segment_no_slash\<close>)

lemma ParseTopic_SomeD:
  assumes "ParseTopic s = Inr t"
  shows "topic_Validate t = None" "topic_String t = s"
proof -
  from assms obtain a b c d e f where lv: "split_on CHR ''/'' s = [a, b, c, d, e, f]"
    and t: "t = \<lparr>t_enterprise = a, t_site = b, t_area = c, t_line = d, t_cell = e, t_tag = f\<rparr>"
    and v: "topic_Validate t = None"
    by (auto simp: ParseTopic_def Let_def split: list.splits option.splits)
  show "topic_Validate t = None" by (rule v)
  have "topic_String t = join_with CHR ''/'' (split_on CHR ''/'' s)"
    by (simp only: topic_String_def t lv topic.simps)
  then show "topic_String t = s" by (simp only: join_split)
qed

lemma ParseTopic_String:
  assumes "topic_Validate t = None"
  shows "ParseTopic (topic_String t) = Inr t"
  using assms by (cases t) (simp add: ParseTopic_def valid_topic_levels)

lemma LifecycleTopic_levels:
  assumes "ValidateSegment ent = None" "ValidateSegment site = None" "ValidateSegment node = None"
    and "CHR ''/'' \<notin> set mt"
  shows "split_on CHR ''/'' (LifecycleTopic ent site node mt) = [ent, site, EdgeSegment, node, mt]"
  unfolding LifecycleTopic_def
  by (rule split_join) (use assms in \<open>auto simp: valid_segment_no_slash EdgeSegment_def\<close>)

text \<open>A topic of the demonstration plant, used by the witnesses.\<close>

definition sample_topic :: topic where
  "sample_topic = \<lparr>t_enterprise = ''acme'', t_site = ''austin'', t_area = ''lab'',
     t_line = ''l1'', t_cell = ''c1'', t_tag = ''speed''\<rparr>"

lemma sample_topic_valid: "topic_Validate sample_topic = None"
  by (simp add: sample_topic_def topic_Validate_def topic_segments_def ValidateSegment_def
      contains_any_def reserved_chars_def has_prefix_def)

section \<open>Lemmas on filters\<close>

text \<open>
  The declarative meaning of one filter level and of a whole filter: a filter without a
  final multi-level wildcard fixes the number of levels, a final one accepts any
  continuation (also the empty one) of the levels before it.
\<close>

definition level_ok :: "string \<Rightarrow> string \<Rightarrow> bool" where
  "level_ok f t \<longleftrightarrow> f = ''+'' \<or> f = t"

definition filter_denotes :: "string list \<Rightarrow> string list \<Rightarrow> bool" where
  "filter_denotes fs ts \<longleftrightarrow>
     (if fs \<noteq> [] \<and> last fs = ''#''
      then length (butlast fs) \<le> length ts \<and>
           list_all2 level_ok (butlast fs) (take (length (butlast fs)) ts)
      else list_all2 level_ok fs ts)"

lemma filter_denotes_Nil: "filter_denotes [] ts = (ts = [])"
  by (simp add: filter_denotes_def)

lemma filter_denotes_hash: "filter_denotes [''#''] ts"
  by (simp add: filter_denotes_def)

lemma filter_denotes_no_level:
  "fs \<noteq> [] \<or> f \<noteq> ''#'' \<Longrightarrow> \<not> filter_denotes (f # fs) []"
  by (auto simp: filter_denotes_def)

lemma filter_denotes_level:
  assumes "fs \<noteq> [] \<or> f \<noteq> ''#''"
  shows "filter_denotes (f # fs) (t # ts) = (level_ok f t \<and> filter_denotes fs ts)"
proof (cases "fs \<noteq> [] \<and> last fs = ''#''")
  case True
  then obtain gs where "fs = gs @ [''#'']"
    by (metis append_butlast_last_id)
  then show ?thesis by (auto simp: filter_denotes_def butlast_append)
next
  case False
  with assms show ?thesis by (auto simp: filter_denotes_def)
qed

lemmas filter_denotes_simps =
  filter_denotes_Nil filter_denotes_hash filter_denotes_no_level filter_denotes_level

lemma match_levels_denotes:
  "''#'' \<notin> set (butlast fs) \<Longrightarrow> match_levels fs ts = filter_denotes fs ts"
proof (induction fs arbitrary: ts)
  case Nil
  then show ?case by (simp add: filter_denotes_simps)
next
  case (Cons f fs)
  show ?case
  proof (cases "f = ''#''")
    case True
    with Cons.prems have "fs = []" by (auto split: if_splits)
    with True show ?thesis by (simp add: filter_denotes_simps)
  next
    case False
    with Cons show ?thesis
      by (cases ts) (auto simp: filter_denotes_simps level_ok_def split: if_splits)
  qed
qed

lemma contains_wildcard: "contains_any p ''+#'' \<longleftrightarrow> CHR ''+'' \<in> set p \<or> CHR ''#'' \<in> set p"
  by (auto simp: contains_any_def list_ex_iff)

lemma validate_levels_None_iff:
  "validate_levels ps = None \<longleftrightarrow>
     ''#'' \<notin> set (butlast ps) \<and>
     (\<forall>p \<in> set ps. p = ''#'' \<or> p = ''+'' \<or> p \<noteq> [] \<and> CHR ''+'' \<notin> set p \<and> CHR ''#'' \<notin> set p)"
proof (induction ps)
  case Nil
  then show ?case by simp
next
  case (Cons p ps)
  consider "p = ''#''" | "p = ''+''" | "p \<noteq> ''#''" "p \<noteq> ''+''" by blast
  then show ?case
    by cases (use Cons in \<open>simp_all add: contains_wildcard\<close>)
qed

lemma ValidateFilter_None_levels:
  "ValidateFilter f = None \<Longrightarrow> validate_levels (split_on CHR ''/'' f) = None"
  by (simp add: ValidateFilter_def split: if_splits)

lemma MatchFilter_denotes:
  assumes "ValidateFilter f = None"
  shows "MatchFilter f s = filter_denotes (split_on CHR ''/'' f) (split_on CHR ''/'' s)"
proof (cases "f = ''#''")
  case True
  then show ?thesis by (simp add: MatchFilter_def filter_denotes_simps)
next
  case False
  from ValidateFilter_None_levels [OF assms] have "''#'' \<notin> set (butlast (split_on CHR ''/'' f))"
    by (simp add: validate_levels_None_iff)
  with False show ?thesis by (simp add: MatchFilter_def match_levels_denotes)
qed

lemma match_levels_literal:
  assumes "\<forall>f \<in> set fs. f \<noteq> ''#'' \<and> f \<noteq> ''+''"
  shows "match_levels fs ts = (fs = ts)"
  using assms
proof (induction fs arbitrary: ts)
  case Nil
  then show ?case by auto
next
  case (Cons f fs)
  then show ?case by (cases ts) auto
qed

section \<open>Properties\<close>

text \<open>
  C13: printing and parsing of data topics are inverse. \<^verbatim>\<open>ParseTopic\<close> accepts a string
  exactly when it is the rendering of a topic whose six segments are valid, and returns
  that topic.
\<close>

theorem ParseTopic_iff:
  "ParseTopic s = Inr t \<longleftrightarrow> topic_Validate t = None \<and> topic_String t = s"
  using ParseTopic_SomeD ParseTopic_String by metis

text \<open>
  No publish address is ambiguous. Distinct valid topics have distinct renderings,
  and no data topic is ever equal to a lifecycle topic of a validated enterprise, site
  and node, whatever the message type.
\<close>

theorem topic_String_unambiguous:
  assumes "topic_Validate t = None"
  shows "(topic_Validate u = None \<and> topic_String t = topic_String u \<longrightarrow> t = u) \<and>
    (ValidateSegment ent = None \<and> ValidateSegment site = None \<and> ValidateSegment node = None \<and>
      CHR ''/'' \<notin> set mt \<longrightarrow> topic_String t \<noteq> LifecycleTopic ent site node mt)"
proof (intro conjI impI)
  assume u: "topic_Validate u = None \<and> topic_String t = topic_String u"
  have "Inr t = ParseTopic (topic_String t)"
    by (rule ParseTopic_String [OF assms, symmetric])
  also have "\<dots> = ParseTopic (topic_String u)"
    by (simp only: u)
  also have "\<dots> = Inr u"
    using u by (intro ParseTopic_String) simp
  finally show "t = u" by simp
next
  assume *: "ValidateSegment ent = None \<and> ValidateSegment site = None \<and>
    ValidateSegment node = None \<and> CHR ''/'' \<notin> set mt"
  show "topic_String t \<noteq> LifecycleTopic ent site node mt"
  proof
    assume eq: "topic_String t = LifecycleTopic ent site node mt"
    have "length (split_on CHR ''/'' (topic_String t)) = 6"
      by (simp only: valid_topic_levels [OF assms]) simp
    moreover have "length (split_on CHR ''/'' (topic_String t)) = 5"
      unfolding eq using * by (subst LifecycleTopic_levels) simp_all
    ultimately show False by simp
  qed
qed

theorem topic_String_unambiguous_witness:
  "topic_String sample_topic \<noteq> LifecycleTopic ''acme'' ''austin'' ''plc'' ''BIRTH''"
  using topic_String_unambiguous [OF sample_topic_valid, of sample_topic "''acme''" "''austin''" "''plc''" "''BIRTH''"]
  by (simp add: ValidateSegment_def contains_any_def reserved_chars_def has_prefix_def)

text \<open>
  C14: the matcher implements the MQTT meaning of filters. For every filter that
  \<^verbatim>\<open>ValidateFilter\<close> accepts, \<^verbatim>\<open>MatchFilter\<close> holds exactly when the topic's levels
  are in the set the filter denotes: level by level with \<^verbatim>\<open>+\<close> free, and any
  continuation (also none) behind a final \<^verbatim>\<open>#\<close>.
\<close>

theorem MatchFilter_correct:
  assumes "ValidateFilter f = None"
  shows "MatchFilter f s \<longleftrightarrow> filter_denotes (split_on CHR ''/'' f) (split_on CHR ''/'' s)"
  using assms by (rule MatchFilter_denotes)

theorem MatchFilter_correct_witness:
  "MatchFilter ''acme/+/lab/#'' ''acme/austin/lab'' \<longleftrightarrow>
     filter_denotes [''acme'', ''+'', ''lab'', ''#''] [''acme'', ''austin'', ''lab'']"
  using MatchFilter_correct [of "''acme/+/lab/#''" "''acme/austin/lab''"]
  by (simp add: ValidateFilter_def contains_any_def)

text \<open>
  A data topic, read as a filter, is a well-formed filter that subscribes to that
  topic only.
\<close>

theorem topic_filter_exact:
  assumes "topic_Validate t = None"
  shows "ValidateFilter (topic_String t) = None \<and>
    (MatchFilter (topic_String t) s \<longleftrightarrow> s = topic_String t)"
proof
  let ?ls = "split_on CHR ''/'' (topic_String t)"
  have seg: "ValidateSegment p = None" if "p \<in> set ?ls" for p
    using assms that by (auto simp: valid_topic_levels topic_Validate_None_iff)
  have lit: "p \<noteq> [] \<and> CHR ''+'' \<notin> set p \<and> CHR ''#'' \<notin> set p \<and> p \<noteq> ''#'' \<and> p \<noteq> ''+''"
    if "p \<in> set ?ls" for p
    using valid_segment_no_wildcard [OF seg [OF that]] by auto
  have ne: "topic_String t \<noteq> []" "topic_String t \<noteq> ''#''"
    using valid_topic_levels [OF assms] by auto
  have "validate_levels ?ls = None"
    unfolding validate_levels_None_iff using lit by (blast dest: in_set_butlastD)
  with ne show "ValidateFilter (topic_String t) = None"
    by (simp add: ValidateFilter_def)
  have "MatchFilter (topic_String t) s \<longleftrightarrow>
      split_on CHR ''/'' (topic_String t) = split_on CHR ''/'' s"
    using lit ne by (simp add: MatchFilter_def match_levels_literal)
  then show "MatchFilter (topic_String t) s \<longleftrightarrow> s = topic_String t"
    by (metis join_split)
qed

theorem topic_filter_exact_witness:
  "\<not> MatchFilter (topic_String sample_topic) ''acme/austin/lab/l1/c1/speed2''"
proof -
  have "topic_String sample_topic = ''acme/austin/lab/l1/c1/speed''"
    by (simp add: topic_String_def sample_topic_def)
  then show ?thesis
    using topic_filter_exact [OF sample_topic_valid, of "''acme/austin/lab/l1/c1/speed2''"]
    by simp
qed

end
