(* ===== verification/Go_Float.thy ===== *)
theory Go_Float
  imports Complex_Main Plant_Prelude
begin

text \<open>
  Go's \<^verbatim>\<open>float64\<close> and \<^verbatim>\<open>float32\<close>: a finite value is an exact rational number, next to
  it stand the negative zero, the two infinities and not-a-number. Arithmetic is exact
  arithmetic followed by IEEE 754 rounding to nearest even, computed on rationals. The
  theory also holds the bit patterns of binary32 (\<^verbatim>\<open>math.Float32bits\<close> and
  \<^verbatim>\<open>math.Float32frombits\<close>) and their round trip. A NaN has no payload here, since
  the language leaves it unspecified.
\<close>

datatype float64 = NaN | Inf bool | NegZero | Fin rat

section \<open>Binary logarithm and rounding\<close>

fun bitlen :: "nat \<Rightarrow> nat" where
  "bitlen n = (if n = 0 then 0 else Suc (bitlen (n div 2)))"

declare bitlen.simps [simp del]

definition ilog2 :: "rat \<Rightarrow> int" where
  "ilog2 x =
     (let (a, b) = quotient_of x;
          e = int (bitlen (nat a)) - int (bitlen (nat b))
      in if 2 powi e \<le> x then e else e - 1)"

definition round_half_even :: "rat \<Rightarrow> int" where
  "round_half_even x =
     (let f = \<lfloor>x\<rfloor>; d = x - of_int f
      in if d < 1 / 2 then f else if d > 1 / 2 then f + 1 else if even f then f else f + 1)"

text \<open>
  \<open>fl_round p qmin emax x\<close> rounds the exact value \<open>x\<close> to \<open>p\<close> significant bits; \<open>qmin\<close> is
  the exponent of the smallest subnormal, \<open>emax\<close> the largest exponent.
\<close>

definition fl_round :: "int \<Rightarrow> int \<Rightarrow> int \<Rightarrow> rat \<Rightarrow> float64" where
  "fl_round p qmin emax x =
     (if x = 0 then Fin 0
      else let a = \<bar>x\<bar>; q = max (ilog2 a - (p - 1)) qmin;
               y = of_int (round_half_even (a / 2 powi q)) * 2 powi q
           in if y \<ge> 2 powi (emax + 1) then Inf (x < 0)
              else if y = 0 then (if x < 0 then NegZero else Fin 0)
              else Fin (if x < 0 then - y else y))"

definition round64 :: "rat \<Rightarrow> float64" where
  "round64 = fl_round 53 (- 1074) 1023"

definition round32 :: "rat \<Rightarrow> float64" where
  "round32 = fl_round 24 (- 149) 127"

section \<open>Operations\<close>

fun fl_val :: "float64 \<Rightarrow> rat" where
  "fl_val (Fin x) = x"
| "fl_val _ = 0"

fun fl_finite :: "float64 \<Rightarrow> bool" where
  "fl_finite (Fin x) = True"
| "fl_finite NegZero = True"
| "fl_finite _ = False"

definition fl_isnan :: "float64 \<Rightarrow> bool" where
  "fl_isnan v = (v = NaN)"

fun fl_isinf :: "float64 \<Rightarrow> bool" where
  "fl_isinf (Inf _) = True"
| "fl_isinf _ = False"

text \<open>Go's \<^verbatim>\<open><\<close>: false as soon as an operand is NaN; the two zeros are equal.\<close>

fun fl_less :: "float64 \<Rightarrow> float64 \<Rightarrow> bool" where
  "fl_less NaN _ = False"
| "fl_less _ NaN = False"
| "fl_less (Inf s) (Inf t) = (s \<and> \<not> t)"
| "fl_less (Inf s) _ = s"
| "fl_less _ (Inf t) = (\<not> t)"
| "fl_less x y = (fl_val x < fl_val y)"

fun fl_eq :: "float64 \<Rightarrow> float64 \<Rightarrow> bool" where
  "fl_eq NaN _ = False"
| "fl_eq _ NaN = False"
| "fl_eq (Inf s) (Inf t) = (s = t)"
| "fl_eq (Inf s) _ = False"
| "fl_eq _ (Inf t) = False"
| "fl_eq x y = (fl_val x = fl_val y)"

definition fl_le :: "float64 \<Rightarrow> float64 \<Rightarrow> bool" where
  "fl_le x y = (fl_less x y \<or> fl_eq x y)"

fun fl_neg :: "float64 \<Rightarrow> float64" where
  "fl_neg NaN = NaN"
| "fl_neg (Inf s) = Inf (\<not> s)"
| "fl_neg NegZero = Fin 0"
| "fl_neg (Fin x) = (if x = 0 then NegZero else Fin (- x))"

fun fl_add :: "float64 \<Rightarrow> float64 \<Rightarrow> float64" where
  "fl_add NaN _ = NaN"
| "fl_add _ NaN = NaN"
| "fl_add (Inf s) (Inf t) = (if s = t then Inf s else NaN)"
| "fl_add (Inf s) _ = Inf s"
| "fl_add _ (Inf t) = Inf t"
| "fl_add NegZero NegZero = NegZero"
| "fl_add x y = round64 (fl_val x + fl_val y)"

definition fl_sub :: "float64 \<Rightarrow> float64 \<Rightarrow> float64" where
  "fl_sub x y = fl_add x (fl_neg y)"

fun fl_sign :: "float64 \<Rightarrow> bool" where
  "fl_sign NaN = False"
| "fl_sign (Inf s) = s"
| "fl_sign NegZero = True"
| "fl_sign (Fin x) = (x < 0)"

definition fl_mul :: "float64 \<Rightarrow> float64 \<Rightarrow> float64" where
  "fl_mul x y =
     (let s = (fl_sign x \<noteq> fl_sign y)
      in if x = NaN \<or> y = NaN then NaN
         else if fl_isinf x \<or> fl_isinf y
         then (if fl_eq x (Fin 0) \<or> fl_eq y (Fin 0) then NaN else Inf s)
         else if fl_val x * fl_val y = 0 then (if s then NegZero else Fin 0)
         else round64 (fl_val x * fl_val y))"

definition fl_div :: "float64 \<Rightarrow> float64 \<Rightarrow> float64" where
  "fl_div x y =
     (let s = (fl_sign x \<noteq> fl_sign y)
      in if x = NaN \<or> y = NaN then NaN
         else if fl_isinf x then (if fl_isinf y then NaN else Inf s)
         else if fl_isinf y then (if s then NegZero else Fin 0)
         else if fl_val y = 0 then (if fl_val x = 0 then NaN else Inf s)
         else if fl_val x = 0 then (if s then NegZero else Fin 0)
         else round64 (fl_val x / fl_val y))"

fun fl_abs :: "float64 \<Rightarrow> float64" where
  "fl_abs NaN = NaN"
| "fl_abs (Inf _) = Inf False"
| "fl_abs NegZero = Fin 0"
| "fl_abs (Fin x) = Fin \<bar>x\<bar>"

definition rat_trunc :: "rat \<Rightarrow> int" where
  "rat_trunc x = (if x < 0 then - \<lfloor>- x\<rfloor> else \<lfloor>x\<rfloor>)"

fun fl_trunc :: "float64 \<Rightarrow> float64" where
  "fl_trunc (Fin x) = (if x < 0 \<and> rat_trunc x = 0 then NegZero else Fin (of_int (rat_trunc x)))"
| "fl_trunc v = v"

text \<open>\<^verbatim>\<open>math.Round\<close>: to the nearest integer, ties away from zero.\<close>

fun math_Round :: "float64 \<Rightarrow> float64" where
  "math_Round (Fin x) =
     (let n = \<lfloor>\<bar>x\<bar> + 1 / 2\<rfloor>
      in if x < 0 then (if n = 0 then NegZero else Fin (- of_int n)) else Fin (of_int n))"
| "math_Round v = v"

text \<open>The conversions \<^verbatim>\<open>float64(n)\<close> (exact below 53 bits), \<^verbatim>\<open>float32(v)\<close> and
  the truncating conversion of an in-range value to an integer type.\<close>

definition fl_of_int :: "int \<Rightarrow> float64" where
  "fl_of_int n = round64 (of_int n)"

fun fl_to32 :: "float64 \<Rightarrow> float64" where
  "fl_to32 (Fin x) = round32 x"
| "fl_to32 v = v"

definition fl_to_int :: "float64 \<Rightarrow> int" where
  "fl_to_int v = rat_trunc (fl_val v)"

section \<open>Bit patterns of binary32\<close>

definition f32_value :: "bool \<Rightarrow> int \<Rightarrow> int \<Rightarrow> float64" where
  "f32_value s ex m =
     (let sg = (if s then - 1 else 1)
      in if ex = 255 then (if m = 0 then Inf s else NaN)
         else if ex = 0
         then (if m = 0 then (if s then NegZero else Fin 0)
               else Fin (sg * (of_int m * 2 powi (- 149))))
         else Fin (sg * (of_int (2 ^ 23 + m) * 2 powi (ex - 150))))"

definition Float32frombits :: "uint32 \<Rightarrow> float64" where
  "Float32frombits w =
     f32_value (uint w \<ge> 2 ^ 31) (uint w div 2 ^ 23 mod 2 ^ 8) (uint w mod 2 ^ 23)"

definition f32_pack :: "bool \<Rightarrow> int \<Rightarrow> int \<Rightarrow> uint32" where
  "f32_pack s ex m = word_of_int ((if s then 2 ^ 31 else 0) + ex * 2 ^ 23 + m)"

fun Float32bits :: "float64 \<Rightarrow> uint32" where
  "Float32bits NaN = f32_pack False 255 (2 ^ 22)"
| "Float32bits (Inf s) = f32_pack s 255 0"
| "Float32bits NegZero = f32_pack True 0 0"
| "Float32bits (Fin x) =
     (if x = 0 then f32_pack False 0 0
      else let a = \<bar>x\<bar>; e = ilog2 a
           in if e < - 126 then f32_pack (x < 0) 0 \<lfloor>a / 2 powi (- 149)\<rfloor>
              else f32_pack (x < 0) (e + 127) (\<lfloor>a / 2 powi (e - 23)\<rfloor> - 2 ^ 23))"

section \<open>Lemmas on the logarithm\<close>

lemma bitlen_bounds: "0 < n \<Longrightarrow> 2 ^ (bitlen n - 1) \<le> n \<and> n < 2 ^ bitlen n \<and> 0 < bitlen n"
proof (induction n rule: bitlen.induct)
  case (1 n)
  show ?case
  proof (cases "n div 2 = 0")
    case True
    with 1 have "n = 1" by simp
    then show ?thesis by (simp add: bitlen.simps)
  next
    case False
    with 1 have ih: "2 ^ (bitlen (n div 2) - 1) \<le> n div 2" "n div 2 < 2 ^ bitlen (n div 2)"
      "0 < bitlen (n div 2)" by auto
    then obtain k where k: "bitlen (n div 2) = Suc k" by (auto simp: gr0_conv_Suc)
    have b: "bitlen n = Suc (Suc k)"
      using 1 k by (simp add: bitlen.simps [of n])
    from ih k have "2 ^ k \<le> n div 2" "n div 2 < 2 * 2 ^ k" by auto
    then have "2 * 2 ^ k \<le> n" "n < 4 * 2 ^ k" by linarith+
    then show ?thesis using b by auto
  qed
qed

lemma powi2_less_imp: "(2 :: rat) powi m < 2 powi n \<Longrightarrow> m < n"
  by (metis linorder_not_less one_le_numeral power_int_increasing)

lemma of_int_bitlen_bounds:
  assumes "0 < a"
  shows "(2 :: rat) powi (int (bitlen (nat a)) - 1) \<le> of_int a"
    and "of_int a < (2 :: rat) powi int (bitlen (nat a))"
proof -
  define k where "k = bitlen (nat a)"
  have k: "2 ^ (k - 1) \<le> nat a" "nat a < 2 ^ k" "0 < k"
    using bitlen_bounds [of "nat a"] assms by (auto simp: k_def)
  have "(2 :: int) ^ (k - 1) \<le> a" "a < 2 ^ k"
    using k assms by (simp_all add: le_nat_iff nat_less_iff)
  then have "of_int (2 ^ (k - 1)) \<le> (of_int a :: rat)" "(of_int a :: rat) < of_int (2 ^ k)"
    by (simp_all only: of_int_le_iff of_int_less_iff)
  moreover have "(2 :: rat) powi (int k - 1) = of_int (2 ^ (k - 1))"
    using k(3) by (simp add: power_int_def nat_diff_distrib)
  ultimately show "(2 :: rat) powi (int (bitlen (nat a)) - 1) \<le> of_int a"
    and "of_int a < (2 :: rat) powi int (bitlen (nat a))"
    by (simp_all add: k_def)
qed

lemma ilog2_unique:
  assumes "2 powi e \<le> x" "x < 2 powi (e + 1)"
  shows "ilog2 x = e"
proof -
  obtain a b where q: "quotient_of x = (a, b)" by (cases "quotient_of x")
  have b: "b > 0" and x: "x = of_int a / of_int b"
    using quotient_of_denom_pos [OF q] quotient_of_div [OF q] by auto
  have "0 < x" using assms(1) less_le_trans [of 0 "2 powi e" x] by simp
  with x b have a: "a > 0" by (simp add: zero_less_divide_iff)
  define fa fb where "fa = int (bitlen (nat a))" and "fb = int (bitlen (nat b))"
  note A = of_int_bitlen_bounds [OF a, folded fa_def] and B = of_int_bitlen_bounds [OF b, folded fb_def]
  have "x < 2 powi fa / 2 powi (fb - 1)"
    unfolding x using A B b a by (intro frac_less) auto
  also have "\<dots> = 2 powi (fa - fb + 1)"
    by (simp add: algebra_simps flip: power_int_diff)
  finally have "e < fa - fb + 1"
    using assms(1) by (intro powi2_less_imp) simp
  moreover have "2 powi (fa - 1) / 2 powi fb < x"
    unfolding x using A B b a by (intro frac_less2) auto
  then have "2 powi (fa - 1 - fb) < x"
    by (simp flip: power_int_diff)
  then have "fa - 1 - fb < e + 1"
    using assms(2) by (intro powi2_less_imp) simp
  moreover have "fa - fb < e + 1" if "2 powi (fa - fb) \<le> x"
    using that assms(2) by (intro powi2_less_imp) simp
  moreover have "e < fa - fb" if "\<not> 2 powi (fa - fb) \<le> x"
    using that assms(1) by (intro powi2_less_imp) simp
  ultimately show ?thesis
    by (auto simp: ilog2_def q Let_def fa_def [symmetric] fb_def [symmetric])
qed

section \<open>Values that need no rounding\<close>

lemma round_half_even_of_int [simp]: "round_half_even (of_int n) = n"
  by (simp add: round_half_even_def)

lemma fl_round_exact:
  assumes "2 powi e \<le> a" "a < 2 powi (e + 1)" "e \<le> emax"
    and "a = of_int k * 2 powi (max (e - (p - 1)) qmin)"
  shows "fl_round p qmin emax a = Fin a" "fl_round p qmin emax (- a) = Fin (- a)"
proof -
  have pos: "0 < a" using assms(1) less_le_trans [of 0 "2 powi e" a] by simp
  have log: "ilog2 a = e" using assms(1,2) by (rule ilog2_unique)
  have "(2 :: rat) powi (e + 1) \<le> 2 powi (emax + 1)"
    using assms(3) by (intro power_int_increasing) auto
  with assms(2) have big: "\<not> 2 powi (emax + 1) \<le> a" by simp
  have "a / 2 powi (max (e - (p - 1)) qmin) = of_int k"
    using assms(4) by simp
  then have "of_int (round_half_even (a / 2 powi (max (e - (p - 1)) qmin))) *
      2 powi (max (e - (p - 1)) qmin) = a"
    using assms(4) by simp
  with pos log big show "fl_round p qmin emax a = Fin a" "fl_round p qmin emax (- a) = Fin (- a)"
    by (simp_all add: fl_round_def Let_def)
qed

lemma fl_round_zero [simp]: "fl_round p qmin emax 0 = Fin 0"
  by (simp add: fl_round_def)

text \<open>Integers of at most 53 bits are exact in \<^verbatim>\<open>float64\<close>.\<close>

lemma pos_int_log_bounds:
  assumes "0 < n"
  obtains e where "0 \<le> e" "2 powi e \<le> (of_int n :: rat)" "(of_int n :: rat) < 2 powi (e + 1)"
    "e = int (bitlen (nat n)) - 1"
proof
  show "0 \<le> int (bitlen (nat n)) - 1"
    using bitlen_bounds [of "nat n"] assms by simp
qed (use of_int_bitlen_bounds [OF assms] in simp_all)

lemma round64_of_pos_int:
  assumes "0 < n" "n < 2 ^ 53"
  shows "round64 (of_int n) = Fin (of_int n)" "round64 (- of_int n) = Fin (- of_int n)"
proof -
  obtain e where e: "0 \<le> e" "2 powi e \<le> (of_int n :: rat)" "(of_int n :: rat) < 2 powi (e + 1)"
    using pos_int_log_bounds [OF assms(1)] by metis
  have "(of_int n :: rat) < of_int (2 ^ 53)"
    using assms(2) by (simp only: of_int_less_iff)
  then have "(2 :: rat) powi e < 2 powi 53"
    using e(2) by simp
  then have e53: "e < 53" by (rule powi2_less_imp)
  define q where "q = max (e - (53 - 1)) (- 1074)"
  have "q \<le> 0" using e53 by (simp add: q_def)
  then have "(2 :: rat) ^ nat (- q) * 2 powi q = 1"
    by (simp add: power_int_def field_simps)
  then have "(of_int n :: rat) = of_int (n * 2 ^ nat (- q)) * 2 powi q"
    by (simp add: mult.assoc)
  then have r: "(of_int n :: rat) = of_int (n * 2 ^ nat (- q)) * 2 powi (max (e - (53 - 1)) (- 1074))"
    by (simp only: q_def)
  from e53 have "e \<le> 1023" by simp
  from fl_round_exact [OF e(2,3) this r]
  show "round64 (of_int n) = Fin (of_int n)" "round64 (- of_int n) = Fin (- of_int n)"
    by (simp_all add: round64_def)
qed

lemma fl_of_int_exact: "\<bar>n\<bar> < 2 ^ 53 \<Longrightarrow> fl_of_int n = Fin (of_int n)"
  using round64_of_pos_int [of n] round64_of_pos_int [of "- n"]
  by (cases "n = 0"; cases "0 < n") (auto simp: fl_of_int_def round64_def)

section \<open>The binary32 round trip\<close>

lemma f32_pack_uint:
  "f32_pack (uint w \<ge> 2 ^ 31) (uint w div 2 ^ 23 mod 2 ^ 8) (uint w mod 2 ^ 23) = w"
proof -
  define d where "d = uint w div 8388608"
  have u: "uint w = d * 8388608 + uint w mod 8388608"
    by (simp add: d_def)
  have "uint w < 4294967296" "0 \<le> uint w"
    using uint_bounded [of w] by simp_all
  then have d: "0 \<le> d" "d < 512" and ge: "uint w \<ge> 2147483648 \<longleftrightarrow> d \<ge> 256"
    by (auto simp: d_def pos_imp_zdiv_nonneg_iff)
  have "d mod 256 = (if d \<ge> 256 then d - 256 else d)"
  proof (cases "d \<ge> 256")
    case True
    with d have "(d - 256) mod 256 = d - 256" by (intro mod_pos_pos_trivial) auto
    with True show ?thesis by simp
  next
    case False
    with d show ?thesis by (simp add: mod_pos_pos_trivial)
  qed
  then have "(if uint w \<ge> 2 ^ 31 then 2 ^ 31 else 0) + uint w div 2 ^ 23 mod 2 ^ 8 * 2 ^ 23 +
      uint w mod 2 ^ 23 = uint w"
    using u ge by (auto simp: d_def split: if_splits)
  then show ?thesis unfolding f32_pack_def by (simp only: word_of_int_uint)
qed

lemma normal32:
  assumes "1 \<le> ex" "ex < 255" "0 \<le> m" "m < 2 ^ 23"
  defines "a \<equiv> of_int (2 ^ 23 + m) * 2 powi (ex - 150) :: rat"
  shows "0 < a" "round32 a = Fin a" "round32 (- a) = Fin (- a)"
    and "Float32bits (Fin a) = f32_pack False ex m" "Float32bits (Fin (- a)) = f32_pack True ex m"
proof -
  have k: "of_int (2 ^ 23) \<le> (of_int (2 ^ 23 + m) :: rat)" "(of_int (2 ^ 23 + m) :: rat) < of_int (2 ^ 24)"
    using assms(3,4) unfolding of_int_le_iff of_int_less_iff by simp_all
  have lo: "2 powi (ex - 127) \<le> a"
  proof -
    have "(2 :: rat) powi (ex - 127) = of_int (2 ^ 23) * 2 powi (ex - 150)"
      using power_int_add [of "2 :: rat" 23 "ex - 150"] by simp
    with k(1) show ?thesis unfolding a_def by (simp add: mult_right_mono)
  qed
  have hi: "a < 2 powi (ex - 127 + 1)"
  proof -
    have "(2 :: rat) powi (ex - 127 + 1) = of_int (2 ^ 24) * 2 powi (ex - 150)"
      using power_int_add [of "2 :: rat" 24 "ex - 150"] by simp
    with k(2) show ?thesis unfolding a_def by (simp add: mult_strict_right_mono)
  qed
  show pos: "0 < a" using lo less_le_trans [of 0 "2 powi (ex - 127)" a] by simp
  have log: "ilog2 a = ex - 127" using lo hi by (rule ilog2_unique)
  have "max (ex - 127 - (24 - 1)) (- 149) = ex - 150" using assms(1) by simp
  then have r: "a = of_int (2 ^ 23 + m) * 2 powi (max (ex - 127 - (24 - 1)) (- 149))"
    by (simp only: a_def)
  have "ex - 127 \<le> 127" using assms(2) by simp
  from fl_round_exact [OF lo hi this r]
  show "round32 a = Fin a" "round32 (- a) = Fin (- a)"
    by (simp_all add: round32_def)
  have "a / 2 powi (ex - 127 - 23) = of_int (2 ^ 23 + m)"
    by (simp add: a_def)
  then have "\<lfloor>a / 2 powi (ex - 127 - 23)\<rfloor> = 2 ^ 23 + m"
    by (simp only: floor_of_int)
  with pos log assms(1)
  show "Float32bits (Fin a) = f32_pack False ex m" "Float32bits (Fin (- a)) = f32_pack True ex m"
    by (simp_all add: Let_def)
qed

lemma subnormal32:
  assumes "0 < m" "m < 2 ^ 23"
  defines "a \<equiv> of_int m * 2 powi (- 149) :: rat"
  shows "0 < a" "round32 a = Fin a" "round32 (- a) = Fin (- a)"
    and "Float32bits (Fin a) = f32_pack False 0 m" "Float32bits (Fin (- a)) = f32_pack True 0 m"
proof -
  obtain e where e: "0 \<le> e" "2 powi e \<le> (of_int m :: rat)" "(of_int m :: rat) < 2 powi (e + 1)"
    using pos_int_log_bounds [OF assms(1)] by metis
  have "(of_int m :: rat) < of_int (2 ^ 23)"
    using assms(2) by (simp only: of_int_less_iff)
  then have "(2 :: rat) powi e < 2 powi 23" using e(2) by simp
  then have e23: "e < 23" by (rule powi2_less_imp)
  have sp: "(2 :: rat) powi (e - 149) = 2 powi e * 2 powi (- 149)"
    "(2 :: rat) powi (e - 149 + 1) = 2 powi (e + 1) * 2 powi (- 149)"
    using power_int_add [of "2 :: rat" e "- 149"] power_int_add [of "2 :: rat" "e + 1" "- 149"]
    by (simp_all add: algebra_simps)
  have lo: "2 powi (e - 149) \<le> a" and hi: "a < 2 powi (e - 149 + 1)"
    unfolding a_def sp using e by (auto intro!: mult_right_mono mult_strict_right_mono)
  show pos: "0 < a" using assms(1) by (simp add: a_def)
  have log: "ilog2 a = e - 149" using lo hi by (rule ilog2_unique)
  have "max (e - 149 - (24 - 1)) (- 149) = - 149" using e23 by simp
  then have r: "a = of_int m * 2 powi (max (e - 149 - (24 - 1)) (- 149))"
    by (simp only: a_def)
  have "e - 149 \<le> 127" using e23 by simp
  from fl_round_exact [OF lo hi this r]
  show "round32 a = Fin a" "round32 (- a) = Fin (- a)"
    by (simp_all add: round32_def)
  have "a / 2 powi (- 149) = of_int m" by (simp add: a_def)
  then have "\<lfloor>a / 2 powi (- 149)\<rfloor> = m" by (simp only: floor_of_int)
  with pos log e23
  show "Float32bits (Fin a) = f32_pack False 0 m" "Float32bits (Fin (- a)) = f32_pack True 0 m"
    by (simp_all add: Let_def)
qed

lemma Float32bits_frombits:
  assumes "Float32frombits w \<noteq> NaN"
  shows "Float32bits (fl_to32 (Float32frombits w)) = w"
proof -
  define s ex m where "s = (uint w \<ge> 2 ^ 31)" and "ex = uint w div 2 ^ 23 mod 2 ^ 8"
    and "m = uint w mod 2 ^ 23"
  have w: "f32_pack s ex m = w"
    unfolding s_def ex_def m_def by (rule f32_pack_uint)
  have val: "Float32frombits w = f32_value s ex m"
    by (simp only: Float32frombits_def s_def ex_def m_def)
  have rng: "0 \<le> ex" "ex < 256" "0 \<le> m" "m < 2 ^ 23"
    by (simp_all add: ex_def m_def)
  consider "ex = 255" | "ex = 0" "m = 0" | "ex = 0" "0 < m" | "1 \<le> ex" "ex < 255"
    using rng by linarith
  then have "Float32bits (fl_to32 (f32_value s ex m)) = f32_pack s ex m"
  proof cases
    case 1
    with val assms show ?thesis
      by (auto simp: f32_value_def split: if_splits)
  next
    case 2
    then show ?thesis
      by (simp add: f32_value_def round32_def)
  next
    case 3
    with rng subnormal32 [of m] show ?thesis
      by (cases s) (simp_all add: f32_value_def)
  next
    case 4
    with normal32 [of ex m] rng show ?thesis
      by (cases s) (simp_all add: f32_value_def del: Float32bits.simps)
  qed
  with w val show ?thesis by simp
qed

section \<open>The rounding error\<close>

lemma ilog2_bounds:
  assumes "0 < x"
  shows "2 powi ilog2 x \<le> x" "x < 2 powi (ilog2 x + 1)"
proof -
  obtain a b where q: "quotient_of x = (a, b)" by (cases "quotient_of x")
  have b: "b > 0" and x: "x = of_int a / of_int b"
    using quotient_of_denom_pos [OF q] quotient_of_div [OF q] by auto
  with assms have a: "a > 0" by (simp add: zero_less_divide_iff)
  define fa fb where "fa = int (bitlen (nat a))" and "fb = int (bitlen (nat b))"
  note A = of_int_bitlen_bounds [OF a, folded fa_def] and B = of_int_bitlen_bounds [OF b, folded fb_def]
  have "x < 2 powi fa / 2 powi (fb - 1)"
    unfolding x using A B b a by (intro frac_less) auto
  also have "\<dots> = 2 powi (fa - fb + 1)"
    by (simp add: algebra_simps flip: power_int_diff)
  finally have up: "x < 2 powi (fa - fb + 1)" .
  have "2 powi (fa - 1) / 2 powi fb < x"
    unfolding x using A B b a by (intro frac_less2) auto
  then have low: "2 powi (fa - fb - 1) \<le> x"
    by (simp add: algebra_simps flip: power_int_diff)
  show "2 powi ilog2 x \<le> x" "x < 2 powi (ilog2 x + 1)"
    using up low by (auto simp: ilog2_def q Let_def fa_def [symmetric] fb_def [symmetric])
qed

lemma round_half_even_error: "\<bar>of_int (round_half_even z) - z\<bar> \<le> 1 / 2"
proof -
  have "of_int \<lfloor>z\<rfloor> \<le> z" "z < of_int \<lfloor>z\<rfloor> + 1" by linarith+
  then show ?thesis by (auto simp: round_half_even_def Let_def abs_le_iff)
qed

text \<open>The relative error of rounding to \<^verbatim>\<open>float64\<close>, far from overflow.\<close>

lemma round64_error:
  assumes "\<bar>x\<bar> < 2 ^ 1000"
  shows "fl_finite (round64 x)" "\<bar>fl_val (round64 x) - x\<bar> \<le> (\<bar>x\<bar> + 1) / 2 ^ 53"
proof -
  define a q y where "a = \<bar>x\<bar>" and "q = max (ilog2 a - 52) (- 1074)"
    and "y = (of_int (round_half_even (a / 2 powi q)) * 2 powi q :: rat)"
  have fin: "fl_finite (round64 x) \<and> \<bar>fl_val (round64 x) - x\<bar> \<le> (\<bar>x\<bar> + 1) / 2 ^ 53" if "x \<noteq> 0"
  proof -
    have pos: "0 < a" using that by (simp add: a_def)
    have "(2 :: rat) powi (ilog2 a - 52) = 2 powi ilog2 a / 2 ^ 52"
      by (simp add: power_int_diff)
    also have "\<dots> \<le> a / 2 ^ 52"
      using ilog2_bounds(1) [OF pos] by (intro divide_right_mono) auto
    finally have "(2 :: rat) powi (ilog2 a - 52) \<le> (a + 1) / 2 ^ 52"
      by simp
    moreover have "(2 :: rat) powi (- 1074) \<le> 2 powi (- 52)" by (intro power_int_increasing) auto
    then have "(2 :: rat) powi (- 1074) \<le> (a + 1) / 2 ^ 52"
      using pos by (simp add: power_int_def field_simps)
    ultimately have q: "2 powi q \<le> (a + 1) / 2 ^ 52" by (simp add: q_def max_def)
    have "y - a = (of_int (round_half_even (a / 2 powi q)) - a / 2 powi q) * 2 powi q"
      by (simp add: y_def algebra_simps)
    then have "\<bar>y - a\<bar> \<le> 1 / 2 * 2 powi q"
      using mult_right_mono [OF round_half_even_error [of "a / 2 powi q"], of "2 powi q"]
      by (simp add: abs_mult)
    also have "\<dots> \<le> (a + 1) / 2 ^ 53" using q by simp
    finally have err: "\<bar>y - a\<bar> \<le> (a + 1) / 2 ^ 53" .
    have "(a + 1) / 2 ^ 53 \<le> a + 1" using pos by simp
    with err have "y \<le> 2 * a + 1" by linarith
    moreover have "2 * a + 1 < 2 powi (1023 + 1)"
      using assms by (simp add: a_def)
    ultimately have "\<not> y \<ge> 2 powi (1023 + 1)" by linarith
    with that err show ?thesis
      by (auto simp: round64_def fl_round_def Let_def a_def [symmetric] q_def [symmetric] y_def [symmetric])
        (auto simp: a_def abs_if split: if_splits)
  qed
  show "fl_finite (round64 x)" "\<bar>fl_val (round64 x) - x\<bar> \<le> (\<bar>x\<bar> + 1) / 2 ^ 53"
    using fin by (cases "x = 0"; simp add: round64_def)+
qed

text \<open>The operations on finite values, as the exact result with a bounded error.\<close>

definition near :: "float64 \<Rightarrow> rat \<Rightarrow> bool" where
  "near v x \<longleftrightarrow> fl_finite v \<and> \<bar>fl_val v - x\<bar> \<le> (\<bar>x\<bar> + 1) / 2 ^ 53"

lemma near_round64: "\<bar>x\<bar> < 2 ^ 1000 \<Longrightarrow> near (round64 x) x"
  using round64_error [of x] by (simp add: near_def)

lemma fl_finite_cases: "fl_finite v \<Longrightarrow> v = NegZero \<or> (\<exists>x. v = Fin x)"
  by (cases v) auto

lemma fl_mul_near:
  assumes "fl_finite v" "fl_finite w" "\<bar>fl_val v * fl_val w\<bar> < 2 ^ 1000"
  shows "near (fl_mul v w) (fl_val v * fl_val w)"
  using near_round64 [OF assms(3)] assms(1,2) fl_finite_cases [OF assms(1)] fl_finite_cases [OF assms(2)]
  by (auto simp: fl_mul_def Let_def near_def)

lemma fl_add_near:
  assumes "fl_finite v" "fl_finite w" "\<bar>fl_val v + fl_val w\<bar> < 2 ^ 1000"
  shows "near (fl_add v w) (fl_val v + fl_val w)"
  using near_round64 [OF assms(3)] fl_finite_cases [OF assms(1)] fl_finite_cases [OF assms(2)]
  by (auto simp: near_def round64_def)

lemma fl_neg_finite [simp]: "fl_finite v \<Longrightarrow> fl_finite (fl_neg v)" "fl_val (fl_neg v) = - fl_val v"
  by (cases v; simp)+

lemma fl_sub_near:
  assumes "fl_finite v" "fl_finite w" "\<bar>fl_val v - fl_val w\<bar> < 2 ^ 1000"
  shows "near (fl_sub v w) (fl_val v - fl_val w)"
  using fl_add_near [of v "fl_neg w"] assms by (simp add: fl_sub_def)

lemma pow1000: "(2 :: rat) ^ 60 < 2 ^ 1000"
  by (intro power_strict_increasing) auto

lemma lt_pow: "\<bar>x\<bar> \<le> (10 :: rat) ^ 15 \<Longrightarrow> \<bar>x\<bar> < 2 ^ 1000"
  using pow1000 by (rule order.strict_trans1 [rotated]) simp

lemma near_small:
  assumes "near v x" "\<bar>x\<bar> \<le> 10"
  shows "fl_finite v" "x - 1 / 1000 \<le> fl_val v" "fl_val v \<le> x + 1 / 1000"
proof -
  have "(\<bar>x\<bar> + 1) / 2 ^ 53 \<le> 1 / 1000" using assms(2) by simp
  then have "\<bar>fl_val v - x\<bar> \<le> 1 / 1000"
    using assms(1) unfolding near_def by linarith
  then show "x - 1 / 1000 \<le> fl_val v" "fl_val v \<le> x + 1 / 1000" by linarith+
qed (use assms(1) in \<open>simp add: near_def\<close>)

end
