(* ===== verification/Modbus_Regs.thy ===== *)
theory Modbus_Regs
  imports Go_Float
begin

text \<open>
  The register codec, \<^verbatim>\<open>internal/modbus/regs.go\<close>: data types, the four byte orders,
  and the conversion between 16-bit registers and \<^verbatim>\<open>float64\<close> values. The lemmas show
  that \<^verbatim>\<open>fromCanonical\<close> inverts \<^verbatim>\<open>canonical\<close> in every byte order, that decoding and
  re-encoding returns the registers, and that encoding clamps to the type's range.
\<close>

section \<open>Types and byte orders\<close>

text \<open>
  Both types are named strings in the source; a value that is none of the constants is
  kept with its text.
\<close>

datatype mb_type = Int16 | UInt16 | Int32 | UInt32 | Float32 | OtherType string

datatype byte_order = ABCD | DCBA | BADC | CDAB | OtherOrder string

definition mb_type_of :: "string \<Rightarrow> mb_type" where
  "mb_type_of s =
     (if s = ''int16'' then Int16 else if s = ''uint16'' then UInt16
      else if s = ''int32'' then Int32 else if s = ''uint32'' then UInt32
      else if s = ''float32'' then Float32 else OtherType s)"

definition byte_order_of :: "string \<Rightarrow> byte_order" where
  "byte_order_of s =
     (if s = ''ABCD'' then ABCD else if s = ''DCBA'' then DCBA
      else if s = ''BADC'' then BADC else if s = ''CDAB'' then CDAB else OtherOrder s)"

datatype regs_error =
    TypeRequired | UnsupportedType string | UnsupportedOrder string | WrongRegisterCount nat nat

fun ParseDataType :: "mb_type \<Rightarrow> regs_error + mb_type" where
  "ParseDataType (OtherType s) = (if s = [] then Inl TypeRequired else Inl (UnsupportedType s))"
| "ParseDataType t = Inr t"

fun ParseByteOrder :: "byte_order \<Rightarrow> regs_error + byte_order" where
  "ParseByteOrder (OtherOrder s) = (if s = [] then Inr ABCD else Inl (UnsupportedOrder s))"
| "ParseByteOrder o1 = Inr o1"

fun Words :: "mb_type \<Rightarrow> uint16" where
  "Words Int32 = 2"
| "Words UInt32 = 2"
| "Words Float32 = 2"
| "Words _ = 1"

section \<open>Byte layout\<close>

definition hi_byte :: "uint16 \<Rightarrow> byte" where
  "hi_byte r = ucast (drop_bit 8 r)"

definition lo_byte :: "uint16 \<Rightarrow> byte" where
  "lo_byte r = ucast r"

definition word_of_bytes :: "byte \<Rightarrow> byte \<Rightarrow> uint16" where
  "word_of_bytes h l = push_bit 8 (ucast h) OR ucast l"

text \<open>\<^verbatim>\<open>Decode\<close> applies \<open>canonical\<close> to one or two registers only; on an empty slice the
  source would panic, which no caller can reach.\<close>

fun canonical :: "byte_order \<Rightarrow> uint16 list \<Rightarrow> byte list" where
  "canonical o1 [] = []"
| "canonical o1 [r] =
     (if o1 = DCBA \<or> o1 = BADC then [lo_byte r, hi_byte r] else [hi_byte r, lo_byte r])"
| "canonical o1 (r0 # r1 # rs) =
     (let a = hi_byte r0; b = lo_byte r0; c = hi_byte r1; d = lo_byte r1
      in case o1 of
           DCBA \<Rightarrow> [d, c, b, a]
         | BADC \<Rightarrow> [b, a, d, c]
         | CDAB \<Rightarrow> [c, d, a, b]
         | _ \<Rightarrow> [a, b, c, d])"

fun fromCanonical :: "byte_order \<Rightarrow> byte list \<Rightarrow> uint16 list" where
  "fromCanonical o1 [x, y] =
     (if o1 = DCBA \<or> o1 = BADC then [word_of_bytes y x] else [word_of_bytes x y])"
| "fromCanonical o1 (a # b # c # d # rs) =
     (case o1 of
        DCBA \<Rightarrow> [word_of_bytes d c, word_of_bytes b a]
      | BADC \<Rightarrow> [word_of_bytes b a, word_of_bytes d c]
      | CDAB \<Rightarrow> [word_of_bytes c d, word_of_bytes a b]
      | _ \<Rightarrow> [word_of_bytes a b, word_of_bytes c d])"
| "fromCanonical o1 _ = []"

section \<open>Values\<close>

definition Decode :: "mb_type \<Rightarrow> byte_order \<Rightarrow> uint16 list \<Rightarrow> regs_error + float64" where
  "Decode t o1 regs =
     (if unat (Words t) \<noteq> length regs then Inl (WrongRegisterCount (unat (Words t)) (length regs))
      else let b = canonical o1 regs
           in case t of
                Int16 \<Rightarrow> Inr (fl_of_int (sint (get_uint16 b)))
              | UInt16 \<Rightarrow> Inr (fl_of_int (uint (get_uint16 b)))
              | Int32 \<Rightarrow> Inr (fl_of_int (sint (get_uint32 b)))
              | UInt32 \<Rightarrow> Inr (fl_of_int (uint (get_uint32 b)))
              | Float32 \<Rightarrow> Inr (Float32frombits (get_uint32 b))
              | OtherType s \<Rightarrow> Inl (UnsupportedType s))"

definition clamp :: "float64 \<Rightarrow> int \<Rightarrow> int \<Rightarrow> float64" where
  "clamp v lo hi =
     (if fl_isnan v then Fin 0
      else if fl_less v (Fin (of_int lo)) then Fin (of_int lo)
      else if fl_less (Fin (of_int hi)) v then Fin (of_int hi)
      else fl_trunc v)"

definition Encode :: "mb_type \<Rightarrow> byte_order \<Rightarrow> float64 \<Rightarrow> regs_error + uint16 list" where
  "Encode t o1 v =
     (case t of
        Int16 \<Rightarrow> Inr (fromCanonical o1 (put_uint16
                   (word_of_int (fl_to_int (clamp v (- 32768) 32767)))))
      | UInt16 \<Rightarrow> Inr (fromCanonical o1 (put_uint16 (word_of_int (fl_to_int (clamp v 0 65535)))))
      | Int32 \<Rightarrow> Inr (fromCanonical o1 (put_uint32
                   (word_of_int (fl_to_int (clamp v (- 2147483648) 2147483647)))))
      | UInt32 \<Rightarrow> Inr (fromCanonical o1 (put_uint32
                   (word_of_int (fl_to_int (clamp v 0 4294967295)))))
      | Float32 \<Rightarrow> Inr (fromCanonical o1 (put_uint32 (Float32bits (fl_to32 v))))
      | OtherType s \<Rightarrow> Inl (UnsupportedType s))"

section \<open>Lemmas on the byte layout\<close>

lemma word_of_hi_lo [simp, codec_simps]: "word_of_bytes (hi_byte r) (lo_byte r) = r"
  unfolding word_of_bytes_def hi_byte_def lo_byte_def
  by (rule bit_word_eqI) (auto simp: bit_simps)

lemma hi_lo_of_word [simp, codec_simps]:
  "hi_byte (word_of_bytes a b) = a" "lo_byte (word_of_bytes a b) = b"
  unfolding word_of_bytes_def hi_byte_def lo_byte_def
  by (auto intro!: bit_word_eqI simp: bit_simps bit_byte_high)

lemma fromCanonical_canonical:
  "length regs = 1 \<or> length regs = 2 \<Longrightarrow> fromCanonical o1 (canonical o1 regs) = regs"
  by (cases o1) (auto simp: length_Suc_conv numeral_2_eq_2 Let_def)

lemma canonical_fromCanonical:
  "length bs = 2 \<or> length bs = 4 \<Longrightarrow> canonical o1 (fromCanonical o1 bs) = bs"
  by (cases o1) (auto simp: length_Suc_conv eval_nat_numeral Let_def)

lemma length_canonical:
  "length regs = 1 \<Longrightarrow> length (canonical o1 regs) = 2"
  "length regs = 2 \<Longrightarrow> length (canonical o1 regs) = 4"
  by (cases o1; auto simp: length_Suc_conv numeral_2_eq_2 Let_def)+

lemma length_fromCanonical:
  "length bs = 2 \<Longrightarrow> length (fromCanonical o1 bs) = 1"
  "length bs = 4 \<Longrightarrow> length (fromCanonical o1 bs) = 2"
  by (cases o1; auto simp: length_Suc_conv eval_nat_numeral)+

lemma put_get_canonical:
  "length regs = 1 \<Longrightarrow> put_uint16 (get_uint16 (canonical o1 regs)) = canonical o1 regs"
  "length regs = 2 \<Longrightarrow> put_uint32 (get_uint32 (canonical o1 regs)) = canonical o1 regs"
  by (simp_all add: put_get_uint16_slice put_get_uint32_slice length_canonical)

lemma reencode:
  "length regs = 1 \<Longrightarrow> fromCanonical o1 (put_uint16 (get_uint16 (canonical o1 regs))) = regs"
  "length regs = 2 \<Longrightarrow> fromCanonical o1 (put_uint32 (get_uint32 (canonical o1 regs))) = regs"
  by (simp_all add: put_get_canonical fromCanonical_canonical)

section \<open>Lemmas on values\<close>

lemma rat_trunc_of_int [simp]: "rat_trunc (of_int n) = n"
  by (simp add: rat_trunc_def)

lemma fl_to_int_of_int [simp]: "fl_to_int (Fin (of_int n)) = n"
  by (simp add: fl_to_int_def)

lemma rat_trunc_eq: "rat_trunc x = (if x < 0 then \<lceil>x\<rceil> else \<lfloor>x\<rfloor>)"
  by (simp add: rat_trunc_def ceiling_def)

lemma rat_trunc_ge: "lo \<le> 0 \<Longrightarrow> of_int lo \<le> x \<Longrightarrow> lo \<le> rat_trunc x"
  unfolding rat_trunc_eq by (simp add: le_floor_iff le_ceiling_iff)

lemma rat_trunc_le: "0 \<le> hi \<Longrightarrow> x \<le> of_int hi \<Longrightarrow> rat_trunc x \<le> hi"
  unfolding rat_trunc_eq by (simp add: floor_le_iff ceiling_le_iff)

lemma rat_trunc_below: "lo \<le> 0 \<Longrightarrow> x < of_int lo \<Longrightarrow> rat_trunc x \<le> lo"
proof -
  assume "lo \<le> 0" "x < of_int lo"
  then have "x < 0" by (meson less_le_trans of_int_le_0_iff)
  with \<open>x < of_int lo\<close> show ?thesis by (simp add: rat_trunc_eq ceiling_le_iff)
qed

lemma rat_trunc_above: "0 \<le> hi \<Longrightarrow> of_int hi < x \<Longrightarrow> hi \<le> rat_trunc x"
proof -
  assume "0 \<le> hi" "of_int hi < x"
  then have "\<not> x < 0" by (meson le_less_trans not_less_iff_gr_or_eq of_int_0_le_iff)
  with \<open>of_int hi < x\<close> show ?thesis by (simp add: rat_trunc_eq le_floor_iff)
qed

text \<open>The integer a value is encoded as: truncation, cut off at the type's ends.\<close>

definition clamped :: "float64 \<Rightarrow> int \<Rightarrow> int \<Rightarrow> int" where
  "clamped v lo hi =
     (case v of
        NaN \<Rightarrow> 0
      | Inf s \<Rightarrow> if s then lo else hi
      | NegZero \<Rightarrow> 0
      | Fin x \<Rightarrow> max lo (min hi (rat_trunc x)))"

lemma clamped_bounds: "lo \<le> 0 \<Longrightarrow> 0 \<le> hi \<Longrightarrow> lo \<le> clamped v lo hi \<and> clamped v lo hi \<le> hi"
  by (auto simp: clamped_def split: float64.splits)

lemma fl_to_int_clamp:
  assumes "lo \<le> 0" "0 \<le> hi"
  shows "fl_to_int (clamp v lo hi) = clamped v lo hi"
proof (cases v)
  case (Fin x)
  consider "x < of_int lo" | "of_int hi < x" | "of_int lo \<le> x" "x \<le> of_int hi" by linarith
  then show ?thesis
  proof cases
    case 1
    with rat_trunc_below [OF assms(1) 1] Fin assms show ?thesis
      by (simp add: clamp_def clamped_def fl_isnan_def max_def min_def)
  next
    case 2
    have "\<not> x < of_int lo" using 2 assms
      by (metis le_less_trans not_less_iff_gr_or_eq of_int_le_iff order_trans)
    with 2 rat_trunc_above [OF assms(2) 2] Fin assms show ?thesis
      by (simp add: clamp_def clamped_def fl_isnan_def max_def min_def)
  next
    case 3
    with rat_trunc_ge [OF assms(1) 3(1)] rat_trunc_le [OF assms(2) 3(2)] Fin show ?thesis
      by (auto simp: clamp_def clamped_def fl_isnan_def fl_to_int_def rat_trunc_def)
  qed
qed (use assms in \<open>auto simp: clamp_def clamped_def fl_isnan_def fl_to_int_def rat_trunc_def\<close>)

lemma clamped_of_int: "lo \<le> n \<Longrightarrow> n \<le> hi \<Longrightarrow> clamped (Fin (of_int n)) lo hi = n"
  by (simp add: clamped_def)

text \<open>The value range of the integer types.\<close>

fun type_range :: "mb_type \<Rightarrow> (int \<times> int) option" where
  "type_range Int16 = Some (- 32768, 32767)"
| "type_range UInt16 = Some (0, 65535)"
| "type_range Int32 = Some (- 2147483648, 2147483647)"
| "type_range UInt32 = Some (0, 4294967295)"
| "type_range _ = None"

lemma Decode_int_type:
  assumes "type_range t = Some (lo, hi)"
  shows "\<exists>regs. Encode t o1 v = Inr regs \<and> Decode t o1 regs = Inr (Fin (of_int (clamped v lo hi)))"
proof -
  have lh: "lo \<le> 0" "0 \<le> hi" using assms by (cases t; auto)+
  note cl = fl_to_int_clamp [OF lh, of v] and cb = clamped_bounds [OF lh, of v]
  have s16: "sint (word_of_int n :: uint16) = n" if "- 32768 \<le> n" "n \<le> 32767" for n
    using that by (simp add: sint_sbintrunc' signed_take_bit_int_eq_self_iff)
  have u16: "uint (word_of_int n :: uint16) = n" if "0 \<le> n" "n \<le> 65535" for n
    using that by (simp add: uint_word_of_int)
  have s32: "sint (word_of_int n :: uint32) = n" if "- 2147483648 \<le> n" "n \<le> 2147483647" for n
    using that by (simp add: sint_sbintrunc' signed_take_bit_int_eq_self_iff)
  have u32: "uint (word_of_int n :: uint32) = n" if "0 \<le> n" "n \<le> 4294967295" for n
    using that by (simp add: uint_word_of_int)
  have ex: "fl_of_int n = Fin (of_int n)" if "- 2147483648 \<le> n" "n \<le> 4294967295" for n
    using that by (intro fl_of_int_exact) auto
  show ?thesis
    using assms cl cb
    by (cases t) (auto simp: Encode_def Decode_def Let_def canonical_fromCanonical
        length_fromCanonical s16 u16 s32 u32 ex)
qed

section \<open>Properties\<close>

text \<open>
  C12: decoding loses nothing. Whatever value \<^verbatim>\<open>Decode\<close> returns for some registers, in
  any of the five data types and any byte order, \<^verbatim>\<open>Encode\<close> of that value gives the
  same registers back; only a binary32 NaN, whose payload Go does not specify, is
  excluded.
\<close>

theorem Encode_Decode:
  assumes "Decode t o1 regs = Inr v" and "v \<noteq> NaN"
  shows "Encode t o1 v = Inr regs"
proof -
  have len: "length regs = unat (Words t)"
    using assms(1) by (auto simp: Decode_def split: if_splits)
  have b16: "- 32768 \<le> sint w \<and> sint w \<le> 32767" "0 \<le> uint w \<and> uint w \<le> 65535" for w :: uint16
    using sint_range_size [of w] uint_bounded [of w] by (simp_all add: word_size)
  have b32: "- 2147483648 \<le> sint w \<and> sint w \<le> 2147483647" "0 \<le> uint w \<and> uint w \<le> 4294967295"
    for w :: uint32
    using sint_range_size [of w] uint_bounded [of w] by (simp_all add: word_size)
  have ex: "fl_of_int n = Fin (of_int n)" if "- 2147483648 \<le> n" "n \<le> 4294967295" for n
    using that by (intro fl_of_int_exact) auto
  have ex16: "fl_of_int (sint w) = Fin (of_int (sint w))" "fl_of_int (uint w) = Fin (of_int (uint w))"
    for w :: uint16
    by (rule ex; use b16 [of w] in linarith)+
  have ex32: "fl_of_int (sint w) = Fin (of_int (sint w))" "fl_of_int (uint w) = Fin (of_int (uint w))"
    for w :: uint32
    by (rule ex; use b32 [of w] in linarith)+
  have back16: "word_of_int (sint w) = w" for w :: uint16
    by simp
  have back32: "word_of_int (sint w) = w" for w :: uint32
    by simp
  show ?thesis
    using assms len b16 b32
    by (cases t) (auto simp: Decode_def Encode_def Let_def ex16 ex32 fl_to_int_clamp clamped_of_int
        reencode Float32bits_frombits back16 back32 word_of_int_uint simp del: of_int_sint of_int_uint)
qed

theorem Encode_Decode_witness:
  "Encode Int16 BADC (Fin (- 2)) = Inr [0xFEFF]"
proof -
  have "Decode Int16 BADC [0xFEFF] = Inr (Fin (- 2))"
    using fl_of_int_exact [of "- 2"] by (simp add: Decode_def hi_byte_def lo_byte_def)
  then show ?thesis using Encode_Decode [of Int16 BADC "[0xFEFF]" "Fin (- 2)"] by simp
qed

text \<open>
  Encoding saturates. For the four integer types \<^verbatim>\<open>Encode\<close> succeeds on every
  \<^verbatim>\<open>float64\<close>, and decoding its registers gives the value truncated toward zero and cut
  off at the ends of the type (NaN as 0, infinities as the ends), in every byte order.
\<close>

theorem Encode_saturates:
  assumes "type_range t = Some (lo, hi)"
  shows "\<exists>regs. Encode t o1 v = Inr regs \<and>
    Decode t o1 regs = Inr (Fin (of_int (clamped v lo hi))) \<and>
    lo \<le> clamped v lo hi \<and> clamped v lo hi \<le> hi"
proof -
  have "lo \<le> 0" "0 \<le> hi" using assms by (cases t; auto)+
  then show ?thesis using Decode_int_type [OF assms] clamped_bounds by blast
qed

theorem Encode_saturates_witness:
  "\<exists>regs. Encode UInt16 DCBA (Fin 70000) = Inr regs \<and> Decode UInt16 DCBA regs = Inr (Fin 65535)"
proof -
  have "clamped (Fin 70000) 0 65535 = 65535"
    using rat_trunc_of_int [of 70000] by (simp add: clamped_def)
  then show ?thesis using Encode_saturates [of UInt16 0 65535 DCBA "Fin 70000"] by auto
qed

end
