(* ===== verification/Modbus_Frame.thy ===== *)
theory Modbus_Frame
  imports Plant_Prelude
begin

text \<open>
  Modbus TCP framing, \<^verbatim>\<open>internal/modbus/frame.go\<close>: protocol data units, the MBAP frame
  with its encoder and its reader, and the request, response and exception units of
  function codes 3 and 4. The lemmas are the round trips of every encoder with its
  decoder, on a stream that may carry more bytes behind the frame, and the exact
  condition under which each decoder refuses its input.
\<close>

section \<open>Constants, errors, data\<close>

definition FuncReadHoldingRegisters :: byte where
  "FuncReadHoldingRegisters = 0x03"

definition FuncReadInputRegisters :: byte where
  "FuncReadInputRegisters = 0x04"

definition exceptionFlag :: byte where
  "exceptionFlag = 0x80"

definition MaxRegistersPerRead :: uint16 where
  "MaxRegistersPerRead = 125"

definition MaxPDU :: nat where
  "MaxPDU = 253"

definition mbapHeaderLen :: nat where
  "mbapHeaderLen = 7"

definition protocolID :: uint16 where
  "protocolID = 0"

type_synonym exception_code = byte

definition ExIllegalFunction :: exception_code where
  "ExIllegalFunction = 0x01"

definition ExIllegalDataAddress :: exception_code where
  "ExIllegalDataAddress = 0x02"

definition ExIllegalDataValue :: exception_code where
  "ExIllegalDataValue = 0x03"

definition ExServerDeviceFailure :: exception_code where
  "ExServerDeviceFailure = 0x04"

definition ExGatewayTargetFailed :: exception_code where
  "ExGatewayTargetFailed = 0x0B"

lemmas modbus_consts = FuncReadHoldingRegisters_def FuncReadInputRegisters_def exceptionFlag_def
  MaxRegistersPerRead_def MaxPDU_def mbapHeaderLen_def protocolID_def ExIllegalFunction_def
  ExIllegalDataAddress_def ExIllegalDataValue_def ExServerDeviceFailure_def
  ExGatewayTargetFailed_def

definition hex_digit :: "nat \<Rightarrow> char" where
  "hex_digit n = ''0123456789abcdef'' ! (n mod 16)"

definition exception_String :: "exception_code \<Rightarrow> string" where
  "exception_String c =
     (if c = ExIllegalFunction then ''illegal function''
      else if c = ExIllegalDataAddress then ''illegal data address''
      else if c = ExIllegalDataValue then ''illegal data value''
      else if c = ExServerDeviceFailure then ''server device failure''
      else if c = ExGatewayTargetFailed then ''gateway target device failed to respond''
      else ''exception 0x'' @ [hex_digit (unat c div 16), hex_digit (unat c)])"

text \<open>How a read from a connection ends when no more bytes arrive.\<close>

datatype read_error = EOF | UnexpectedEOF | Timeout | ConnFault

datatype mb_error =
    ErrShortFrame | ErrBadProtocolID | ErrFrameTooLarge | ErrUnexpectedFunc byte byte
  | ErrByteCount | ErrQuantity | ErrAddressOverflow
  | ExceptionError byte exception_code
  | ErrRead read_error | ErrDeadlineExceeded | ErrSetDeadline | ErrWrite | ErrContext
  | ErrTable

record pdu =
  Function :: byte
  Data :: "byte list"

record adu =
  TransactionID :: uint16
  UnitID :: byte
  PDU :: pdu

text \<open>A reader: the bytes that will arrive, then the way the stream ends.\<close>

record reader =
  rd_avail :: "byte list"
  rd_end :: read_error

definition ReadFull :: "reader \<Rightarrow> nat \<Rightarrow> (read_error + byte list) \<times> reader" where
  "ReadFull r n =
     (if n \<le> length (rd_avail r)
      then (Inr (take n (rd_avail r)), r\<lparr>rd_avail := drop n (rd_avail r)\<rparr>)
      else (Inl (if rd_avail r \<noteq> [] \<and> rd_end r = EOF then UnexpectedEOF else rd_end r),
            r\<lparr>rd_avail := []\<rparr>))"

section \<open>Frames\<close>

definition MarshalBinary :: "adu \<Rightarrow> mb_error + byte list" where
  "MarshalBinary a =
     (if length (Data (PDU a)) + 1 > MaxPDU then Inl ErrFrameTooLarge
      else Inr (put_uint16 (TransactionID a) @ put_uint16 protocolID @
                put_uint16 (of_nat (2 + length (Data (PDU a)))) @
                [UnitID a, Function (PDU a)] @ Data (PDU a)))"

definition ReadADU :: "reader \<Rightarrow> (mb_error + adu) \<times> reader" where
  "ReadADU r =
     (case ReadFull r mbapHeaderLen of
        (Inl e, r1) \<Rightarrow> (Inl (ErrRead e), r1)
      | (Inr hdr, r1) \<Rightarrow>
          if get_uint16 (drop 2 hdr) \<noteq> protocolID then (Inl ErrBadProtocolID, r1)
          else let len = unat (get_uint16 (drop 4 hdr)) in
            if len < 2 then (Inl ErrShortFrame, r1)
            else if len - 1 > MaxPDU then (Inl ErrFrameTooLarge, r1)
            else (case ReadFull r1 (len - 1) of
                    (Inl e, r2) \<Rightarrow> (Inl (ErrRead e), r2)
                  | (Inr body, r2) \<Rightarrow>
                      (Inr \<lparr>TransactionID = get_uint16 hdr, UnitID = hdr ! 6,
                            PDU = \<lparr>Function = hd body, Data = tl body\<rparr>\<rparr>, r2)))"

section \<open>Requests and responses of function codes 3 and 4\<close>

definition address_overflow :: "uint16 \<Rightarrow> uint16 \<Rightarrow> bool" where
  "address_overflow addr qty = ((ucast addr :: uint32) + ucast qty > 0x10000)"

definition ReadRegistersRequest :: "byte \<Rightarrow> uint16 \<Rightarrow> uint16 \<Rightarrow> mb_error + pdu" where
  "ReadRegistersRequest fn addr qty =
     (if fn \<noteq> FuncReadHoldingRegisters \<and> fn \<noteq> FuncReadInputRegisters
      then Inl (ExceptionError fn ExIllegalFunction)
      else if qty = 0 \<or> qty > MaxRegistersPerRead then Inl ErrQuantity
      else if address_overflow addr qty then Inl ErrAddressOverflow
      else Inr \<lparr>Function = fn, Data = put_uint16 addr @ put_uint16 qty\<rparr>)"

definition ParseReadRegistersRequest :: "pdu \<Rightarrow> mb_error + uint16 \<times> uint16" where
  "ParseReadRegistersRequest p =
     (if length (Data p) \<noteq> 4 then Inl ErrShortFrame
      else let addr = get_uint16 (Data p); qty = get_uint16 (drop 2 (Data p)) in
        if qty = 0 \<or> qty > MaxRegistersPerRead then Inl ErrQuantity
        else if address_overflow addr qty then Inl ErrAddressOverflow
        else Inr (addr, qty))"

definition ReadRegistersResponse :: "byte \<Rightarrow> uint16 list \<Rightarrow> pdu" where
  "ReadRegistersResponse fn regs =
     \<lparr>Function = fn, Data = of_nat (2 * length regs) # concat (map put_uint16 regs)\<rparr>"

text \<open>The decoding loop \<^verbatim>\<open>regs[i] = Uint16(p.Data[1+2*i:])\<close> for \<open>n\<close> registers.\<close>

fun read_regs :: "nat \<Rightarrow> byte list \<Rightarrow> uint16 list" where
  "read_regs 0 bs = []"
| "read_regs (Suc n) bs = get_uint16 bs # read_regs n (drop 2 bs)"

definition ParseReadRegistersResponse :: "pdu \<Rightarrow> byte \<Rightarrow> uint16 \<Rightarrow> mb_error + uint16 list" where
  "ParseReadRegistersResponse p wantFn wantQty =
     (if Function p = wantFn OR exceptionFlag
      then Inl (ExceptionError wantFn
             (case Data p of [] \<Rightarrow> ExServerDeviceFailure | c # _ \<Rightarrow> c))
      else if Function p \<noteq> wantFn then Inl (ErrUnexpectedFunc (Function p) wantFn)
      else case Data p of
             [] \<Rightarrow> Inl ErrShortFrame
           | n # rest \<Rightarrow>
               if unat n \<noteq> 2 * unat wantQty \<or> length rest \<noteq> unat n then Inl ErrByteCount
               else Inr (read_regs (unat wantQty) rest))"

definition ExceptionResponse :: "byte \<Rightarrow> exception_code \<Rightarrow> pdu" where
  "ExceptionResponse fn code = \<lparr>Function = fn OR exceptionFlag, Data = [code]\<rparr>"

section \<open>Lemmas\<close>

lemma ReadFull_append [simp]:
  "length xs = n \<Longrightarrow> rd_avail r = xs @ ys \<Longrightarrow> ReadFull r n = (Inr xs, r\<lparr>rd_avail := ys\<rparr>)"
  by (simp add: ReadFull_def)

lemma ReadFull_rest:
  "ReadFull r n = (res, r') \<Longrightarrow> length (rd_avail r') \<le> length (rd_avail r) \<and> rd_end r' = rd_end r"
  by (auto simp: ReadFull_def split: if_splits)

lemma ReadFull_Inr:
  "ReadFull r n = (Inr bs, r') \<Longrightarrow> rd_avail r = bs @ rd_avail r' \<and> length bs = n \<and> rd_end r' = rd_end r"
  by (auto simp: ReadFull_def split: if_splits)

lemma MarshalBinary_length:
  "MarshalBinary a = Inr f \<Longrightarrow> length f = 8 + length (Data (PDU a)) \<and> length (Data (PDU a)) \<le> 252"
  by (auto simp: MarshalBinary_def MaxPDU_def split: if_splits)

lemma ReadADU_Marshal:
  assumes "MarshalBinary a = Inr f" "rd_avail r = f @ rest"
  shows "ReadADU r = (Inr a, r\<lparr>rd_avail := rest\<rparr>)"
proof -
  let ?n = "length (Data (PDU a))"
  have n: "?n \<le> 252" using MarshalBinary_length [OF assms(1)] by simp
  let ?hdr = "put_uint16 (TransactionID a) @ put_uint16 protocolID @
      put_uint16 (of_nat (2 + ?n)) @ [UnitID a]"
  have f: "f = ?hdr @ (Function (PDU a) # Data (PDU a))"
    using assms(1) n by (auto simp: MarshalBinary_def MaxPDU_def)
  have len: "unat (of_nat (2 + ?n) :: uint16) = 2 + ?n"
    using n by (intro unat_of_nat_uint16) simp
  have r1: "ReadFull r mbapHeaderLen = (Inr ?hdr, r\<lparr>rd_avail := (Function (PDU a) # Data (PDU a)) @ rest\<rparr>)"
    using assms(2) f by (intro ReadFull_append) (auto simp: mbapHeaderLen_def)
  have r2: "ReadFull (r\<lparr>rd_avail := (Function (PDU a) # Data (PDU a)) @ rest\<rparr>) (2 + ?n - 1) =
      (Inr (Function (PDU a) # Data (PDU a)), r\<lparr>rd_avail := rest\<rparr>)"
    by (subst ReadFull_append [of "Function (PDU a) # Data (PDU a)" _ _ rest]) auto
  have g: "get_uint16 (drop 2 ?hdr) = protocolID" "get_uint16 (drop 4 ?hdr) = of_nat (2 + ?n)"
    "get_uint16 ?hdr = TransactionID a" "?hdr ! 6 = UnitID a"
    by (simp_all add: nth_append del: of_nat_add of_nat_Suc)
  show ?thesis
    unfolding ReadADU_def r1 prod.case sum.case g Let_def len
    using n r2 by (simp add: MaxPDU_def)
qed

lemma ReadADU_consumes:
  "ReadADU r = (Inr a, r') \<Longrightarrow> length (rd_avail r') + 8 \<le> length (rd_avail r) \<and> rd_end r' = rd_end r"
  by (auto simp: ReadADU_def Let_def mbapHeaderLen_def split: prod.splits sum.splits if_splits
      dest!: ReadFull_Inr)

lemma address_overflow_iff: "address_overflow addr qty \<longleftrightarrow> unat addr + unat qty > 65536"
proof -
  have b: "unat addr < 65536" "unat qty < 65536"
    by (rule unat_uint16_less)+
  have "unat ((ucast addr :: uint32) + ucast qty) = unat addr + unat qty"
    using b by (simp add: unat_word_ariths unsigned_ucast_eq take_bit_eq_mod)
  then show ?thesis
    by (simp add: address_overflow_def word_less_nat_alt)
qed

lemma read_regs_concat:
  "read_regs (length regs) (concat (map put_uint16 regs) @ rest) = regs"
  by (induction regs) auto

lemma length_concat_put16 [simp]: "length (concat (map put_uint16 regs)) = 2 * length regs"
  by (induction regs) auto

lemma qty_range_iff: "qty = 0 \<or> qty > MaxRegistersPerRead \<longleftrightarrow> unat qty \<notin> {1..125}"
  by (auto simp: MaxRegistersPerRead_def word_less_nat_alt unat_eq_0 Suc_le_eq
      simp flip: word_neq_0_conv unat_gt_0)

lemma fc_not_exception:
  "fn = FuncReadHoldingRegisters \<or> fn = FuncReadInputRegisters \<Longrightarrow> fn \<noteq> fn OR exceptionFlag"
  by (auto simp: modbus_consts)

lemma ReadRegistersRequest_Inr:
  "ReadRegistersRequest fn addr qty = Inr p \<longleftrightarrow>
     (fn = FuncReadHoldingRegisters \<or> fn = FuncReadInputRegisters) \<and>
     unat qty \<in> {1..125} \<and> unat addr + unat qty \<le> 65536 \<and>
     p = \<lparr>Function = fn, Data = put_uint16 addr @ put_uint16 qty\<rparr>"
  unfolding ReadRegistersRequest_def qty_range_iff address_overflow_iff by auto

lemma Parse_put_request:
  assumes "unat qty \<in> {1..125}" "unat addr + unat qty \<le> 65536"
  shows "ParseReadRegistersRequest \<lparr>Function = fn, Data = put_uint16 addr @ put_uint16 qty\<rparr> =
     Inr (addr, qty)"
  using assms
  unfolding ParseReadRegistersRequest_def qty_range_iff address_overflow_iff by simp

lemma Parse_response:
  assumes "fn = FuncReadHoldingRegisters \<or> fn = FuncReadInputRegisters"
    and "length regs = unat qty" "unat qty \<le> 125"
  shows "ParseReadRegistersResponse (ReadRegistersResponse fn regs) fn qty = Inr regs"
proof -
  have "unat (of_nat (2 * length regs) :: byte) = 2 * length regs"
    using assms(2,3) by (intro unat_of_nat_byte) simp
  then show ?thesis
    using assms fc_not_exception [OF assms(1)] read_regs_concat [of regs "[]"]
    by (simp add: ParseReadRegistersResponse_def ReadRegistersResponse_def)
qed

lemma Parse_exception:
  "ParseReadRegistersResponse (ExceptionResponse fn code) fn qty = Inl (ExceptionError fn code)"
  by (simp add: ParseReadRegistersResponse_def ExceptionResponse_def)

lemma Parse_response_length:
  "ParseReadRegistersResponse p fn qty = Inr regs \<Longrightarrow> length regs = unat qty"
proof -
  have "length (read_regs n bs) = n" for n bs by (induction n arbitrary: bs) auto
  then show "ParseReadRegistersResponse p fn qty = Inr regs \<Longrightarrow> length regs = unat qty"
    by (auto simp: ParseReadRegistersResponse_def split: if_splits list.splits)
qed

section \<open>Properties\<close>

text \<open>
  Framing round trip. When \<^verbatim>\<open>MarshalBinary\<close> accepts a unit, which it does exactly
  for at most 252 bytes of data, \<^verbatim>\<open>ReadADU\<close> on any stream that starts with the frame
  returns that unit and leaves exactly the bytes behind the frame.
\<close>

theorem frame_roundtrip:
  "(\<exists>f. MarshalBinary a = Inr f) = (length (Data (PDU a)) \<le> 252) \<and>
   (\<forall>f rest e. MarshalBinary a = Inr f \<longrightarrow>
      ReadADU \<lparr>rd_avail = f @ rest, rd_end = e\<rparr> = (Inr a, \<lparr>rd_avail = rest, rd_end = e\<rparr>))"
  using ReadADU_Marshal [of a] by (auto simp: MarshalBinary_def MaxPDU_def)

theorem frame_roundtrip_witness:
  "ReadADU \<lparr>rd_avail = [0, 7, 0, 0, 0, 3, 1, 3, 9, 77], rd_end = Timeout\<rparr> =
     (Inr \<lparr>TransactionID = 7, UnitID = 1, PDU = \<lparr>Function = 3, Data = [9]\<rparr>\<rparr>,
      \<lparr>rd_avail = [77], rd_end = Timeout\<rparr>)"
proof -
  have "MarshalBinary \<lparr>TransactionID = 7, UnitID = 1, PDU = \<lparr>Function = 3, Data = [9]\<rparr>\<rparr> =
      Inr [0, 7, 0, 0, 0, 3, 1, 3, 9]"
    by (simp add: MarshalBinary_def MaxPDU_def put_uint16_def protocolID_def)
  then show ?thesis
    using frame_roundtrip [of "\<lparr>TransactionID = 7, UnitID = 1, PDU = \<lparr>Function = 3, Data = [9]\<rparr>\<rparr>"]
    by fastforce
qed

text \<open>
  Requests on the wire. The client's builder and the server's parser agree: a
  request is built exactly for function codes 3 and 4, 1 to 125 registers and an address
  range inside the 65536 registers, and the parser then returns the same address and
  quantity.
\<close>

theorem request_roundtrip:
  "ReadRegistersRequest fn addr qty = Inr p \<longleftrightarrow>
     (fn = 3 \<or> fn = 4) \<and> 1 \<le> unat qty \<and> unat qty \<le> 125 \<and> unat addr + unat qty \<le> 65536 \<and>
     Function p = fn \<and> ParseReadRegistersRequest p = Inr (addr, qty)"
proof
  assume "ReadRegistersRequest fn addr qty = Inr p"
  then show "(fn = 3 \<or> fn = 4) \<and> 1 \<le> unat qty \<and> unat qty \<le> 125 \<and>
      unat addr + unat qty \<le> 65536 \<and> Function p = fn \<and> ParseReadRegistersRequest p = Inr (addr, qty)"
    by (auto simp: ReadRegistersRequest_Inr Parse_put_request modbus_consts)
next
  assume *: "(fn = 3 \<or> fn = 4) \<and> 1 \<le> unat qty \<and> unat qty \<le> 125 \<and>
      unat addr + unat qty \<le> 65536 \<and> Function p = fn \<and> ParseReadRegistersRequest p = Inr (addr, qty)"
  then have "length (Data p) = 4" "get_uint16 (Data p) = addr" "get_uint16 (drop 2 (Data p)) = qty"
    by (auto simp: ParseReadRegistersRequest_def Let_def split: if_splits)
  then obtain a b c d where "Data p = [a, b, c, d]" "get_uint16 [a, b] = addr" "get_uint16 [c, d] = qty"
    by (auto simp: length_Suc_conv eval_nat_numeral)
  then have "Data p = put_uint16 addr @ put_uint16 qty"
    using put_get_uint16 [of a b] put_get_uint16 [of c d] by simp
  with * show "ReadRegistersRequest fn addr qty = Inr p"
    unfolding ReadRegistersRequest_Inr by (cases p) (auto simp: modbus_consts)
qed

text \<open>
  Responses on the wire. What the server encodes for \<open>qty\<close> registers the client
  decodes to the same registers; an exception unit comes back as the exception error with
  the same code; and every response the client accepts has exactly the requested number
  of registers.
\<close>

theorem response_roundtrip:
  assumes "fn = 3 \<or> fn = 4" and "unat qty \<le> 125"
  shows "(\<forall>regs. length regs = unat qty \<longrightarrow>
      ParseReadRegistersResponse (ReadRegistersResponse fn regs) fn qty = Inr regs) \<and>
    ParseReadRegistersResponse (ExceptionResponse fn code) fn qty = Inl (ExceptionError fn code) \<and>
    (\<forall>p regs. ParseReadRegistersResponse p fn qty = Inr regs \<longrightarrow> length regs = unat qty)"
  using assms Parse_response [of fn _ qty] Parse_exception Parse_response_length
  by (auto simp: modbus_consts)

theorem response_roundtrip_witness:
  "ParseReadRegistersResponse (ReadRegistersResponse 3 [0x1234, 7]) 3 2 = Inr [0x1234, 7]"
  using response_roundtrip [of 3 2] by simp

end
