(* ===== verification/Modbus_Link.thy ===== *)
theory Modbus_Link
  imports Modbus_Frame
begin

text \<open>
  The two ends of a Modbus TCP connection: the server of \<^verbatim>\<open>internal/modbus/server.go\<close>
  with its memory-backed register bank, and the client of \<^verbatim>\<open>internal/modbus/client.go\<close>.
  A connection is the bytes that arrive, the bytes written so far and a schedule of
  failing socket calls. The locale \<open>register_tables\<close> is the contract of the
  \<^verbatim>\<open>RegisterBank\<close> interface; the server's lemmas are proved from it and it is
  interpreted on the memory bank. The properties say what a client reads through a
  server, with left-over frames of earlier transactions in its receive buffer.
\<close>

section \<open>Register banks\<close>

record 'b register_bank =
  ReadHolding :: "'b \<Rightarrow> byte \<Rightarrow> uint16 \<Rightarrow> uint16 \<Rightarrow> mb_error + uint16 list"
  ReadInput :: "'b \<Rightarrow> byte \<Rightarrow> uint16 \<Rightarrow> uint16 \<Rightarrow> mb_error + uint16 list"

record memory_bank =
  holding :: "uint16 list"
  input :: "uint16 list"

definition NewMemoryBank :: "nat \<Rightarrow> nat \<Rightarrow> memory_bank" where
  "NewMemoryBank holdingSize inputSize =
     \<lparr>holding = replicate holdingSize 0, input = replicate inputSize 0\<rparr>"

definition bank_slice :: "uint16 list \<Rightarrow> uint16 \<Rightarrow> uint16 \<Rightarrow> byte \<Rightarrow> mb_error + uint16 list" where
  "bank_slice table addr qty fn =
     (if unat addr + unat qty > length table
      then Inl (ExceptionError fn ExIllegalDataAddress)
      else Inr (take (unat qty) (drop (unat addr) table)))"

definition bank_write :: "uint16 list \<Rightarrow> uint16 \<Rightarrow> uint16 list \<Rightarrow> mb_error + uint16 list" where
  "bank_write table addr regs =
     (if unat addr + length regs > length table then Inl ErrTable
      else Inr (take (unat addr) table @ regs @ drop (unat addr + length regs) table))"

definition mb_ReadHolding :: "memory_bank \<Rightarrow> byte \<Rightarrow> uint16 \<Rightarrow> uint16 \<Rightarrow> mb_error + uint16 list" where
  "mb_ReadHolding b u addr qty = bank_slice (holding b) addr qty FuncReadHoldingRegisters"

definition mb_ReadInput :: "memory_bank \<Rightarrow> byte \<Rightarrow> uint16 \<Rightarrow> uint16 \<Rightarrow> mb_error + uint16 list" where
  "mb_ReadInput b u addr qty = bank_slice (input b) addr qty FuncReadInputRegisters"

definition SetHolding :: "memory_bank \<Rightarrow> uint16 \<Rightarrow> uint16 list \<Rightarrow> mb_error + memory_bank" where
  "SetHolding b addr regs =
     (case bank_write (holding b) addr regs of
        Inl e \<Rightarrow> Inl e | Inr t \<Rightarrow> Inr (b\<lparr>holding := t\<rparr>))"

definition SetInput :: "memory_bank \<Rightarrow> uint16 \<Rightarrow> uint16 list \<Rightarrow> mb_error + memory_bank" where
  "SetInput b addr regs =
     (case bank_write (input b) addr regs of
        Inl e \<Rightarrow> Inl e | Inr t \<Rightarrow> Inr (b\<lparr>input := t\<rparr>))"

definition memory_bank_ops :: "memory_bank register_bank" where
  "memory_bank_ops = \<lparr>ReadHolding = mb_ReadHolding, ReadInput = mb_ReadInput\<rparr>"

section \<open>Server\<close>

definition dispatch :: "'b register_bank \<Rightarrow> 'b \<Rightarrow> byte \<Rightarrow> pdu \<Rightarrow> pdu" where
  "dispatch B b unit req =
     (if Function req = FuncReadHoldingRegisters \<or> Function req = FuncReadInputRegisters
      then (case ParseReadRegistersRequest req of
              Inl _ \<Rightarrow> ExceptionResponse (Function req) ExIllegalDataValue
            | Inr (addr, qty) \<Rightarrow>
                (case (if Function req = FuncReadHoldingRegisters
                       then ReadHolding B b unit addr qty
                       else ReadInput B b unit addr qty) of
                   Inl (ExceptionError _ code) \<Rightarrow> ExceptionResponse (Function req) code
                 | Inl _ \<Rightarrow> ExceptionResponse (Function req) ExServerDeviceFailure
                 | Inr regs \<Rightarrow>
                     if length regs \<noteq> unat qty
                     then ExceptionResponse (Function req) ExServerDeviceFailure
                     else ReadRegistersResponse (Function req) regs))
      else ExceptionResponse (Function req) ExIllegalFunction)"

record conn =
  c_rd :: reader
  c_out :: "byte list"
  c_faults :: faults

definition server_reply :: "'b register_bank \<Rightarrow> 'b \<Rightarrow> adu \<Rightarrow> adu" where
  "server_reply B b req =
     \<lparr>TransactionID = TransactionID req, UnitID = UnitID req,
      PDU = dispatch B b (UnitID req) (PDU req)\<rparr>"

text \<open>
  The connection loop of the server; \<open>bank_at k\<close> is the content of the bank when the
  \<open>k\<close>-th request is served (it may change in between). Each of setting the read deadline,
  setting the write deadline and writing may fail, which ends the connection.
\<close>

function server_handle :: "'b register_bank \<Rightarrow> (nat \<Rightarrow> 'b) \<Rightarrow> nat \<Rightarrow> conn \<Rightarrow> conn" where
  "server_handle B bank_at k c =
     (case next_fault (c_faults c) of
        (True, fs) \<Rightarrow> c\<lparr>c_faults := fs\<rparr>
      | (False, fs) \<Rightarrow>
          (case ReadADU (c_rd c) of
             (Inl e, r) \<Rightarrow> c\<lparr>c_rd := r, c_faults := fs\<rparr>
           | (Inr req, r) \<Rightarrow>
               (case MarshalBinary (server_reply B (bank_at k) req) of
                  Inl _ \<Rightarrow> c\<lparr>c_rd := r, c_faults := fs\<rparr>
                | Inr frame \<Rightarrow>
                    (case next_fault fs of
                       (True, fs1) \<Rightarrow> c\<lparr>c_rd := r, c_faults := fs1\<rparr>
                     | (False, fs1) \<Rightarrow>
                         (case next_fault fs1 of
                            (True, fs2) \<Rightarrow> c\<lparr>c_rd := r, c_faults := fs2\<rparr>
                          | (False, fs2) \<Rightarrow>
                              server_handle B bank_at (Suc k)
                                (c\<lparr>c_rd := r, c_out := c_out c @ frame, c_faults := fs2\<rparr>))))))"
  by pat_completeness auto
termination
  by (relation "measure (\<lambda>(_, _, _, c). length (rd_avail (c_rd c)))")
    (auto dest!: ReadADU_consumes [OF sym])

declare server_handle.simps [simp del]

section \<open>Client\<close>

record client =
  cl_conn :: conn
  cl_tid :: uint16

definition NewClient :: "conn \<Rightarrow> client" where
  "NewClient c = \<lparr>cl_conn = c, cl_tid = 0\<rparr>"

text \<open>The receive loop of \<^verbatim>\<open>transact\<close>: frames with another transaction id are discarded.\<close>

function await_response :: "uint16 \<Rightarrow> reader \<Rightarrow> (mb_error + pdu) \<times> reader" where
  "await_response tid r =
     (case ReadADU r of
        (Inl e, r') \<Rightarrow> (Inl (if e = ErrRead Timeout then ErrDeadlineExceeded else e), r')
      | (Inr resp, r') \<Rightarrow>
          if TransactionID resp = tid then (Inr (PDU resp), r') else await_response tid r')"
  by pat_completeness auto
termination
  by (relation "measure (\<lambda>(_, r). length (rd_avail r))") (auto dest!: ReadADU_consumes [OF sym])

declare await_response.simps [simp del]

text \<open>
  \<open>peer\<close> is the other side of the connection: the bytes it sends in answer to the bytes
  written; \<open>cancelled\<close> is whether the caller's context has ended. What is already in the
  receive buffer is read first.
\<close>

definition transact ::
  "(byte list \<Rightarrow> byte list) \<Rightarrow> bool \<Rightarrow> client \<Rightarrow> byte \<Rightarrow> pdu \<Rightarrow> (mb_error + pdu) \<times> client" where
  "transact peer cancelled cl unit req =
     (let tid = cl_tid cl + 1; cl1 = cl\<lparr>cl_tid := tid\<rparr>; c = cl_conn cl
      in case MarshalBinary \<lparr>TransactionID = tid, UnitID = unit, PDU = req\<rparr> of
           Inl e \<Rightarrow> (Inl e, cl1)
         | Inr frame \<Rightarrow>
             (case next_fault (c_faults c) of
                (True, fs) \<Rightarrow> (Inl ErrSetDeadline, cl1\<lparr>cl_conn := c\<lparr>c_faults := fs\<rparr>\<rparr>)
              | (False, fs) \<Rightarrow>
                  if cancelled then (Inl ErrContext, cl1\<lparr>cl_conn := c\<lparr>c_faults := fs\<rparr>\<rparr>)
                  else (case next_fault fs of
                          (True, fs1) \<Rightarrow> (Inl ErrWrite, cl1\<lparr>cl_conn := c\<lparr>c_faults := fs1\<rparr>\<rparr>)
                        | (False, fs1) \<Rightarrow>
                            (let rd = (c_rd c)\<lparr>rd_avail := rd_avail (c_rd c) @ peer frame\<rparr>;
                                 (res, rd') = await_response tid rd
                             in (res, cl1\<lparr>cl_conn :=
                                   \<lparr>c_rd = rd', c_out = c_out c @ frame, c_faults = fs1\<rparr>\<rparr>)))))"

definition readRegisters ::
  "(byte list \<Rightarrow> byte list) \<Rightarrow> bool \<Rightarrow> client \<Rightarrow> byte \<Rightarrow> byte \<Rightarrow> uint16 \<Rightarrow> uint16
     \<Rightarrow> (mb_error + uint16 list) \<times> client" where
  "readRegisters peer cancelled cl fn unit addr qty =
     (case ReadRegistersRequest fn addr qty of
        Inl e \<Rightarrow> (Inl e, cl)
      | Inr req \<Rightarrow>
          (case transact peer cancelled cl unit req of
             (Inl e, cl') \<Rightarrow> (Inl e, cl')
           | (Inr resp, cl') \<Rightarrow> (ParseReadRegistersResponse resp fn qty, cl')))"

definition ReadHoldingRegisters where
  "ReadHoldingRegisters peer cancelled cl unit addr qty =
     readRegisters peer cancelled cl FuncReadHoldingRegisters unit addr qty"

definition ReadInputRegisters where
  "ReadInputRegisters peer cancelled cl unit addr qty =
     readRegisters peer cancelled cl FuncReadInputRegisters unit addr qty"

section \<open>The contract of a register bank\<close>

text \<open>
  A bank presents two tables; a read returns the addressed registers or signals an
  illegal address.
\<close>

locale register_tables =
  fixes B :: "'b register_bank"
    and hold_tab :: "'b \<Rightarrow> uint16 list"
    and in_tab :: "'b \<Rightarrow> uint16 list"
  assumes read_holding: "unat a + unat q \<le> length (hold_tab b) \<Longrightarrow>
      ReadHolding B b u a q = Inr (take (unat q) (drop (unat a) (hold_tab b)))"
    and holding_range: "length (hold_tab b) < unat a + unat q \<Longrightarrow>
      \<exists>f. ReadHolding B b u a q = Inl (ExceptionError f ExIllegalDataAddress)"
    and read_input: "unat a + unat q \<le> length (in_tab b) \<Longrightarrow>
      ReadInput B b u a q = Inr (take (unat q) (drop (unat a) (in_tab b)))"
    and input_range: "length (in_tab b) < unat a + unat q \<Longrightarrow>
      \<exists>f. ReadInput B b u a q = Inl (ExceptionError f ExIllegalDataAddress)"
begin

definition table :: "byte \<Rightarrow> 'b \<Rightarrow> uint16 list" where
  "table fn b = (if fn = FuncReadHoldingRegisters then hold_tab b else in_tab b)"

lemma dispatch_request:
  assumes "ReadRegistersRequest fn addr qty = Inr req"
  shows "dispatch B b u req =
    (if unat addr + unat qty \<le> length (table fn b)
     then ReadRegistersResponse fn (take (unat qty) (drop (unat addr) (table fn b)))
     else ExceptionResponse fn ExIllegalDataAddress)"
proof -
  from assms have fn: "fn = FuncReadHoldingRegisters \<or> fn = FuncReadInputRegisters"
    and q: "unat qty \<in> {1..125}" "unat addr + unat qty \<le> 65536"
    and req: "req = \<lparr>Function = fn, Data = put_uint16 addr @ put_uint16 qty\<rparr>"
    by (auto simp: ReadRegistersRequest_Inr)
  note parse = Parse_put_request [OF q, of fn]
  have ne: "FuncReadHoldingRegisters \<noteq> FuncReadInputRegisters" by (simp add: modbus_consts)
  show ?thesis
  proof (cases "unat addr + unat qty \<le> length (table fn b)")
    case True
    with fn ne show ?thesis
      by (auto simp: dispatch_def req parse table_def read_holding read_input)
  next
    case False
    with fn ne holding_range [of b addr qty u] input_range [of b addr qty u] show ?thesis
      by (auto simp: dispatch_def req parse table_def)
  qed
qed

lemma dispatch_short: "length (Data (dispatch B b u p)) \<le> 252"
proof -
  have "length (take q xs) \<le> 125" if "q \<le> 125" for q and xs :: "uint16 list"
    using that by simp
  moreover have "ParseReadRegistersRequest p = Inr (a, q) \<Longrightarrow> unat q \<le> 125" for a q
    unfolding ParseReadRegistersRequest_def qty_range_iff by (auto simp: Let_def split: if_splits)
  ultimately show ?thesis
    by (auto simp: dispatch_def ExceptionResponse_def ReadRegistersResponse_def
        split: sum.splits prod.splits mb_error.splits)
qed

end

interpretation mem_bank: register_tables memory_bank_ops holding input
  by unfold_locales
    (auto simp: memory_bank_ops_def mb_ReadHolding_def mb_ReadInput_def bank_slice_def)

section \<open>Streams of frames\<close>

text \<open>The bytes of a unit that fits a frame.\<close>

definition frame_of :: "adu \<Rightarrow> byte list" where
  "frame_of a = (case MarshalBinary a of Inl _ \<Rightarrow> [] | Inr f \<Rightarrow> f)"

abbreviation fits :: "adu \<Rightarrow> bool" where
  "fits a \<equiv> length (Data (PDU a)) \<le> 252"

lemma Marshal_fits: "fits a \<Longrightarrow> MarshalBinary a = Inr (frame_of a)"
  by (simp add: frame_of_def MarshalBinary_def MaxPDU_def)

lemma ReadADU_frame:
  "fits a \<Longrightarrow> ReadADU \<lparr>rd_avail = frame_of a @ rest, rd_end = e\<rparr> =
     (Inr a, \<lparr>rd_avail = rest, rd_end = e\<rparr>)"
  using ReadADU_Marshal [OF Marshal_fits] by simp

lemma ReadADU_nothing:
  "ReadADU \<lparr>rd_avail = [], rd_end = e\<rparr> = (Inl (ErrRead e), \<lparr>rd_avail = [], rd_end = e\<rparr>)"
  by (simp add: ReadADU_def ReadFull_def mbapHeaderLen_def)

lemma server_reply_fits: "fits (server_reply memory_bank_ops b a)"
  by (simp add: server_reply_def mem_bank.dispatch_short)

fun replies :: "(nat \<Rightarrow> memory_bank) \<Rightarrow> nat \<Rightarrow> adu list \<Rightarrow> adu list" where
  "replies bank_at k [] = []"
| "replies bank_at k (a # as) =
     server_reply memory_bank_ops (bank_at k) a # replies bank_at (Suc k) as"

lemma server_handle_frames:
  assumes "\<forall>a \<in> set reqs. fits a" "c_faults c = []"
    and "c_rd c = \<lparr>rd_avail = concat (map frame_of reqs), rd_end = e\<rparr>"
  shows "server_handle memory_bank_ops bank_at k c =
    c\<lparr>c_rd := \<lparr>rd_avail = [], rd_end = e\<rparr>, c_out := c_out c @ concat (map frame_of (replies bank_at k reqs))\<rparr>"
  using assms
proof (induction reqs arbitrary: c k)
  case Nil
  then show ?case
    by (subst server_handle.simps) (simp add: ReadADU_nothing)
next
  case (Cons a reqs)
  let ?c = "c\<lparr>c_rd := \<lparr>rd_avail = concat (map frame_of reqs), rd_end = e\<rparr>,
      c_out := c_out c @ frame_of (server_reply memory_bank_ops (bank_at k) a), c_faults := []\<rparr>"
  have "server_handle memory_bank_ops bank_at k c = server_handle memory_bank_ops bank_at (Suc k) ?c"
    using Cons.prems
    by (subst server_handle.simps) (simp add: ReadADU_frame Marshal_fits [OF server_reply_fits])
  also have "\<dots> = ?c\<lparr>c_rd := \<lparr>rd_avail = [], rd_end = e\<rparr>,
      c_out := c_out ?c @ concat (map frame_of (replies bank_at (Suc k) reqs))\<rparr>"
    using Cons.prems by (intro Cons.IH) auto
  finally show ?case using Cons.prems(2) by simp
qed

lemma await_response_frames:
  assumes "\<forall>a \<in> set stale. fits a \<and> TransactionID a \<noteq> tid" "fits resp" "TransactionID resp = tid"
  shows "await_response tid \<lparr>rd_avail = concat (map frame_of stale) @ frame_of resp @ rest, rd_end = e\<rparr> =
    (Inr (PDU resp), \<lparr>rd_avail = rest, rd_end = e\<rparr>)"
  using assms
proof (induction stale)
  case Nil
  then show ?case by (subst await_response.simps) (simp add: ReadADU_frame)
next
  case (Cons a stale)
  then show ?case by (subst await_response.simps) (simp add: ReadADU_frame)
qed

lemma await_response_none:
  assumes "\<forall>a \<in> set stale. fits a \<and> TransactionID a \<noteq> tid"
  shows "await_response tid \<lparr>rd_avail = concat (map frame_of stale), rd_end = e\<rparr> =
    (Inl (if e = Timeout then ErrDeadlineExceeded else ErrRead e), \<lparr>rd_avail = [], rd_end = e\<rparr>)"
  using assms
proof (induction stale)
  case Nil
  then show ?case by (subst await_response.simps) (simp add: ReadADU_nothing)
next
  case (Cons a stale)
  then show ?case by (subst await_response.simps) (simp add: ReadADU_frame)
qed

text \<open>A memory-bank server at the other end of the connection.\<close>

definition server_peer :: "memory_bank \<Rightarrow> byte list \<Rightarrow> byte list" where
  "server_peer b frame =
     c_out (server_handle memory_bank_ops (\<lambda>_. b) 0
       \<lparr>c_rd = \<lparr>rd_avail = frame, rd_end = Timeout\<rparr>, c_out = [], c_faults = []\<rparr>)"

lemma server_peer_frame:
  "fits a \<Longrightarrow> server_peer b (frame_of a) = frame_of (server_reply memory_bank_ops b a)"
  unfolding server_peer_def
  by (subst server_handle_frames [where reqs = "[a]" and e = Timeout]) auto

lemma ReadRegistersRequest_fits:
  "ReadRegistersRequest fn addr qty = Inr req \<Longrightarrow> fits \<lparr>TransactionID = t, UnitID = u, PDU = req\<rparr>"
  by (auto simp: ReadRegistersRequest_Inr)

lemma parse_dispatch:
  assumes "ReadRegistersRequest fn addr qty = Inr req"
  shows "ParseReadRegistersResponse (dispatch memory_bank_ops b u req) fn qty =
    bank_slice (mem_bank.table fn b) addr qty fn"
proof -
  from assms have fn: "fn = FuncReadHoldingRegisters \<or> fn = FuncReadInputRegisters"
    and q: "unat qty \<le> 125"
    by (auto simp: ReadRegistersRequest_Inr)
  show ?thesis
    using fn q Parse_exception [of fn ExIllegalDataAddress qty]
    by (auto simp: mem_bank.dispatch_request [OF assms] bank_slice_def intro!: Parse_response)
qed

lemma transact_server:
  assumes "fits \<lparr>TransactionID = cl_tid cl + 1, UnitID = u, PDU = req\<rparr>"
    and "c_faults (cl_conn cl) = []"
    and "rd_avail (c_rd (cl_conn cl)) = concat (map frame_of stale)"
    and "\<forall>a \<in> set stale. fits a \<and> TransactionID a \<noteq> cl_tid cl + 1"
  shows "\<exists>cl'. transact (server_peer b) False cl u req = (Inr (dispatch memory_bank_ops b u req), cl') \<and>
    rd_avail (c_rd (cl_conn cl')) = [] \<and> cl_tid cl' = cl_tid cl + 1 \<and> c_faults (cl_conn cl') = []"
proof -
  let ?a = "\<lparr>TransactionID = cl_tid cl + 1, UnitID = u, PDU = req\<rparr>"
  let ?r = "server_reply memory_bank_ops b ?a"
  have aw: "await_response (cl_tid cl + 1)
      ((c_rd (cl_conn cl))\<lparr>rd_avail := concat (map frame_of stale) @ frame_of ?r\<rparr>) =
      (Inr (PDU ?r), \<lparr>rd_avail = [], rd_end = rd_end (c_rd (cl_conn cl))\<rparr>)"
    using await_response_frames [OF assms(4), of ?r "[]" "rd_end (c_rd (cl_conn cl))"]
      server_reply_fits [of b ?a]
    by (cases "c_rd (cl_conn cl)") (simp add: server_reply_def)
  have "PDU ?r = dispatch memory_bank_ops b u req" by (simp add: server_reply_def)
  then show ?thesis
    using assms(2,3) aw Marshal_fits [OF assms(1)] server_peer_frame [OF assms(1), of b]
    by (simp add: transact_def Let_def)
qed

section \<open>Properties\<close>

text \<open>
  The server loop. Fed with any sequence of well-formed frames, the server answers
  every request, in order, one frame each with the request's transaction and unit id, and
  the answer is the dispatch of the request on the bank's content at that moment.
\<close>

theorem server_answers_in_order:
  assumes "\<forall>a \<in> set reqs. length (Data (PDU a)) \<le> 252"
  shows "c_out (server_handle memory_bank_ops bank_at 0
      \<lparr>c_rd = \<lparr>rd_avail = concat (map frame_of reqs), rd_end = e\<rparr>, c_out = [], c_faults = []\<rparr>) =
    concat (map (\<lambda>k. frame_of \<lparr>TransactionID = TransactionID (reqs ! k), UnitID = UnitID (reqs ! k),
      PDU = dispatch memory_bank_ops (bank_at k) (UnitID (reqs ! k)) (PDU (reqs ! k))\<rparr>)
      [0..<length reqs])"
proof -
  have "replies bank_at k reqs =
      map (\<lambda>i. server_reply memory_bank_ops (bank_at (k + i)) (reqs ! i)) [0..<length reqs]" for k
  proof (induction reqs arbitrary: k)
    case Nil
    then show ?case by simp
  next
    case (Cons a reqs)
    then show ?case
      by (simp add: upt_conv_Cons comp_def del: upt_Suc flip: map_Suc_upt)
  qed
  from this [of 0] show ?thesis
    using assms by (subst server_handle_frames [where reqs = reqs and e = e])
      (auto simp: comp_def server_reply_def)
qed

theorem server_answers_in_order_witness:
  "c_out (server_handle memory_bank_ops (\<lambda>_. NewMemoryBank 4 0) 0
      \<lparr>c_rd = \<lparr>rd_avail = concat (map frame_of
           [\<lparr>TransactionID = 9, UnitID = 1, PDU = \<lparr>Function = 0x2B, Data = []\<rparr>\<rparr>]), rd_end = EOF\<rparr>,
        c_out = [], c_faults = []\<rparr>) =
    [0, 9, 0, 0, 0, 3, 1, 0xAB, 1]"
  by (subst server_answers_in_order)
    (simp_all add: dispatch_def modbus_consts ExceptionResponse_def frame_of_def MarshalBinary_def
      put_uint16_def)

text \<open>
  C10: reading through the link. With any number of left-over frames of earlier
  transactions in its receive buffer, a client connected to a memory-bank server gets, for
  every request it can build, exactly the addressed registers of the addressed table, or
  the illegal-address exception when the range ends behind the table; the left-over frames
  are gone afterwards.
\<close>

theorem read_through_server:
  assumes "ReadRegistersRequest fn addr qty = Inr req"
    and "c_faults (cl_conn cl) = []"
    and "rd_avail (c_rd (cl_conn cl)) = concat (map frame_of stale)"
    and "\<forall>a \<in> set stale. length (Data (PDU a)) \<le> 252 \<and> TransactionID a \<noteq> cl_tid cl + 1"
  shows "\<exists>cl'. readRegisters (server_peer b) False cl fn unit addr qty =
      (let tab = (if fn = FuncReadHoldingRegisters then holding b else input b)
       in if unat addr + unat qty \<le> length tab
          then Inr (take (unat qty) (drop (unat addr) tab))
          else Inl (ExceptionError fn ExIllegalDataAddress), cl') \<and>
    rd_avail (c_rd (cl_conn cl')) = [] \<and> cl_tid cl' = cl_tid cl + 1"
proof -
  obtain cl' where "transact (server_peer b) False cl unit req =
      (Inr (dispatch memory_bank_ops b unit req), cl')"
    "rd_avail (c_rd (cl_conn cl')) = []" "cl_tid cl' = cl_tid cl + 1"
    using transact_server [OF ReadRegistersRequest_fits [OF assms(1)] assms(2,3),
        where b = b and u = unit] assms(4)
    by auto
  then show ?thesis
    using assms(1) parse_dispatch [OF assms(1), of b unit]
    by (auto simp: readRegisters_def bank_slice_def mem_bank.table_def Let_def)
qed

text \<open>A client with the late answer of transaction 6 in its buffer, used by the witness.\<close>

definition sample_client :: client where
  "sample_client = \<lparr>cl_conn = \<lparr>c_rd = \<lparr>rd_avail = frame_of
      \<lparr>TransactionID = 6, UnitID = 1, PDU = ReadRegistersResponse 3 [99]\<rparr>, rd_end = Timeout\<rparr>,
      c_out = [], c_faults = []\<rparr>, cl_tid = 6\<rparr>"

theorem read_through_server_witness:
  "\<exists>cl'. readRegisters (server_peer \<lparr>holding = [10, 20, 30, 40], input = []\<rparr>) False sample_client
      3 1 1 2 = (Inr [20, 30], cl')"
proof -
  have "ReadRegistersRequest 3 1 2 = Inr \<lparr>Function = 3, Data = [0, 1, 0, 2]\<rparr>"
    by (simp add: ReadRegistersRequest_def modbus_consts address_overflow_def put_uint16_def)
  from read_through_server [OF this, of sample_client
      "[\<lparr>TransactionID = 6, UnitID = 1, PDU = ReadRegistersResponse 3 [99]\<rparr>]"
      "\<lparr>holding = [10, 20, 30, 40], input = []\<rparr>" 1]
  show ?thesis
    by (auto simp: sample_client_def ReadRegistersResponse_def modbus_consts)
qed



end
