(* ===== verification/Ports.thy ===== *)
theory Ports
  imports Plant_Prelude
begin

text \<open>
  The interfaces of \<^verbatim>\<open>internal/ports/ports.go\<close>. A Go interface value is a record of
  functions over the state behind it; the contracts that the comments of the interfaces
  state are the locales \<open>queue_contract\<close> and \<open>sink_contract\<close>, from which the bridge is
  verified and which the adapters' theories interpret.
\<close>

record message =
  m_topic :: string
  m_payload :: "byte list"
  m_retain :: bool
  m_at :: gotime

datatype port_error = ErrClosed | ErrSinkDown | ErrCorrupt | ErrIO string | ErrCancelled

record 'q queue_ops =
  q_push :: "message \<Rightarrow> 'q \<Rightarrow> port_error option \<times> 'q"
  q_peek :: "'q \<Rightarrow> (port_error + message option) \<times> 'q"
  q_ack :: "'q \<Rightarrow> port_error option \<times> 'q"
  q_len :: "'q \<Rightarrow> int"
  q_bytes :: "'q \<Rightarrow> int"
  q_dropped :: "'q \<Rightarrow> int"

text \<open>The first argument of \<open>s_send\<close> is whether the caller's context has ended.\<close>

record 's sink_ops =
  s_send :: "bool \<Rightarrow> message \<Rightarrow> 's \<Rightarrow> port_error option \<times> 's"
  s_ready :: "'s \<Rightarrow> bool"

text \<open>
  A durable bounded FIFO: a push appends behind what is queued and may evict some of the
  oldest messages, which it counts; \<open>peek\<close> shows the oldest message and changes nothing
  observable; \<open>ack\<close> removes it. \<open>storable\<close> describes the messages the queue can hold.
\<close>

locale queue_contract =
  fixes Q :: "'q queue_ops"
    and invar :: "'q \<Rightarrow> bool"
    and contents :: "'q \<Rightarrow> message list"
    and storable :: "message \<Rightarrow> bool"
  assumes push_law: "invar q \<Longrightarrow> storable m \<Longrightarrow>
      \<exists>k q'. q_push Q m q = (None, q') \<and> invar q' \<and> k \<le> length (contents q) \<and>
        contents q' = drop k (contents q @ [m]) \<and> q_dropped Q q' = q_dropped Q q + int k"
    and peek_law: "invar q \<Longrightarrow>
      \<exists>q'. q_peek Q q = (Inr (case contents q of [] \<Rightarrow> None | m # _ \<Rightarrow> Some m), q') \<and> invar q' \<and>
        contents q' = contents q \<and> q_dropped Q q' = q_dropped Q q"
    and ack_law: "invar q \<Longrightarrow>
      \<exists>q'. q_ack Q q = (None, q') \<and> invar q' \<and> contents q' = tl (contents q) \<and>
        q_dropped Q q' = q_dropped Q q"
    and len_law: "invar q \<Longrightarrow> q_len Q q = int (length (contents q))"
    and contents_storable: "invar q \<Longrightarrow> m \<in> set (contents q) \<Longrightarrow> storable m"
begin

lemma push_newest_survives:
  "invar q \<Longrightarrow> storable m \<Longrightarrow> contents (snd (q_push Q m q)) \<noteq> [] \<and>
     last (contents (snd (q_push Q m q))) = m"
  using push_law [of q m] by auto

lemma len_zero: "invar q \<Longrightarrow> q_len Q q = 0 \<longleftrightarrow> contents q = []"
  by (simp add: len_law)

end

text \<open>A sink: a successful send appends the message to what was accepted, a failed one does not.\<close>

locale sink_contract =
  fixes S :: "'s sink_ops"
    and sink_inv :: "'s \<Rightarrow> bool"
    and accepted :: "'s \<Rightarrow> message list"
  assumes send_ok: "sink_inv s \<Longrightarrow> s_send S c m s = (None, s') \<Longrightarrow>
      sink_inv s' \<and> accepted s' = accepted s @ [m]"
    and send_fail: "sink_inv s \<Longrightarrow> s_send S c m s = (Some e, s') \<Longrightarrow>
      sink_inv s' \<and> accepted s' = accepted s"

end
