(* ===== verification/Mem_Adapters.thy ===== *)
theory Mem_Adapters
  imports Ports
begin

text \<open>
  The in-memory sink and queue of \<^verbatim>\<open>internal/adapters/memory/sink.go\<close>, with the proofs
  that they meet the contracts of the ports.
\<close>

section \<open>Sink\<close>

record mem_sink =
  ms_messages :: "message list"
  ms_fail :: bool
  ms_closed :: bool
  ms_max :: int

definition NewSink :: "int \<Rightarrow> mem_sink" where
  "NewSink mx = \<lparr>ms_messages = [], ms_fail = False, ms_closed = False, ms_max = mx\<rparr>"

definition sink_Send :: "bool \<Rightarrow> message \<Rightarrow> mem_sink \<Rightarrow> port_error option \<times> mem_sink" where
  "sink_Send cancelled msg s =
     (if cancelled then (Some ErrCancelled, s)
      else if ms_closed s then (Some ErrClosed, s)
      else if ms_fail s then (Some ErrSinkDown, s)
      else let ms = ms_messages s @ [msg]
           in (None, s\<lparr>ms_messages :=
                 (if ms_max s > 0 \<and> int (length ms) > ms_max s
                  then drop (length ms - nat (ms_max s)) ms else ms)\<rparr>))"

definition SetFail :: "bool \<Rightarrow> mem_sink \<Rightarrow> mem_sink" where
  "SetFail f s = s\<lparr>ms_fail := f\<rparr>"

definition sink_Ready :: "mem_sink \<Rightarrow> bool" where
  "sink_Ready s = (\<not> ms_fail s \<and> \<not> ms_closed s)"

definition sink_Len :: "mem_sink \<Rightarrow> nat" where
  "sink_Len s = length (ms_messages s)"

definition sink_Close :: "mem_sink \<Rightarrow> mem_sink" where
  "sink_Close s = s\<lparr>ms_closed := True\<rparr>"

definition mem_sink_ops :: "mem_sink sink_ops" where
  "mem_sink_ops = \<lparr>s_send = sink_Send, s_ready = sink_Ready\<rparr>"

interpretation mem_sink: sink_contract mem_sink_ops "\<lambda>s. ms_max s = 0" ms_messages
  by unfold_locales (auto simp: mem_sink_ops_def sink_Send_def split: if_splits)

section \<open>Queue\<close>

record mem_queue =
  mq_items :: "message list"
  mq_bytes :: int
  mq_maxBytes :: int
  mq_dropped :: int

definition NewQueue :: "int \<Rightarrow> mem_queue" where
  "NewQueue mx = \<lparr>mq_items = [], mq_bytes = 0, mq_maxBytes = mx, mq_dropped = 0\<rparr>"

definition msg_size :: "message \<Rightarrow> int" where
  "msg_size m = int (length (m_payload m) + length (m_topic m))"

text \<open>The eviction loop of \<^verbatim>\<open>Push\<close>.\<close>

fun mq_evict :: "int \<Rightarrow> message list \<Rightarrow> int \<Rightarrow> int \<Rightarrow> message list \<times> int \<times> int" where
  "mq_evict mx [] by dr = ([], by, dr)"
| "mq_evict mx (old # rest) by dr =
     (if mx > 0 \<and> by > mx \<and> rest \<noteq> [] then mq_evict mx rest (by - msg_size old) (dr + 1)
      else (old # rest, by, dr))"

definition mq_Push :: "message \<Rightarrow> mem_queue \<Rightarrow> port_error option \<times> mem_queue" where
  "mq_Push msg q =
     (let (items, by, dr) =
        mq_evict (mq_maxBytes q) (mq_items q @ [msg]) (mq_bytes q + msg_size msg) (mq_dropped q)
      in (None, q\<lparr>mq_items := items, mq_bytes := by, mq_dropped := dr\<rparr>))"

definition mq_Peek :: "mem_queue \<Rightarrow> (port_error + message option) \<times> mem_queue" where
  "mq_Peek q = (Inr (case mq_items q of [] \<Rightarrow> None | m # _ \<Rightarrow> Some m), q)"

definition mq_Ack :: "mem_queue \<Rightarrow> port_error option \<times> mem_queue" where
  "mq_Ack q =
     (case mq_items q of
        [] \<Rightarrow> (None, q)
      | old # rest \<Rightarrow> (None, q\<lparr>mq_items := rest, mq_bytes := mq_bytes q - msg_size old\<rparr>))"

definition mq_Len :: "mem_queue \<Rightarrow> int" where
  "mq_Len q = int (length (mq_items q))"

definition mem_queue_ops :: "mem_queue queue_ops" where
  "mem_queue_ops = \<lparr>q_push = mq_Push, q_peek = mq_Peek, q_ack = mq_Ack, q_len = mq_Len,
     q_bytes = mq_bytes, q_dropped = mq_dropped\<rparr>"

text \<open>The byte counter is the size of what is queued, and the bound holds unless one message
  alone exceeds it.\<close>

definition mq_inv :: "mem_queue \<Rightarrow> bool" where
  "mq_inv q \<longleftrightarrow> mq_bytes q = sum_list (map msg_size (mq_items q)) \<and>
     (mq_maxBytes q > 0 \<longrightarrow> mq_bytes q \<le> mq_maxBytes q \<or> length (mq_items q) \<le> 1)"

lemma mq_evict_spec:
  assumes "mq_evict mx xs (sum_list (map msg_size xs)) dr = (items, by, dr')" "xs \<noteq> []"
  shows "\<exists>k < length xs. items = drop k xs \<and> dr' = dr + int k \<and>
    by = sum_list (map msg_size items) \<and> (mx > 0 \<longrightarrow> by \<le> mx \<or> length items \<le> 1)"
  using assms
proof (induction xs arbitrary: dr)
  case Nil
  then show ?case by simp
next
  case (Cons x xs)
  show ?case
  proof (cases "mx > 0 \<and> sum_list (map msg_size (x # xs)) > mx \<and> xs \<noteq> []")
    case True
    with Cons.prems have "mq_evict mx xs (sum_list (map msg_size xs)) (dr + 1) = (items, by, dr')"
      by simp
    from Cons.IH [OF this] True obtain k where "k < length xs" "items = drop k xs"
      "dr' = dr + 1 + int k" "by = sum_list (map msg_size items)"
      "mx > 0 \<longrightarrow> by \<le> mx \<or> length items \<le> 1" by auto
    then show ?thesis by (intro exI [of _ "Suc k"]) auto
  next
    case False
    with Cons.prems show ?thesis by (intro exI [of _ 0]) (auto simp: Suc_le_eq)
  qed
qed

interpretation mem_queue: queue_contract mem_queue_ops mq_inv mq_items "\<lambda>_. True"
proof unfold_locales
  fix q m assume "mq_inv q"
  then have b: "mq_bytes q + msg_size m = sum_list (map msg_size (mq_items q @ [m]))"
    by (simp add: mq_inv_def)
  obtain items by1 dr where e: "mq_evict (mq_maxBytes q) (mq_items q @ [m])
      (mq_bytes q + msg_size m) (mq_dropped q) = (items, by1, dr)"
    by (cases "mq_evict (mq_maxBytes q) (mq_items q @ [m]) (mq_bytes q + msg_size m) (mq_dropped q)")
  from mq_evict_spec [OF e [unfolded b]] obtain k where "k < length (mq_items q @ [m])"
    "items = drop k (mq_items q @ [m])" "dr = mq_dropped q + int k"
    "by1 = sum_list (map msg_size items)" "mq_maxBytes q > 0 \<longrightarrow> by1 \<le> mq_maxBytes q \<or> length items \<le> 1"
    by auto
  with e show "\<exists>k q'. q_push mem_queue_ops m q = (None, q') \<and> mq_inv q' \<and> k \<le> length (mq_items q) \<and>
      mq_items q' = drop k (mq_items q @ [m]) \<and>
      q_dropped mem_queue_ops q' = q_dropped mem_queue_ops q + int k"
    by (intro exI [of _ k]) (auto simp: mem_queue_ops_def mq_Push_def mq_inv_def)
next
  fix q assume "mq_inv q"
  then show "\<exists>q'. q_ack mem_queue_ops q = (None, q') \<and> mq_inv q' \<and> mq_items q' = tl (mq_items q) \<and>
      q_dropped mem_queue_ops q' = q_dropped mem_queue_ops q"
    by (cases "mq_items q")
      (auto simp: mem_queue_ops_def mq_Ack_def mq_inv_def msg_size_def length_Suc_conv)
qed (auto simp: mem_queue_ops_def mq_Peek_def mq_Len_def mq_inv_def)

end
