(* ===== verification/Inbox.thy ===== *)
theory Inbox
  imports Ports "HOL-Library.Sublist"
begin

text \<open>
  The in-memory stage of the bridge, \<^verbatim>\<open>internal/bridge/inbox.go\<close>: one bounded FIFO per
  topic, a ring of the topics with pending messages and a global budget. The invariant
  \<open>inbox_inv\<close> ties the ring, the FIFOs and the total together. \<open>pop\<close> is shown to be a
  rotation of the ring, so that every pending topic is served in turn; \<open>push\<close> keeps
  per-topic order and loses only the oldest message. One branch of \<open>push\<close> breaks the
  invariant (the eviction victim is the pushed topic itself); the last section proves what
  happens then.
\<close>

record inbox =
  topics :: "string \<rightharpoonup> message list"
  ring :: "string list"
  rr :: nat
  total :: int
  perTopic :: int
  maxTotal :: int
  dropped :: int
  notify :: bool

definition newInbox :: "int \<Rightarrow> int \<Rightarrow> inbox" where
  "newInbox pt mt = \<lparr>topics = Map.empty, ring = [], rr = 0, total = 0, perTopic = pt,
     maxTotal = mt, dropped = 0, notify = False\<rparr>"

text \<open>\<^verbatim>\<open>in.topics[t]\<close>: a missing key is the empty slice.\<close>

definition fifo :: "inbox \<Rightarrow> string \<Rightarrow> message list" where
  "fifo i t = (case topics i t of None \<Rightarrow> [] | Some q \<Rightarrow> q)"

section \<open>Operations\<close>

text \<open>The search loop of \<^verbatim>\<open>evictLongest\<close>: the first longest FIFO in ring order.\<close>

fun longest_of :: "(string \<Rightarrow> nat) \<Rightarrow> string list \<Rightarrow> string \<times> nat \<Rightarrow> string \<times> nat" where
  "longest_of len [] acc = acc"
| "longest_of len (t # ts) (victim, longest) =
     longest_of len ts (if len t > longest then (t, len t) else (victim, longest))"

fun remove_at :: "nat \<Rightarrow> 'a list \<Rightarrow> 'a list" where
  "remove_at i xs = take i xs @ drop (Suc i) xs"

fun index_of :: "'a \<Rightarrow> 'a list \<Rightarrow> nat option" where
  "index_of x [] = None"
| "index_of x (y # ys) = (if y = x then Some 0 else map_option Suc (index_of x ys))"

definition removeFromRing :: "string \<Rightarrow> inbox \<Rightarrow> inbox" where
  "removeFromRing t i =
     (let i1 = (case index_of t (ring i) of
                  None \<Rightarrow> i
                | Some k \<Rightarrow> i\<lparr>ring := remove_at k (ring i),
                              rr := (if k < rr i \<and> rr i > 0 then rr i - 1 else rr i)\<rparr>)
      in if ring i1 = [] then i1\<lparr>rr := 0\<rparr> else i1\<lparr>rr := rr i1 mod length (ring i1)\<rparr>)"

definition victim :: "inbox \<Rightarrow> string \<times> nat" where
  "victim i = longest_of (\<lambda>t. length (fifo i t)) (ring i) ([], 0)"

definition evictLongest :: "inbox \<Rightarrow> bool \<times> inbox" where
  "evictLongest i =
     (let (v, longest) = victim i
      in if longest = 0 then (False, i)
         else let q = tl (fifo i v); i1 = i\<lparr>topics := (topics i)(v \<mapsto> q), total := total i - 1\<rparr>
              in (True, if q = [] then removeFromRing v i1 else i1))"

definition inbox_push :: "message \<Rightarrow> inbox \<Rightarrow> nat \<times> inbox" where
  "inbox_push m i =
     (let q = fifo i (m_topic m);
          i1 = (if q = [] then i\<lparr>ring := ring i @ [m_topic m]\<rparr> else i);
          (q2, d, i2) =
            (if int (length q) \<ge> perTopic i1 then (tl q, 1, i1\<lparr>total := total i1 - 1\<rparr>)
             else if total i1 \<ge> maxTotal i1
             then (case evictLongest i1 of (ev, i') \<Rightarrow> (q, if ev then 1 else 0, i'))
             else (q, 0, i1))
      in (d, i2\<lparr>topics := (topics i2)(m_topic m \<mapsto> q2 @ [m]), total := total i2 + 1,
                dropped := dropped i2 + int d, notify := True\<rparr>))"

definition inbox_pop :: "inbox \<Rightarrow> message option \<times> inbox" where
  "inbox_pop i =
     (if total i = 0 \<or> ring i = [] then (None, i)
      else let r = rr i mod length (ring i); t = ring i ! r; q = fifo i t; q' = tl q;
               i1 = i\<lparr>rr := r, total := total i - 1\<rparr>
           in (Some (hd q),
               if q' = []
               then (let rg = remove_at r (ring i)
                     in i1\<lparr>topics := (topics i)(t := None), ring := rg,
                          rr := (if rg = [] then 0 else r mod length rg)\<rparr>)
               else i1\<lparr>topics := (topics i)(t \<mapsto> q'), rr := (r + 1) mod length (ring i)\<rparr>))"

section \<open>The invariant\<close>

definition inbox_inv :: "inbox \<Rightarrow> bool" where
  "inbox_inv i \<longleftrightarrow>
     distinct (ring i) \<and> set (ring i) = {t. fifo i t \<noteq> []} \<and>
     total i = int (sum_list (map (\<lambda>t. length (fifo i t)) (ring i))) \<and>
     (ring i = [] \<longrightarrow> rr i = 0) \<and> (ring i \<noteq> [] \<longrightarrow> rr i < length (ring i)) \<and>
     (\<forall>t. int (length (fifo i t)) \<le> perTopic i) \<and>
     (\<forall>t. \<forall>m \<in> set (fifo i t). m_topic m = t) \<and>
     0 < perTopic i \<and> perTopic i \<le> maxTotal i \<and> total i \<le> maxTotal i"

text \<open>
  The branch of \<open>push\<close> that the invariant survives: the FIFO of the topic is full, or there
  is room in the global budget, or the message to evict belongs to another topic.
\<close>

definition push_safe :: "message \<Rightarrow> inbox \<Rightarrow> bool" where
  "push_safe m i \<longleftrightarrow>
     int (length (fifo i (m_topic m))) \<ge> perTopic i \<or> total i < maxTotal i \<or>
     fst (victim (if fifo i (m_topic m) = [] then i\<lparr>ring := ring i @ [m_topic m]\<rparr> else i)) \<noteq> m_topic m"

lemma fifo_simps [simp]:
  "fifo (i\<lparr>ring := r\<rparr>) t = fifo i t" "fifo (i\<lparr>rr := n\<rparr>) t = fifo i t"
  "fifo (i\<lparr>total := x\<rparr>) t = fifo i t" "fifo (i\<lparr>dropped := x\<rparr>) t = fifo i t"
  "fifo (i\<lparr>notify := b\<rparr>) t = fifo i t"
  "fifo (i\<lparr>topics := (topics i)(s \<mapsto> q)\<rparr>) t = (if t = s then q else fifo i t)"
  "fifo (i\<lparr>topics := (topics i)(s := None)\<rparr>) t = (if t = s then [] else fifo i t)"
  by (auto simp: fifo_def)

lemma newInbox_inv: "0 < pt \<Longrightarrow> pt \<le> mt \<Longrightarrow> inbox_inv (newInbox pt mt)"
  by (auto simp: inbox_inv_def newInbox_def fifo_def)

section \<open>Lemmas on the ring\<close>

lemma index_of_None: "index_of x xs = None \<longleftrightarrow> x \<notin> set xs"
  by (induction xs) auto

lemma index_of_Some: "index_of x xs = Some k \<Longrightarrow> k < length xs \<and> xs ! k = x"
  by (induction xs arbitrary: k) (auto split: if_splits)

lemma remove_at_nth:
  assumes "distinct xs" "k < length xs"
  shows "distinct (remove_at k xs)" "set (remove_at k xs) = set xs - {xs ! k}"
    and "length (remove_at k xs) = length xs - 1"
proof -
  from assms(2) have xs: "xs = take k xs @ xs ! k # drop (Suc k) xs"
    by (rule id_take_nth_drop)
  then have d: "distinct (take k xs @ xs ! k # drop (Suc k) xs)"
    using assms(1) by simp
  then show "distinct (remove_at k xs)" by simp
  show "set (remove_at k xs) = set xs - {xs ! k}"
    by (subst (2) xs) (use d in auto)
  show "length (remove_at k xs) = length xs - 1"
    using assms(2) by simp
qed

lemma sum_list_remove_at:
  fixes f :: "'a \<Rightarrow> nat"
  assumes "k < length xs"
  shows "sum_list (map f xs) = f (xs ! k) + sum_list (map f (remove_at k xs))"
proof -
  have "sum_list (map f xs) = sum_list (map f (take k xs @ xs ! k # drop (Suc k) xs))"
    using id_take_nth_drop [OF assms] by simp
  then show ?thesis by simp
qed

lemma longest_of_mono: "snd acc \<le> snd (longest_of len ts acc)"
  by (induction len ts acc rule: longest_of.induct) auto

lemma longest_of_cases:
  "longest_of len ts acc = acc \<or>
   (fst (longest_of len ts acc) \<in> set ts \<and>
    snd (longest_of len ts acc) = len (fst (longest_of len ts acc)))"
  by (induction len ts acc rule: longest_of.induct) auto

lemma longest_of_max: "t \<in> set ts \<Longrightarrow> len t \<le> snd (longest_of len ts acc)"
proof (induction len ts acc arbitrary: t rule: longest_of.induct)
  case (2 len t' ts v l)
  then show ?case
    using longest_of_mono [of "if len t' > l then (t', len t') else (v, l)" len ts] by auto
qed simp

lemma victim_spec:
  assumes "victim i = (v, n)" "n \<noteq> 0"
  shows "v \<in> set (ring i)" "n = length (fifo i v)" "\<forall>t \<in> set (ring i). length (fifo i t) \<le> n"
  using assms longest_of_cases [of "\<lambda>t. length (fifo i t)" "ring i" "([], 0)"]
    longest_of_max [of _ "ring i" "\<lambda>t. length (fifo i t)" "([], 0)"]
  by (auto simp: victim_def)

section \<open>Preservation\<close>

text \<open>
  The invariant while a push is under way: the topics of \<open>S\<close> are in the ring although
  their FIFO may still be empty.
\<close>

definition ring_ok :: "string set \<Rightarrow> inbox \<Rightarrow> bool" where
  "ring_ok S i \<longleftrightarrow>
     distinct (ring i) \<and> set (ring i) = {t. fifo i t \<noteq> []} \<union> S \<and>
     total i = int (sum_list (map (\<lambda>t. length (fifo i t)) (ring i))) \<and>
     (ring i = [] \<longrightarrow> rr i = 0) \<and> (ring i \<noteq> [] \<longrightarrow> rr i < length (ring i)) \<and>
     (\<forall>t. int (length (fifo i t)) \<le> perTopic i) \<and>
     (\<forall>t. \<forall>m \<in> set (fifo i t). m_topic m = t)"

lemma inbox_inv_ring_ok:
  "inbox_inv i \<longleftrightarrow> ring_ok {} i \<and> 0 < perTopic i \<and> perTopic i \<le> maxTotal i \<and> total i \<le> maxTotal i"
  by (auto simp: inbox_inv_def ring_ok_def)

lemma total_upd:
  assumes "distinct rg" "t \<in> set rg"
  shows "int (sum_list (map (\<lambda>u. length (if u = t then q else f u)) rg)) =
     int (sum_list (map (\<lambda>u. length (f u)) rg)) - int (length (f t)) + int (length q)"
proof -
  have "(\<lambda>u. length (if u = t then q else f u)) = (\<lambda>u. length (f u))(t := length q)"
    by auto
  then show ?thesis
    using sum_list_fun_upd_distinct [OF assms, of "\<lambda>u. length (f u)" "length q"] by simp
qed

lemma removeFromRing_spec:
  assumes "distinct (ring i)" "t \<in> set (ring i)" "rr i < length (ring i)"
  shows "\<exists>k. k < length (ring i) \<and> ring i ! k = t \<and> ring (removeFromRing t i) = remove_at k (ring i) \<and>
    topics (removeFromRing t i) = topics i \<and> total (removeFromRing t i) = total i \<and>
    perTopic (removeFromRing t i) = perTopic i \<and> maxTotal (removeFromRing t i) = maxTotal i \<and>
    dropped (removeFromRing t i) = dropped i \<and>
    (remove_at k (ring i) = [] \<longrightarrow> rr (removeFromRing t i) = 0) \<and>
    (remove_at k (ring i) \<noteq> [] \<longrightarrow> rr (removeFromRing t i) < length (remove_at k (ring i)))"
proof -
  from assms(2) obtain k where k: "index_of t (ring i) = Some k"
    using index_of_None [of t "ring i"] by auto
  from index_of_Some [OF k] show ?thesis
    by (intro exI [of _ k]) (auto simp: removeFromRing_def k Let_def simp del: remove_at.simps)
qed

lemma ring_ok_drop_oldest:
  assumes "ring_ok S i" "v \<notin> S" "fifo i v \<noteq> []"
  defines "i1 \<equiv> i\<lparr>topics := (topics i)(v \<mapsto> tl (fifo i v)), total := total i - 1\<rparr>"
  shows "ring_ok S (if tl (fifo i v) = [] then removeFromRing v i1 else i1)"
proof -
  have ring: "distinct (ring i)" "v \<in> set (ring i)" "rr i < length (ring i)"
    using assms(1,3) by (auto simp: ring_ok_def)
  have "total i = int (sum_list (map (\<lambda>t. length (fifo i t)) (ring i)))"
    using assms(1) by (simp add: ring_ok_def)
  then have tot: "total i - 1 =
      int (sum_list (map (\<lambda>u. length (if u = v then tl (fifo i v) else fifo i u)) (ring i)))"
    using total_upd [OF ring(1,2), of "tl (fifo i v)" "fifo i"] assms(3)
    by (cases "fifo i v") auto
  have fifo1: "fifo i1 u = (if u = v then tl (fifo i v) else fifo i u)" for u
    by (simp add: i1_def fifo_def)
  have len: "int (length (tl (fifo i v))) \<le> perTopic i"
    using assms(1) unfolding ring_ok_def by (metis length_tl diff_le_self of_nat_mono order_trans)
  have tps: "\<forall>m \<in> set (tl (fifo i v)). m_topic m = v"
    using assms(1) unfolding ring_ok_def by (metis list.set_sel(2) list.sel(2))
  show ?thesis
  proof (cases "tl (fifo i v) = []")
    case False
    then show ?thesis
      using assms(1,2) tot len tps ring(2)
      by (auto simp: ring_ok_def fifo1) (auto simp: i1_def)
  next
    case True
    have r1: "ring i1 = ring i" "rr i1 = rr i" by (simp_all add: i1_def)
    obtain k where k: "k < length (ring i)" "ring i ! k = v"
      and rm: "ring (removeFromRing v i1) = remove_at k (ring i)"
        "topics (removeFromRing v i1) = topics i1" "total (removeFromRing v i1) = total i - 1"
        "perTopic (removeFromRing v i1) = perTopic i"
        "remove_at k (ring i) = [] \<longrightarrow> rr (removeFromRing v i1) = 0"
        "remove_at k (ring i) \<noteq> [] \<longrightarrow> rr (removeFromRing v i1) < length (remove_at k (ring i))"
      using removeFromRing_spec [of i1 v] ring by (auto simp: r1 simp del: remove_at.simps) (auto simp: i1_def)
    have fifo2: "fifo (removeFromRing v i1) u = (if u = v then [] else fifo i u)" for u
      using True fifo1 [of u] rm(2) by (simp add: fifo_def)
    note ra = remove_at_nth [OF ring(1) k(1)]
    have sum: "total i - 1 = int (sum_list (map (\<lambda>u. length (if u = v then [] else fifo i u))
        (remove_at k (ring i))))"
      using tot [unfolded True] sum_list_remove_at [OF k(1), of "\<lambda>u. length (if u = v then [] else fifo i u)"] k(2)
      by (simp del: remove_at.simps)
    show ?thesis
      using assms(1,2) True rm ra k(2) sum
      by (auto simp: ring_ok_def fifo2 simp del: remove_at.simps)
  qed
qed

lemma evictLongest_eq:
  assumes "victim i = (v, n)" "n \<noteq> 0"
  shows "evictLongest i = (True,
    (let i1 = i\<lparr>topics := (topics i)(v \<mapsto> tl (fifo i v)), total := total i - 1\<rparr>
     in if tl (fifo i v) = [] then removeFromRing v i1 else i1))"
  using assms by (simp add: evictLongest_def Let_def)

lemma evictLongest_spec:
  assumes "ring_ok S i" "victim i = (v, n)" "n \<noteq> 0" "v \<notin> S"
  obtains i' where "evictLongest i = (True, i')" "ring_ok S i'" "total i' = total i - 1"
    "perTopic i' = perTopic i" "maxTotal i' = maxTotal i" "dropped i' = dropped i"
    "\<And>u. fifo i' u = (if u = v then tl (fifo i v) else fifo i u)"
proof -
  let ?i1 = "i\<lparr>topics := (topics i)(v \<mapsto> tl (fifo i v)), total := total i - 1\<rparr>"
  let ?i' = "if tl (fifo i v) = [] then removeFromRing v ?i1 else ?i1"
  have ne: "fifo i v \<noteq> []" using victim_spec [OF assms(2,3)] assms(3) by auto
  have rg: "distinct (ring ?i1)" "v \<in> set (ring ?i1)" "rr ?i1 < length (ring ?i1)"
    using assms(1) ne by (auto simp: ring_ok_def)
  have f1: "fifo ?i1 u = (if u = v then tl (fifo i v) else fifo i u)" for u
    by (simp add: fifo_def)
  have f: "fifo ?i' u = (if u = v then tl (fifo i v) else fifo i u)" for u
    using removeFromRing_spec [OF rg] f1 [of u] by (auto simp: fifo_def)
  show thesis
  proof (rule that [of ?i'])
    show "evictLongest i = (True, ?i')" by (simp only: evictLongest_eq [OF assms(2,3)] Let_def)
    show "ring_ok S ?i'" by (rule ring_ok_drop_oldest [OF assms(1,4) ne])
  qed (use removeFromRing_spec [OF rg] f in \<open>auto split: if_splits\<close>)
qed

lemma ring_ok_store:
  assumes "ring_ok {t} i" "m_topic m = t" "set q \<subseteq> set (fifo i t)" "int (length q) < perTopic i"
  shows "ring_ok {} (i\<lparr>topics := (topics i)(t \<mapsto> q @ [m]),
    total := total i - int (length (fifo i t)) + int (length q) + 1, dropped := d, notify := b\<rparr>)"
proof -
  let ?i' = "i\<lparr>topics := (topics i)(t \<mapsto> q @ [m]),
    total := total i - int (length (fifo i t)) + int (length q) + 1, dropped := d, notify := b\<rparr>"
  have f: "fifo ?i' u = (if u = t then q @ [m] else fifo i u)" for u
    by (simp add: fifo_def)
  have rg: "distinct (ring i)" "t \<in> set (ring i)" using assms(1) by (auto simp: ring_ok_def)
  have "total ?i' = int (sum_list (map (\<lambda>u. length (if u = t then q @ [m] else fifo i u)) (ring i)))"
    using assms(1) total_upd [OF rg, of "q @ [m]" "fifo i"] by (simp add: ring_ok_def)
  then show ?thesis
    using assms unfolding ring_ok_def f by auto
qed

text \<open>Some FIFO is non-empty when messages are pending.\<close>

lemma victim_nonzero:
  assumes "ring_ok S i" "0 < total i" "victim i = (v, n)"
  shows "n \<noteq> 0"
proof
  assume "n = 0"
  have "length (fifo i t) \<le> n" if "t \<in> set (ring i)" for t
    using longest_of_max [OF that, of "\<lambda>t. length (fifo i t)" "([], 0)"] assms(3)
    by (simp add: victim_def)
  with \<open>n = 0\<close> have "sum_list (map (\<lambda>t. length (fifo i t)) (ring i)) = 0"
    by (intro sum_list_map_eq_0) auto
  with assms(1,2) show False by (simp add: ring_ok_def)
qed

lemma ring_ok_announce:
  assumes "inbox_inv i"
  shows "ring_ok {t} (if fifo i t = [] then i\<lparr>ring := ring i @ [t]\<rparr> else i)"
  using assms by (cases "ring i = []") (auto simp: inbox_inv_def ring_ok_def)

text \<open>What a push does: every branch of the code, as long as the eviction victim is another topic.\<close>

lemma inbox_push_cases:
  assumes inv: "inbox_inv i" and safe: "push_safe m i"
  obtains (full) i' where "inbox_push m i = (1, i')" "inbox_inv i'"
      "int (length (fifo i (m_topic m))) = perTopic i" "dropped i' = dropped i + 1"
      "total i' = total i" "perTopic i' = perTopic i" "maxTotal i' = maxTotal i"
      "\<And>u. fifo i' u = (if u = m_topic m then tl (fifo i u) @ [m] else fifo i u)"
  | (room) i' where "inbox_push m i = (0, i')" "inbox_inv i'" "total i < maxTotal i"
      "dropped i' = dropped i"
      "total i' = total i + 1" "perTopic i' = perTopic i" "maxTotal i' = maxTotal i"
      "\<And>u. fifo i' u = (if u = m_topic m then fifo i u @ [m] else fifo i u)"
  | (evict) i' v where "inbox_push m i = (1, i')" "inbox_inv i'" "total i = maxTotal i"
      "v \<noteq> m_topic m" "fifo i v \<noteq> []" "\<And>u. length (fifo i u) \<le> length (fifo i v)"
      "dropped i' = dropped i + 1"
      "total i' = total i" "perTopic i' = perTopic i" "maxTotal i' = maxTotal i"
      "\<And>u. fifo i' u = (if u = m_topic m then fifo i u @ [m]
         else if u = v then tl (fifo i u) else fifo i u)"
proof -
  let ?t = "m_topic m" and ?q = "fifo i (m_topic m)"
  define i1 where "i1 = (if ?q = [] then i\<lparr>ring := ring i @ [?t]\<rparr> else i)"
  have ok1: "ring_ok {?t} i1" unfolding i1_def by (rule ring_ok_announce [OF inv])
  have f1: "fifo i1 u = fifo i u" for u by (simp add: i1_def)
  have same: "perTopic i1 = perTopic i" "maxTotal i1 = maxTotal i" "total i1 = total i"
    "dropped i1 = dropped i" by (simp_all add: i1_def)
  have lim: "0 < perTopic i" "perTopic i \<le> maxTotal i" "total i \<le> maxTotal i"
    "int (length ?q) \<le> perTopic i"
    using inv by (auto simp: inbox_inv_def)
  consider (A) "int (length ?q) \<ge> perTopic i" | (B) "int (length ?q) < perTopic i" "total i < maxTotal i"
    | (C) "int (length ?q) < perTopic i" "total i \<ge> maxTotal i" by linarith
  then show thesis
  proof cases
    case A
    let ?i' = "i1\<lparr>topics := (topics i1)(?t \<mapsto> tl ?q @ [m]),
      total := total i1 - int (length (fifo i1 ?t)) + int (length (tl ?q)) + 1,
      dropped := dropped i + 1, notify := True\<rparr>"
    have ne: "?q \<noteq> []" using A lim(1) by auto
    then have tot: "total i1 - int (length (fifo i1 ?t)) + int (length (tl ?q)) + 1 = total i"
      by (cases ?q) (auto simp: f1 same)
    have "ring_ok {} ?i'"
      by (rule ring_ok_store [OF ok1]) (use ne lim same f1 in \<open>auto dest: list.set_sel(2)\<close>)
    then have "inbox_inv ?i'" using lim tot same by (simp add: inbox_inv_ring_ok)
    moreover have "inbox_push m i = (1, ?i')"
      using A tot by (simp add: inbox_push_def Let_def f1 same flip: i1_def)
    ultimately show thesis
      by (rule_tac full [of ?i']) (use A lim tot in \<open>auto simp: fifo_def i1_def\<close>)
  next
    case B
    let ?i' = "i1\<lparr>topics := (topics i1)(?t \<mapsto> ?q @ [m]),
      total := total i1 - int (length (fifo i1 ?t)) + int (length ?q) + 1,
      dropped := dropped i, notify := True\<rparr>"
    have "ring_ok {} ?i'"
      by (rule ring_ok_store [OF ok1]) (use B same f1 in auto)
    then have "inbox_inv ?i'" using lim B same f1 by (simp add: inbox_inv_ring_ok)
    moreover have "inbox_push m i = (0, ?i')"
      using B by (simp add: inbox_push_def Let_def f1 same flip: i1_def)
    ultimately show thesis
      by (rule_tac room [of ?i']) (use B in \<open>auto simp: fifo_def i1_def\<close>)
  next
    case C
    obtain v n where v: "victim i1 = (v, n)" by (cases "victim i1")
    have n: "n \<noteq> 0" using victim_nonzero [OF ok1 _ v] C lim same by simp
    have vt: "v \<noteq> ?t" using safe C v unfolding push_safe_def i1_def [symmetric] by simp
    from victim_spec [OF v n] n f1 have vne: "fifo i v \<noteq> []" by auto
    have vmax: "length (fifo i u) \<le> length (fifo i v)" for u
      using victim_spec(2,3) [OF v n] ok1 f1 by (cases "fifo i u = []") (auto simp: ring_ok_def)
    obtain i2 where i2: "evictLongest i1 = (True, i2)" "ring_ok {?t} i2" "total i2 = total i - 1"
      "perTopic i2 = perTopic i" "maxTotal i2 = maxTotal i" "dropped i2 = dropped i"
      and f2: "\<And>u. fifo i2 u = (if u = v then tl (fifo i v) else fifo i u)"
      using vt by (rule_tac evictLongest_spec [OF ok1 v n, unfolded f1 same]) simp_all
    let ?i' = "i2\<lparr>topics := (topics i2)(?t \<mapsto> ?q @ [m]),
      total := total i2 - int (length (fifo i2 ?t)) + int (length ?q) + 1,
      dropped := dropped i + 1, notify := True\<rparr>"
    have "ring_ok {} ?i'"
      by (rule ring_ok_store [OF i2(2)]) (use C i2 f2 vt in auto)
    then have "inbox_inv ?i'" using lim i2 f2 vt by (simp add: inbox_inv_ring_ok)
    moreover have "inbox_push m i = (1, ?i')"
      using C i2 f2 vt by (simp add: inbox_push_def Let_def f1 same flip: i1_def)
    moreover have "fifo ?i' u = (if u = ?t then fifo i u @ [m] else if u = v then tl (fifo i u) else fifo i u)"
      for u using f2 [of u] by (auto simp: fifo_def)
    ultimately show thesis
      using C lim vt vne vmax i2 f2 [of ?t] by (rule_tac evict [of ?i' v]) auto
  qed
qed

section \<open>Round robin\<close>

text \<open>The order in which the pending topics will be served: the ring from the cursor on.\<close>

definition ring_queue :: "inbox \<Rightarrow> string list" where
  "ring_queue i = drop (rr i) (ring i) @ take (rr i) (ring i)"

lemma set_ring_queue [simp]: "set (ring_queue i) = set (ring i)"
  unfolding ring_queue_def by (metis append_take_drop_id set_append sup_commute)

lemma distinct_ring_queue: "distinct (ring i) \<Longrightarrow> distinct (ring_queue i)"
  unfolding ring_queue_def by (metis append_take_drop_id distinct_append inf_commute)

lemma inbox_empty_iff:
  assumes "inbox_inv i"
  shows "total i = 0 \<or> ring i = [] \<longleftrightarrow> ring_queue i = []"
proof -
  have "total i \<noteq> 0" if "ring i \<noteq> []"
  proof -
    from that obtain t ts where "ring i = t # ts" by (cases "ring i") auto
    moreover from this assms have "fifo i t \<noteq> []" by (auto simp: inbox_inv_def)
    ultimately show ?thesis using assms by (cases "fifo i t") (auto simp: inbox_inv_def)
  qed
  moreover have "ring_queue i = [] \<longleftrightarrow> ring i = []"
    by (metis set_empty set_ring_queue)
  ultimately show ?thesis by auto
qed

lemma ring_queue_remove:
  assumes "r < length rg"
  shows "(let rg' = remove_at r rg; r' = (if rg' = [] then 0 else r mod length rg')
     in drop r' rg' @ take r' rg') = drop (Suc r) rg @ take r rg"
proof (cases "Suc r = length rg")
  case True
  then show ?thesis by (simp add: Let_def)
next
  case False
  with assms have "r < length rg - 1" by simp
  then show ?thesis by (auto simp: Let_def min_def)
qed

lemma ring_queue_advance:
  assumes "r < length rg"
  shows "drop (Suc r mod length rg) rg @ take (Suc r mod length rg) rg =
    drop (Suc r) rg @ take r rg @ [rg ! r]"
proof (cases "Suc r = length rg")
  case True
  then have "rg = take r rg @ [rg ! r]"
    by (metis assms take_Suc_conv_app_nth take_all_iff order_refl)
  with True show ?thesis by simp
next
  case False
  with assms show ?thesis by (simp add: take_Suc_conv_app_nth)
qed

text \<open>The shape of a pop on a non-empty inbox: the fields after it.\<close>

lemma inbox_pop_shape:
  assumes inv: "inbox_inv i" and rq: "ring_queue i = t # ts"
  obtains i' where "rr i < length (ring i)" "t = ring i ! rr i"
    "inbox_pop i = (Some (hd (fifo i t)), i')"
    "ring i' = (if tl (fifo i t) = [] then remove_at (rr i) (ring i) else ring i)"
    "rr i' = (if tl (fifo i t) = []
       then (if ring i' = [] then 0 else rr i mod length (ring i')) else Suc (rr i) mod length (ring i))"
    "\<And>u. fifo i' u = (if u = t then tl (fifo i u) else fifo i u)"
    "dropped i' = dropped i" "total i' = total i - 1"
    "perTopic i' = perTopic i" "maxTotal i' = maxTotal i" "notify i' = notify i"
proof -
  let ?r = "rr i"
  have ne: "ring i \<noteq> []" using rq by (auto simp: ring_queue_def)
  have r: "?r < length (ring i)" using inv ne by (simp add: inbox_inv_def)
  have t: "t = ring i ! ?r"
    using rq r unfolding ring_queue_def by (simp flip: Cons_nth_drop_Suc)
  have tot0: "total i \<noteq> 0" using inbox_empty_iff [OF inv] rq ne by auto
  show thesis
    by (rule that [of "snd (inbox_pop i)"])
      (use tot0 ne r in \<open>simp_all add: inbox_pop_def Let_def fifo_def t del: remove_at.simps\<close>)
qed

lemma inbox_pop_spec:
  assumes inv: "inbox_inv i" and rq: "ring_queue i = t # ts"
  obtains i' where "inbox_pop i = (Some (hd (fifo i t)), i')" "inbox_inv i'" "fifo i t \<noteq> []"
    "ring_queue i' = (if tl (fifo i t) = [] then ts else ts @ [t])"
    "\<And>u. fifo i' u = (if u = t then tl (fifo i u) else fifo i u)"
    "dropped i' = dropped i" "total i' = total i - 1"
    "perTopic i' = perTopic i" "maxTotal i' = maxTotal i" "notify i' = notify i"
proof (rule inbox_pop_shape [OF inv rq])
  fix i' assume r: "rr i < length (ring i)" and t: "t = ring i ! rr i"
    and pop: "inbox_pop i = (Some (hd (fifo i t)), i')"
    and rg: "ring i' = (if tl (fifo i t) = [] then remove_at (rr i) (ring i) else ring i)"
    and rr': "rr i' = (if tl (fifo i t) = []
       then (if ring i' = [] then 0 else rr i mod length (ring i')) else Suc (rr i) mod length (ring i))"
    and f: "\<And>u. fifo i' u = (if u = t then tl (fifo i u) else fifo i u)"
    and same: "dropped i' = dropped i" "total i' = total i - 1" "perTopic i' = perTopic i"
      "maxTotal i' = maxTotal i" "notify i' = notify i"
  have ts: "ts = drop (Suc (rr i)) (ring i) @ take (rr i) (ring i)"
    using rq r unfolding ring_queue_def by (simp flip: Cons_nth_drop_Suc)
  have d: "distinct (ring i)" and st: "set (ring i) = {u. fifo i u \<noteq> []}"
    and tt: "total i = int (sum_list (map (\<lambda>u. length (fifo i u)) (ring i)))"
    using inv by (simp_all add: inbox_inv_def)
  have tin: "t \<in> set (ring i)" using r t by simp
  have ft: "fifo i t \<noteq> []" using st tin by auto
  note ra = remove_at_nth [OF d r] and up = total_upd [OF d tin, of "tl (fifo i t)" "fifo i"]
  have rq': "ring_queue i' = (if tl (fifo i t) = [] then ts else ts @ [t])"
  proof (cases "tl (fifo i t) = []")
    case True
    define rg' where "rg' = remove_at (rr i) (ring i)"
    have "ring i' = rg'" "rr i' = (if rg' = [] then 0 else rr i mod length rg')"
      using True rg rr' by (simp_all add: rg'_def del: remove_at.simps)
    moreover have "drop (if rg' = [] then 0 else rr i mod length rg') rg' @
        take (if rg' = [] then 0 else rr i mod length rg') rg' = ts"
      using ring_queue_remove [OF r] unfolding Let_def rg'_def [symmetric] ts by simp
    ultimately show ?thesis using True by (simp add: ring_queue_def)
  next
    case False
    then show ?thesis using ring_queue_advance [OF r] rr' rg
      by (simp add: ring_queue_def ts t)
  qed
  have rb: "(ring i' = [] \<longrightarrow> rr i' = 0) \<and> (ring i' \<noteq> [] \<longrightarrow> rr i' < length (ring i'))"
    using r rr' rg by (cases "ring i = []") (auto simp del: remove_at.simps)
  have dist: "distinct (ring i')" and rset: "set (ring i') = {u. fifo i' u \<noteq> []}"
    using d ra st tin by (auto simp: rg t f simp del: remove_at.simps)
  have "total i - 1 = int (sum_list (map (\<lambda>u. length (fifo i' u)) (ring i)))"
    using up tt ft f by (cases "fifo i t") (auto cong: if_cong)
  moreover have "sum_list (map (\<lambda>u. length (fifo i' u)) (ring i)) =
      sum_list (map (\<lambda>u. length (fifo i' u)) (ring i'))"
    using sum_list_remove_at [OF r, of "\<lambda>u. length (fifo i' u)", folded t] f [of t] rg
    by (cases "tl (fifo i t) = []") (simp_all del: remove_at.simps length_tl)
  ultimately have sum: "total i' = int (sum_list (map (\<lambda>u. length (fifo i' u)) (ring i')))"
    using same by simp
  have bnd: "int (length (fifo i' u)) \<le> perTopic i' \<and> (\<forall>m \<in> set (fifo i' u). m_topic m = u)" for u
  proof -
    have "int (length (fifo i u)) \<le> perTopic i" "\<forall>m \<in> set (fifo i u). m_topic m = u"
      using inv by (auto simp: inbox_inv_def)
    then show ?thesis using f [of u] same by (cases "fifo i u") auto
  qed
  have inv': "inbox_inv i'"
    using dist rset sum rb bnd inv same unfolding inbox_inv_def by simp
  show thesis by (rule that [OF pop inv' ft rq' f same])
qed

lemma inbox_pop_empty: "inbox_inv i \<Longrightarrow> ring_queue i = [] \<Longrightarrow> inbox_pop i = (None, i)"
  using inbox_empty_iff [of i] by (auto simp: inbox_pop_def)

section \<open>Sequences of operations\<close>

text \<open>The callers interleave pushes (broker callback) and pops (forwarder) under the mutex.\<close>

datatype inbox_op = Push message | Pop

fun inbox_step :: "inbox_op \<Rightarrow> inbox \<Rightarrow> message list \<times> inbox" where
  "inbox_step (Push m) i = ([], snd (inbox_push m i))"
| "inbox_step Pop i = (case inbox_pop i of (None, i') \<Rightarrow> ([], i') | (Some m, i') \<Rightarrow> ([m], i'))"

fun inbox_run :: "inbox_op list \<Rightarrow> inbox \<Rightarrow> message list \<times> inbox" where
  "inbox_run [] i = ([], i)"
| "inbox_run (x # xs) i =
     (case inbox_step x i of (out, i1) \<Rightarrow> case inbox_run xs i1 of (out', i2) \<Rightarrow> (out @ out', i2))"

fun run_safe :: "inbox_op list \<Rightarrow> inbox \<Rightarrow> bool" where
  "run_safe [] i = True"
| "run_safe (x # xs) i =
     ((case x of Push m \<Rightarrow> push_safe m i | Pop \<Rightarrow> True) \<and> run_safe xs (snd (inbox_step x i)))"

definition pushed :: "inbox_op list \<Rightarrow> message list" where
  "pushed ops = List.map_filter (\<lambda>x. case x of Push m \<Rightarrow> Some m | Pop \<Rightarrow> None) ops"

abbreviation of_topic :: "string \<Rightarrow> message list \<Rightarrow> message list" where
  "of_topic t ms \<equiv> filter (\<lambda>m. m_topic m = t) ms"

lemma pushed_simps [simp]:
  "pushed [] = []" "pushed (Push m # ops) = m # pushed ops" "pushed (Pop # ops) = pushed ops"
  "pushed (xs @ ys) = pushed xs @ pushed ys" "pushed (replicate n Pop) = []"
  by (simp_all add: pushed_def map_filter_def)

lemma inbox_run_append:
  "inbox_run (xs @ ys) i = (case inbox_run xs i of (o1, i1) \<Rightarrow>
     case inbox_run ys i1 of (o2, i2) \<Rightarrow> (o1 @ o2, i2))"
  by (induction xs arbitrary: i) (auto split: prod.splits)

text \<open>What one operation keeps: the accounting and, per topic, the order.\<close>

definition step_ok :: "inbox \<Rightarrow> message list \<Rightarrow> message list \<Rightarrow> inbox \<Rightarrow> bool" where
  "step_ok i ins out i' \<longleftrightarrow>
     inbox_inv i' \<and> perTopic i' = perTopic i \<and> maxTotal i' = maxTotal i \<and> dropped i \<le> dropped i' \<and>
     int (length out) + total i' + (dropped i' - dropped i) = total i + int (length ins) \<and>
     (\<forall>t. subseq (of_topic t out @ fifo i' t) (fifo i t @ of_topic t ins)) \<and>
     (dropped i' = dropped i \<longrightarrow> (\<forall>t. of_topic t out @ fifo i' t = fifo i t @ of_topic t ins))"

lemma of_topic_fifo: "inbox_inv i \<Longrightarrow> of_topic t (fifo i u) = (if t = u then fifo i u else [])"
  by (auto simp: inbox_inv_def filter_id_conv filter_empty_conv)

lemma subseq_tl: "subseq (tl xs) xs"
  by (cases xs) auto

lemma inbox_push_ok:
  assumes inv: "inbox_inv i" and safe: "push_safe m i"
  shows "step_ok i [m] [] (snd (inbox_push m i))"
  using inv safe
proof (cases rule: inbox_push_cases)
  case (full i')
  have "subseq (tl (fifo i u) @ [m]) (fifo i u @ [m])" for u
    by (rule list_emb_append_mono [OF subseq_tl]) simp
  with full show ?thesis by (auto simp: step_ok_def)
next
  case (room i')
  then show ?thesis by (auto simp: step_ok_def)
next
  case (evict i' v)
  then show ?thesis by (auto simp: step_ok_def intro: subseq_tl)
qed

lemma inbox_pop_ok:
  assumes inv: "inbox_inv i"
  shows "step_ok i [] (fst (inbox_step Pop i)) (snd (inbox_step Pop i))"
proof (cases "ring_queue i")
  case Nil
  then show ?thesis using inv inbox_pop_empty [OF inv Nil] by (simp add: step_ok_def)
next
  case (Cons t ts)
  show ?thesis
  proof (rule inbox_pop_spec [OF inv Cons])
    fix i' assume p: "inbox_pop i = (Some (hd (fifo i t)), i')" "inbox_inv i'" "fifo i t \<noteq> []"
      "\<And>u. fifo i' u = (if u = t then tl (fifo i u) else fifo i u)"
      "dropped i' = dropped i" "total i' = total i - 1"
      "perTopic i' = perTopic i" "maxTotal i' = maxTotal i"
    have "m_topic (hd (fifo i t)) = t" using inv p(3) by (auto simp: inbox_inv_def)
    then have "of_topic u [hd (fifo i t)] @ fifo i' u = fifo i u" for u
      using p(3,4) by auto
    then show ?thesis using p by (simp add: step_ok_def)
  qed
qed

lemma inbox_pop_SomeE:
  assumes inv: "inbox_inv i" and pop: "inbox_pop i = (Some m, i')"
  obtains "inbox_inv i'" "dropped i' = dropped i" "total i' = total i - 1" "notify i' = notify i"
    "\<And>t. fifo i t = of_topic t [m] @ fifo i' t" "perTopic i' = perTopic i" "maxTotal i' = maxTotal i"
proof (cases "ring_queue i")
  case Nil
  then show thesis using inbox_pop_empty [OF inv] pop by simp
next
  case (Cons t ts)
  show thesis
  proof (rule inbox_pop_spec [OF inv Cons])
    fix i'' assume p: "inbox_pop i = (Some (hd (fifo i t)), i'')" "inbox_inv i''" "fifo i t \<noteq> []"
      "\<And>u. fifo i'' u = (if u = t then tl (fifo i u) else fifo i u)"
      "dropped i'' = dropped i" "total i'' = total i - 1" "notify i'' = notify i"
      "perTopic i'' = perTopic i" "maxTotal i'' = maxTotal i"
    have "m_topic m = t" using inv p(1,3) pop by (auto simp: inbox_inv_def)
    with p pop show thesis by (intro that) auto
  qed
qed

lemma inbox_pop_NoneE:
  assumes inv: "inbox_inv i" and pop: "inbox_pop i = (None, i')"
  obtains "i' = i" "total i = 0" "\<And>t. fifo i t = []"
proof (cases "ring_queue i")
  case Nil
  then have r: "ring i = []" by (metis set_empty set_ring_queue)
  then have "\<And>t. fifo i t = []" "total i = 0" using inv by (auto simp: inbox_inv_def)
  then show thesis using that inbox_pop_empty [OF inv Nil] pop by simp
next
  case (Cons t ts)
  then show thesis using inbox_pop_spec [OF inv Cons] pop by (metis Pair_inject option.distinct(1))
qed

lemma step_ok_trans:
  assumes 1: "step_ok i ins out i1" and 2: "step_ok i1 ins' out' i2"
  shows "step_ok i (ins @ ins') (out @ out') i2"
proof -
  have "subseq (of_topic t (out @ out') @ fifo i2 t) (fifo i t @ of_topic t (ins @ ins'))" for t
  proof -
    have "subseq (of_topic t out @ of_topic t out' @ fifo i2 t) (of_topic t out @ fifo i1 t @ of_topic t ins')"
      by (rule list_emb_append_mono) (use 2 in \<open>simp_all add: step_ok_def\<close>)
    also have "subseq \<dots> (fifo i t @ of_topic t ins @ of_topic t ins')"
      using 1 list_emb_append_mono [of "(=)" "of_topic t out @ fifo i1 t" "fifo i t @ of_topic t ins"
          "of_topic t ins'" "of_topic t ins'"] by (simp add: step_ok_def)
    finally show ?thesis by simp
  qed
  moreover have "of_topic t (out @ out') @ fifo i2 t = fifo i t @ of_topic t (ins @ ins')"
    if "dropped i2 = dropped i" for t
  proof -
    from that 1 2 have "of_topic t out @ fifo i1 t = fifo i t @ of_topic t ins"
      "of_topic t out' @ fifo i2 t = fifo i1 t @ of_topic t ins'" by (simp_all add: step_ok_def)
    then show ?thesis by (metis append.assoc filter_append)
  qed
  ultimately show ?thesis using 1 2 unfolding step_ok_def by simp
qed

lemma inbox_run_ok:
  assumes "inbox_inv i" "run_safe ops i" "inbox_run ops i = (out, i')"
  shows "step_ok i (pushed ops) out i'"
  using assms
proof (induction ops arbitrary: i out)
  case Nil
  then show ?case by (simp add: step_ok_def)
next
  case (Cons x ops)
  obtain o1 i1 where s: "inbox_step x i = (o1, i1)" by force
  obtain o2 where r: "inbox_run ops i1 = (o2, i')" and out: "out = o1 @ o2"
    using Cons.prems(3) by (auto simp: s split: prod.splits)
  have 1: "step_ok i (pushed [x]) o1 i1"
    using inbox_push_ok [OF Cons.prems(1)] inbox_pop_ok [OF Cons.prems(1)] Cons.prems(2) s
    by (cases x) auto
  then have "inbox_inv i1" by (simp add: step_ok_def)
  then have "step_ok i1 (pushed ops) o2 i'"
    using Cons.IH r Cons.prems(2) s by simp
  from step_ok_trans [OF 1 this] show ?case by (cases x) (simp_all add: out)
qed

section \<open>Properties\<close>

definition msg :: "string \<Rightarrow> nat \<Rightarrow> message" where
  "msg t n = \<lparr>m_topic = t, m_payload = [of_nat n], m_retain = False, m_at = 0\<rparr>"

text \<open>
  C9: Over any interleaving of pushes and pops in which no eviction hits the pushed topic
  itself, the inbox keeps its invariant, stays within the global budget, accounts for every
  message (popped, still held or counted as dropped), and per topic the popped messages
  followed by the held ones are a subsequence of the arrivals in their order -- all of them
  when nothing was dropped.
\<close>

theorem inbox_order_and_accounting:
  assumes "inbox_inv i" "run_safe ops i" "inbox_run ops i = (out, i')"
  shows "inbox_inv i' \<and> 0 \<le> total i' \<and> total i' \<le> maxTotal i \<and>
    int (length out) + total i' + (dropped i' - dropped i) = total i + int (length (pushed ops)) \<and>
    subseq (of_topic t out @ fifo i' t) (fifo i t @ of_topic t (pushed ops)) \<and>
    (dropped i' = dropped i \<longrightarrow> of_topic t out @ fifo i' t = fifo i t @ of_topic t (pushed ops))"
proof -
  have ok: "step_ok i (pushed ops) out i'" by (rule inbox_run_ok [OF assms])
  then have "0 \<le> total i'" "total i' \<le> maxTotal i" by (auto simp: step_ok_def inbox_inv_def)
  with ok show ?thesis by (simp add: step_ok_def)
qed

lemma inbox_drain_round:
  assumes "inbox_inv i" "ring_queue i = ts @ us"
  shows "\<exists>i'. inbox_run (replicate (length ts) Pop) i = (map (\<lambda>t. hd (fifo i t)) ts, i') \<and> inbox_inv i'"
  using assms
proof (induction ts arbitrary: i us)
  case (Cons t ts)
  obtain i1 where p: "inbox_pop i = (Some (hd (fifo i t)), i1)" "inbox_inv i1"
    "ring_queue i1 = (if tl (fifo i t) = [] then ts @ us else (ts @ us) @ [t])"
    "\<And>u. fifo i1 u = (if u = t then tl (fifo i u) else fifo i u)"
    using inbox_pop_spec [OF Cons.prems(1), of t "ts @ us"] Cons.prems(2) by auto
  have "distinct (t # ts @ us)"
    using distinct_ring_queue [of i] Cons.prems by (simp add: inbox_inv_def)
  then have eq: "map (\<lambda>t. hd (fifo i1 t)) ts = map (\<lambda>t. hd (fifo i t)) ts"
    by (auto simp: p(4))
  obtain vs where "ring_queue i1 = ts @ vs" using p(3) by (cases "tl (fifo i t) = []") auto
  from Cons.IH [OF p(2) this] obtain i' where
    "inbox_run (replicate (length ts) Pop) i1 = (map (\<lambda>t. hd (fifo i1 t)) ts, i')" "inbox_inv i'"
    by auto
  with p(1) eq show ?case by auto
qed simp

text \<open>Conditional equations that evaluate a push with room and a pop.\<close>

lemma inbox_push_room:
  assumes "int (length (fifo i (m_topic m))) < perTopic i" "total i < maxTotal i"
  shows "inbox_push m i = (0, i\<lparr>topics := (topics i)(m_topic m \<mapsto> fifo i (m_topic m) @ [m]),
     ring := (if fifo i (m_topic m) = [] then ring i @ [m_topic m] else ring i),
     total := total i + 1, notify := True\<rparr>)"
  using assms by (simp add: inbox_push_def)

lemma inbox_pop_eval:
  assumes "total i \<noteq> 0" "ring i \<noteq> []" "rr i < length (ring i)" "ring i ! rr i = t" "fifo i t = m # q"
  shows "inbox_pop i = (Some m, if q = [] then i\<lparr>topics := (topics i)(t := None),
       ring := remove_at (rr i) (ring i), rr := (if remove_at (rr i) (ring i) = [] then 0
         else rr i mod length (remove_at (rr i) (ring i))), total := total i - 1\<rparr>
     else i\<lparr>topics := (topics i)(t \<mapsto> q), rr := (rr i + 1) mod length (ring i), total := total i - 1\<rparr>)"
  using assms by (simp add: inbox_pop_def Let_def del: remove_at.simps)

lemmas inbox_eval = inbox_push_room inbox_pop_eval newInbox_def fifo_def push_safe_def msg_def

theorem inbox_order_and_accounting_witness:
  "\<exists>i'. inbox_run [Push (msg ''A'' 1), Push (msg ''A'' 2), Push (msg ''B'' 3), Pop] (newInbox 2 4) =
     ([msg ''A'' 1], i') \<and> total i' = 2 \<and> fifo i' ''A'' = [msg ''A'' 2]"
proof -
  let ?ops = "[Push (msg ''A'' 1), Push (msg ''A'' 2), Push (msg ''B'' 3), Pop]"
  obtain i' where run: "inbox_run ?ops (newInbox 2 4) = ([msg ''A'' 1], i')"
    and d: "dropped i' = dropped (newInbox 2 4)"
    by (simp add: inbox_eval)
  have inv: "inbox_inv (newInbox 2 4)" by (rule newInbox_inv) simp_all
  have safe: "run_safe ?ops (newInbox 2 4)" by (simp add: inbox_eval)
  from inbox_order_and_accounting [OF inv safe run, of "''A''"] d run show ?thesis
    by (intro exI [of _ i']) (simp add: msg_def fifo_def newInbox_def)
qed

text \<open>
  Round robin: when nothing is pushed meanwhile, as many pops as there are pending
  topics return the oldest message of each pending topic, every one exactly once, in ring
  order from the cursor.
\<close>

theorem inbox_round_robin:
  assumes "inbox_inv i"
  shows "fst (inbox_run (replicate (length (ring i)) Pop) i) = map (\<lambda>t. hd (fifo i t)) (ring_queue i) \<and>
    distinct (ring_queue i) \<and> set (ring_queue i) = {t. fifo i t \<noteq> []}"
proof -
  have "length (ring_queue i) = length (ring i)" by (simp add: ring_queue_def)
  then show ?thesis
    using inbox_drain_round [OF assms, of "ring_queue i" "[]"] distinct_ring_queue [of i] assms
    by (auto simp: inbox_inv_def)
qed

theorem inbox_round_robin_witness:
  "fst (inbox_run [Pop, Pop] (snd (inbox_run [Push (msg ''A'' 1), Push (msg ''A'' 2), Push (msg ''B'' 3)]
     (newInbox 2 4)))) = [msg ''A'' 1, msg ''B'' 3]"
proof -
  let ?ops = "[Push (msg ''A'' 1), Push (msg ''A'' 2), Push (msg ''B'' 3)]"
  define i where "i = snd (inbox_run ?ops (newInbox 2 4))"
  have "inbox_inv (newInbox 2 4)" by (rule newInbox_inv) simp_all
  moreover have "run_safe ?ops (newInbox 2 4)" by (simp add: inbox_eval)
  ultimately have "inbox_inv i"
    using inbox_run_ok [of "newInbox 2 4" ?ops] by (simp add: step_ok_def i_def split: prod.splits)
  moreover have "ring i = [''A'', ''B'']" "rr i = 0" "hd (fifo i ''A'') = msg ''A'' 1" "hd (fifo i ''B'') = msg ''B'' 3"
    unfolding i_def by (simp_all add: inbox_eval)
  ultimately show ?thesis
    using inbox_round_robin [of i] unfolding i_def [symmetric]
    by (simp add: ring_queue_def del: inbox_run.simps)
qed

section \<open>Two ways a topic is never served\<close>

text \<open>
  \<^verbatim>\<open>push\<close> appends a newly pending topic at the end of the slice, which is before the
  cursor's next wrap and not behind the topics already waiting.
\<close>

definition waiting :: inbox where
  "waiting = snd (inbox_run [Push (msg ''A'' 1), Push (msg ''A'' 2), Push (msg ''B'' 3),
     Push (msg ''C'' 4), Pop] (newInbox 64 4096))"

lemma waiting_eq:
  "waiting = \<lparr>topics = [''A'' \<mapsto> [msg ''A'' 2], ''B'' \<mapsto> [msg ''B'' 3], ''C'' \<mapsto> [msg ''C'' 4]],
     ring = [''A'', ''B'', ''C''], rr = 1, total = 3, perTopic = 64, maxTotal = 4096,
     dropped = 0, notify = True\<rparr>"
  by (simp add: waiting_def inbox_eval fun_eq_iff)

lemma waiting_cycle:
  "inbox_run [Pop, Push (msg ''B'' 3), Pop, Push (msg ''C'' 4)] waiting = ([msg ''B'' 3, msg ''C'' 4], waiting)"
  by (simp add: waiting_eq inbox_eval fun_eq_iff)

text \<open>
  C15: Two busy topics starve a third: from a reachable state in which A, B and C each hold a
  message, as long as B and C are refilled one after the other the forwarder alternates
  between them for ever and the pending message of A is never popped.
\<close>

theorem inbox_starves:
  "inbox_run (concat (replicate n [Pop, Push (msg ''B'' 3), Pop, Push (msg ''C'' 4)])) waiting =
     (concat (replicate n [msg ''B'' 3, msg ''C'' 4]), waiting) \<and> fifo waiting ''A'' = [msg ''A'' 2]"
proof (induction n)
  case 0
  then show ?case by (simp add: waiting_eq fifo_def)
next
  case (Suc n)
  then show ?case by (simp only: replicate.simps concat.simps inbox_run_append waiting_cycle) simp
qed

text \<open>The part of the invariant that every push keeps, and a topic that has left the ring.\<close>

definition inbox_weak :: "inbox \<Rightarrow> bool" where
  "inbox_weak i \<longleftrightarrow> distinct (ring i) \<and> (\<forall>u \<in> set (ring i). fifo i u \<noteq> []) \<and>
     (\<forall>u. \<forall>m \<in> set (fifo i u). m_topic m = u)"

definition stranded :: "string \<Rightarrow> inbox \<Rightarrow> bool" where
  "stranded t i \<longleftrightarrow> t \<notin> set (ring i) \<and> fifo i t \<noteq> []"

lemma set_remove_at_subset: "set (remove_at k xs) \<subseteq> set xs"
  by (auto dest: in_set_takeD in_set_dropD)

lemma ring_removeFromRing: "set (ring (removeFromRing v i)) \<subseteq> set (ring i)"
  by (auto simp: removeFromRing_def Let_def split: option.splits simp del: remove_at.simps
      dest!: subsetD [OF set_remove_at_subset])

lemma distinct_removeFromRing: "distinct (ring i) \<Longrightarrow>
   distinct (ring (removeFromRing v i)) \<and> v \<notin> set (ring (removeFromRing v i))"
  using index_of_None [of v "ring i"] index_of_Some [of v "ring i"] remove_at_nth(1,2) [of "ring i"]
  by (auto simp: removeFromRing_def Let_def split: option.splits simp del: remove_at.simps)

lemma topics_removeFromRing [simp]: "topics (removeFromRing v i) = topics i"
  by (auto simp: removeFromRing_def Let_def split: option.splits)

lemma evictLongest_weak:
  assumes "distinct (ring i)" "evictLongest i = (ev, i')"
  shows "i' = i \<or> (\<exists>v \<in> set (ring i). topics i' = (topics i)(v \<mapsto> tl (fifo i v)) \<and>
     distinct (ring i') \<and> set (ring i') \<subseteq> set (ring i) \<and> (tl (fifo i v) = [] \<longrightarrow> v \<notin> set (ring i')))"
proof -
  obtain v n where v: "victim i = (v, n)" by (cases "victim i")
  show ?thesis
  proof (cases "n = 0")
    case True
    then show ?thesis using assms(2) v by (simp add: evictLongest_def)
  next
    case False
    let ?i1 = "i\<lparr>topics := (topics i)(v \<mapsto> tl (fifo i v)), total := total i - 1\<rparr>"
    have "i' = (if tl (fifo i v) = [] then removeFromRing v ?i1 else ?i1)"
      using assms(2) evictLongest_eq [OF v False] by (simp add: Let_def)
    then show ?thesis
      using assms(1) victim_spec(1) [OF v False] ring_removeFromRing [of v ?i1]
        distinct_removeFromRing [of ?i1 v]
      by (intro disjI2 bexI [of _ v]) auto
  qed
qed

lemma inbox_push_weak:
  assumes "inbox_weak i"
  shows "inbox_weak (snd (inbox_push m i)) \<and> (stranded t i \<longrightarrow> stranded t (snd (inbox_push m i)))"
proof -
  let ?t = "m_topic m" and ?q = "fifo i (m_topic m)"
  define i1 where "i1 = (if ?q = [] then i\<lparr>ring := ring i @ [?t]\<rparr> else i)"
  have w1: "distinct (ring i1)" "\<forall>u \<in> set (ring i1). u = ?t \<or> fifo i1 u \<noteq> []" "topics i1 = topics i"
    "\<forall>u. \<forall>m \<in> set (fifo i1 u). m_topic m = u" "stranded t i \<longrightarrow> t \<notin> set (ring i1)"
    "fifo i1 = fifo i"
    using assms by (auto simp: i1_def inbox_weak_def stranded_def)
  obtain ev i2 where e: "evictLongest i1 = (ev, i2)" by force
  define store where "store q x i3 = i3\<lparr>topics := (topics i3)(?t \<mapsto> q @ [m]), total := total i3 + 1,
      dropped := dropped i3 + x, notify := True\<rparr>" for q x and i3 :: inbox
  have "snd (inbox_push m i) =
     (if int (length ?q) \<ge> perTopic i1 then store (tl ?q) 1 (i1\<lparr>total := total i1 - 1\<rparr>)
      else if total i1 \<ge> maxTotal i1 then store ?q (if ev then 1 else 0) i2 else store ?q 0 i1)"
    unfolding inbox_push_def Let_def i1_def [symmetric] store_def e by simp
  then obtain q2 x i3 where p: "snd (inbox_push m i) = store q2 x i3" "q2 = ?q \<or> q2 = tl ?q"
    "topics i3 = topics i1 \<and> ring i3 = ring i1 \<or> i3 = i2"
    by (fastforce split: if_splits)
  have st: "ring (store q2 x i3) = ring i3" "fifo (store q2 x i3) u = (if u = ?t then q2 @ [m] else fifo i3 u)" for u
    by (simp_all add: store_def fifo_def)
  have q2: "set q2 \<subseteq> set ?q" using p(2) list.set_sel(2) [of ?q] by (cases ?q) auto
  have f3: "(fifo i3 = fifo i1 \<and> ring i3 = ring i1) \<or>
    (\<exists>v \<in> set (ring i1). fifo i3 = (fifo i1)(v := tl (fifo i1 v)) \<and> distinct (ring i3) \<and>
      set (ring i3) \<subseteq> set (ring i1) \<and> (tl (fifo i1 v) = [] \<longrightarrow> v \<notin> set (ring i3)))"
    using evictLongest_weak [OF w1(1) e] p(3) by (auto simp: fifo_def fun_eq_iff)
  have tl: "m \<in> set (fifo i1 v)" if "m \<in> set (tl (fifo i1 v))" for m v
    using that by (cases "fifo i1 v") auto
  have 3: "distinct (ring i3)" "set (ring i3) \<subseteq> set (ring i1)"
    "\<forall>u \<in> set (ring i3). u = ?t \<or> fifo i3 u \<noteq> []" "t \<notin> set (ring i1) \<longrightarrow> fifo i3 t = fifo i1 t"
    using f3 w1(1,2) by (auto split: if_splits)
  have 4: "\<forall>u. \<forall>m \<in> set (fifo i3 u). m_topic m = u"
    using f3 w1(4) tl by (auto split: if_splits)
  show ?thesis
    using 3 4 w1(4-6) q2 unfolding inbox_weak_def stranded_def p(1) st by auto
qed

lemma inbox_pop_weak:
  assumes w: "inbox_weak i" and st: "stranded t i" and pop: "inbox_pop i = (om, i')"
  shows "inbox_weak i' \<and> stranded t i' \<and> (\<forall>m. om = Some m \<longrightarrow> m_topic m \<noteq> t)"
proof (cases "total i = 0 \<or> ring i = []")
  case True
  then show ?thesis using assms by (auto simp: inbox_pop_def)
next
  case False
  define r u where "r = rr i mod length (ring i)" and "u = ring i ! r"
  have r: "r < length (ring i)" using False by (simp add: r_def)
  have u: "u \<in> set (ring i)" "fifo i u \<noteq> []" "u \<noteq> t" and d: "distinct (ring i)"
    using w st r by (auto simp: u_def inbox_weak_def stranded_def)
  have m: "om = Some (hd (fifo i u))" "m_topic (hd (fifo i u)) = u"
    using pop False u(2) w by (auto simp: inbox_pop_def Let_def u_def r_def inbox_weak_def)
  have f: "fifo i' = (fifo i)(u := tl (fifo i u))"
    using pop False by (auto simp: inbox_pop_def Let_def u_def r_def fifo_def fun_eq_iff split: if_splits)
  have rg: "ring i' = (if tl (fifo i u) = [] then remove_at r (ring i) else ring i)"
    using pop False by (auto simp: inbox_pop_def Let_def u_def r_def simp del: remove_at.simps)
  have tl: "\<forall>m \<in> set (tl (fifo i u)). m_topic m = u"
    using w u(2) by (auto simp: inbox_weak_def dest: list.set_sel(2))
  have "distinct (ring i')" "set (ring i') \<subseteq> set (ring i)" "tl (fifo i u) = [] \<longrightarrow> u \<notin> set (ring i')"
    using d remove_at_nth(1,2) [OF d r] rg by (auto simp: u_def simp del: remove_at.simps)
  moreover have "\<forall>m. om = Some m \<longrightarrow> m_topic m \<noteq> t" using m u(3) by simp
  ultimately show ?thesis
    using w st u f tl unfolding inbox_weak_def stranded_def by (auto split: if_splits)
qed

text \<open>
  A topic that has pending messages but has left the ring is stranded for good: whatever
  is pushed and popped afterwards, to this topic or to others, none of its messages is ever
  popped. The witness reaches such a state from an empty inbox with a budget of two messages
  by three pushes, the last of which evicts a message of the pushed topic itself; there the
  evicted message is also still queued, so that the inbox holds three messages and counts two.
\<close>

theorem inbox_stranded_forever:
  assumes "inbox_weak i" "stranded t i" "inbox_run ops i = (out, i')"
  shows "stranded t i' \<and> of_topic t out = []"
  using assms
proof (induction ops arbitrary: i out)
  case (Cons x ops)
  obtain o1 i1 where s: "inbox_step x i = (o1, i1)" by force
  obtain o2 where r: "inbox_run ops i1 = (o2, i')" and out: "out = o1 @ o2"
    using Cons.prems(3) by (auto simp: s split: prod.splits)
  have "inbox_weak i1 \<and> stranded t i1 \<and> of_topic t o1 = []"
  proof (cases x)
    case (Push m)
    then show ?thesis using inbox_push_weak [OF Cons.prems(1), of m t] Cons.prems(2) s by auto
  next
    case Pop
    obtain om i2 where p: "inbox_pop i = (om, i2)" by force
    show ?thesis
      using inbox_pop_weak [OF Cons.prems(1,2) p] s Pop p by (cases om) auto
  qed
  then show ?case using Cons.IH [OF _ _ r] out by simp
qed simp

theorem inbox_stranded_forever_witness:
  "\<forall>ops. of_topic ''A'' (fst (inbox_run ([Push (msg ''A'' 1), Push (msg ''B'' 2), Push (msg ''A'' 3)] @ ops)
     (newInbox 2 2))) = []"
proof
  fix ops
  let ?pre = "[Push (msg ''A'' 1), Push (msg ''B'' 2), Push (msg ''A'' 3)]"
  define i where "i = \<lparr>topics = [''A'' \<mapsto> [msg ''A'' 1, msg ''A'' 3], ''B'' \<mapsto> [msg ''B'' 2]],
     ring = [''B''], rr = 0, total = 2, perTopic = 2, maxTotal = 2, dropped = 1, notify = True\<rparr>"
  define i2 where "i2 = \<lparr>topics = [''A'' \<mapsto> [msg ''A'' 1], ''B'' \<mapsto> [msg ''B'' 2]], ring = [''A'', ''B''],
     rr = 0, total = 2, perTopic = 2, maxTotal = 2, dropped = 0, notify = True\<rparr>"
  have "evictLongest i2 = (True, i2\<lparr>topics := (topics i2)(''A'' \<mapsto> []), ring := [''B''], total := 1\<rparr>)"
    by (simp add: i2_def evictLongest_def victim_def fifo_def removeFromRing_def)
  moreover have "fifo i2 ''A'' = [msg ''A'' 1]" "perTopic i2 = 2" "maxTotal i2 = 2" "total i2 = 2"
    by (simp_all add: i2_def fifo_def)
  ultimately have "inbox_push (msg ''A'' 3) i2 = (1, i)"
    by (simp add: inbox_push_def msg_def) (simp add: i2_def i_def msg_def fun_eq_iff)
  moreover have "inbox_run [Push (msg ''A'' 1), Push (msg ''B'' 2)] (newInbox 2 2) = ([], i2)"
    by (simp add: inbox_eval i2_def fun_eq_iff)
  ultimately have "inbox_run ?pre (newInbox 2 2) = ([], i)"
    by simp
  moreover have "inbox_weak i" "stranded ''A'' i"
    by (auto simp: i_def inbox_weak_def stranded_def fifo_def msg_def)
  ultimately show "of_topic ''A'' (fst (inbox_run (?pre @ ops) (newInbox 2 2))) = []"
    using inbox_stranded_forever [of i "''A''" ops]
    by (cases "inbox_run ops i") (simp add: inbox_run_append del: inbox_run.simps append.simps)
qed

end
