(* ===== verification/Bridge.thy ===== *)
theory Bridge
  imports Mem_Adapters Inbox
begin

text \<open>
  The store-and-forward bridge, \<^verbatim>\<open>internal/bridge/bridge.go\<close>. The forwarder goroutine
  \<^verbatim>\<open>Run\<close> is a state machine: its program counter is \<open>bridge_pc\<close>, one step is what it does
  between two points at which another goroutine can be observed. The other labels are the
  environment: the broker callback \<^verbatim>\<open>onMessage\<close>, the cancellation of the context, the timer
  and a change of the sink's health. Queue and sink are the operations of the ports; the
  theorems are proved once for every pair that meets the contracts of \<open>Ports\<close> and
  interpreted on the adapters.
\<close>

section \<open>Configuration\<close>

record bridge_config =
  cf_Filter :: string
  cf_InboxSize :: int
  cf_PerTopicMax :: int
  cf_RetryMin :: duration
  cf_RetryMax :: duration
  cf_ReplayBatch :: int

definition bridge_defaults :: "bridge_config \<Rightarrow> bridge_config" where
  "bridge_defaults c0 =
     (let c1 = (if cf_Filter c0 = [] then c0\<lparr>cf_Filter := ''#''\<rparr> else c0);
          c2 = (if cf_InboxSize c1 \<le> 0 then c1\<lparr>cf_InboxSize := 4096\<rparr> else c1);
          c3 = (if cf_PerTopicMax c2 \<le> 0 then c2\<lparr>cf_PerTopicMax := 64\<rparr> else c2);
          c4 = (if cf_PerTopicMax c3 > cf_InboxSize c3 then c3\<lparr>cf_PerTopicMax := cf_InboxSize c3\<rparr> else c3);
          c5 = (if cf_RetryMin c4 \<le> 0 then c4\<lparr>cf_RetryMin := millis 200\<rparr> else c4);
          c6 = (if cf_RetryMax c5 \<le> 0 \<or> cf_RetryMax c5 < cf_RetryMin c5
                then c5\<lparr>cf_RetryMax := seconds 10\<rparr> else c5)
      in if cf_ReplayBatch c6 \<le> 0 then c6\<lparr>cf_ReplayBatch := 256\<rparr> else c6)"

section \<open>State\<close>

datatype replay_site = AtTop | AtTimer

datatype bridge_pc =
    NotStarted | Top | Replaying replay_site int | Selecting | Notified | SendFailed
  | Draining | Returning | Returned

record ('q, 's) bridge =
  br_cfg :: bridge_config
  br_in :: inbox
  br_queue :: 'q
  br_sink :: 's
  br_sinkUp :: bool
  br_forwarded :: int
  br_spilled :: int
  br_lost :: int
  br_backoff :: duration
  br_timer :: "duration option"
  br_ctxDone :: bool
  br_subscribed :: bool
  br_pc :: bridge_pc

definition bridge_New :: "bridge_config \<Rightarrow> 's \<Rightarrow> 'q \<Rightarrow> ('q, 's) bridge" where
  "bridge_New cfg sink queue =
     (let c = bridge_defaults cfg
      in \<lparr>br_cfg = c, br_in = newInbox (cf_PerTopicMax c) (cf_InboxSize c), br_queue = queue,
          br_sink = sink, br_sinkUp = True, br_forwarded = 0, br_spilled = 0, br_lost = 0,
          br_backoff = 0, br_timer = None, br_ctxDone = False, br_subscribed = False,
          br_pc = NotStarted\<rparr>)"

record bridge_stats =
  st_SinkUp :: bool
  st_Forwarded :: int
  st_Spilled :: int
  st_Coalesced :: int
  st_Dropped :: int
  st_QueueDepth :: int
  st_QueueBytes :: int
  st_Inbox :: int

definition bridge_Stats :: "'q queue_ops \<Rightarrow> ('q, 's) bridge \<Rightarrow> bridge_stats" where
  "bridge_Stats Q s =
     \<lparr>st_SinkUp = br_sinkUp s, st_Forwarded = br_forwarded s, st_Spilled = br_spilled s,
      st_Coalesced = dropped (br_in s), st_Dropped = q_dropped Q (br_queue s),
      st_QueueDepth = q_len Q (br_queue s), st_QueueBytes = q_bytes Q (br_queue s),
      st_Inbox = total (br_in s)\<rparr>"

section \<open>Operations\<close>

definition onMessage :: "message \<Rightarrow> ('q, 's) bridge \<Rightarrow> ('q, 's) bridge" where
  "onMessage m s = s\<lparr>br_in := snd (inbox_push m (br_in s))\<rparr>"

definition spill :: "'q queue_ops \<Rightarrow> message \<Rightarrow> ('q, 's) bridge \<Rightarrow> ('q, 's) bridge" where
  "spill Q m s =
     (case q_push Q m (br_queue s) of
        (Some _, q) \<Rightarrow> s\<lparr>br_queue := q, br_lost := br_lost s + 1\<rparr>
      | (None, q) \<Rightarrow> s\<lparr>br_queue := q, br_spilled := br_spilled s + 1\<rparr>)"

definition send :: "'s sink_ops \<Rightarrow> message \<Rightarrow> ('q, 's) bridge \<Rightarrow> port_error option \<times> ('q, 's) bridge" where
  "send S m s =
     (case s_send S (br_ctxDone s) m (br_sink s) of
        (Some e, k) \<Rightarrow> (Some e, s\<lparr>br_sink := k\<rparr>)
      | (None, k) \<Rightarrow> (None, s\<lparr>br_sink := k, br_forwarded := br_forwarded s + 1\<rparr>))"

text \<open>One iteration of the loop of \<^verbatim>\<open>replay\<close> and how it leaves the body.\<close>

datatype replay_exit = Continue | Break | Return bool

definition replay_iter ::
  "'q queue_ops \<Rightarrow> 's sink_ops \<Rightarrow> ('q, 's) bridge \<Rightarrow> replay_exit \<times> ('q, 's) bridge" where
  "replay_iter Q S s =
     (if br_ctxDone s then (Return True, s)
      else case q_peek Q (br_queue s) of
        (Inl _, q) \<Rightarrow>
          (let s1 = s\<lparr>br_queue := q, br_lost := br_lost s + 1\<rparr>
           in case q_ack Q (br_queue s1) of
                (Some _, q') \<Rightarrow> (Return False, s1\<lparr>br_queue := q'\<rparr>)
              | (None, q') \<Rightarrow> (Continue, s1\<lparr>br_queue := q'\<rparr>))
      | (Inr None, q) \<Rightarrow> (Break, s\<lparr>br_queue := q\<rparr>)
      | (Inr (Some m), q) \<Rightarrow>
          (case send S m (s\<lparr>br_queue := q\<rparr>) of
             (Some _, s1) \<Rightarrow> (Return False, s1)
           | (None, s1) \<Rightarrow>
               (case q_ack Q (br_queue s1) of
                  (Some _, q') \<Rightarrow> (Return False, s1\<lparr>br_queue := q'\<rparr>)
                | (None, q') \<Rightarrow> (Continue, s1\<lparr>br_queue := q'\<rparr>))))"

text \<open>The retry timer is re-armed and the back-off doubled (a 64-bit product) up to the limit.\<close>

definition next_backoff :: "bridge_config \<Rightarrow> duration \<Rightarrow> duration" where
  "next_backoff c b = (let n = wrap64 (b * 2) in if n > cf_RetryMax c then cf_RetryMax c else n)"

definition fail :: "duration \<Rightarrow> ('q, 's) bridge \<Rightarrow> ('q, 's) bridge" where
  "fail b s = s\<lparr>br_sinkUp := False, br_timer := Some b, br_backoff := next_backoff (br_cfg s) b\<rparr>"

section \<open>The forwarder\<close>

text \<open>What \<^verbatim>\<open>Run\<close> does with the result of \<^verbatim>\<open>replay\<close> at its two call sites.\<close>

fun after_replay :: "'q queue_ops \<Rightarrow> replay_site \<Rightarrow> bool \<Rightarrow> ('q, 's) bridge \<Rightarrow> ('q, 's) bridge" where
  "after_replay Q AtTop ok s =
     (if \<not> ok then (fail (br_backoff s) s)\<lparr>br_pc := Selecting\<rparr>
      else if q_len Q (br_queue s) > 0
      then (if br_ctxDone s then s\<lparr>br_pc := Draining\<rparr> else s\<lparr>br_pc := Top\<rparr>)
      else s\<lparr>br_pc := Selecting\<rparr>)"
| "after_replay Q AtTimer ok s =
     (if ok then s\<lparr>br_backoff := cf_RetryMin (br_cfg s), br_timer := Some (cf_RetryMax (br_cfg s)), br_pc := Top\<rparr>
      else (fail (br_backoff s) s)\<lparr>br_pc := Top\<rparr>)"

definition replay_step ::
  "'q queue_ops \<Rightarrow> 's sink_ops \<Rightarrow> replay_site \<Rightarrow> int \<Rightarrow> ('q, 's) bridge \<Rightarrow> ('q, 's) bridge" where
  "replay_step Q S site i s =
     (if i < cf_ReplayBatch (br_cfg s)
      then case replay_iter Q S s of
             (Continue, s') \<Rightarrow> s'\<lparr>br_pc := Replaying site (i + 1)\<rparr>
           | (Break, s') \<Rightarrow> after_replay Q site True (s'\<lparr>br_sinkUp := True\<rparr>)
           | (Return ok, s') \<Rightarrow> after_replay Q site ok s'
      else after_replay Q site True (s\<lparr>br_sinkUp := True\<rparr>))"

definition notified_step :: "'q queue_ops \<Rightarrow> 's sink_ops \<Rightarrow> ('q, 's) bridge \<Rightarrow> ('q, 's) bridge" where
  "notified_step Q S s =
     (case inbox_pop (br_in s) of
        (None, i) \<Rightarrow> s\<lparr>br_in := i, br_pc := Top\<rparr>
      | (Some m, i) \<Rightarrow>
          (let s1 = s\<lparr>br_in := i\<rparr>
           in if \<not> br_sinkUp s1 \<or> q_len Q (br_queue s1) > 0 then spill Q m s1
              else case send S m s1 of
                     (None, s2) \<Rightarrow> s2
                   | (Some _, s2) \<Rightarrow> (spill Q m s2)\<lparr>br_pc := SendFailed\<rparr>))"

definition drain_step :: "'q queue_ops \<Rightarrow> ('q, 's) bridge \<Rightarrow> ('q, 's) bridge" where
  "drain_step Q s =
     (case inbox_pop (br_in s) of
        (None, i) \<Rightarrow> s\<lparr>br_in := i, br_pc := Returning\<rparr>
      | (Some m, i) \<Rightarrow> spill Q m (s\<lparr>br_in := i\<rparr>))"

text \<open>The forwarder's next step where it does not wait; \<open>None\<close> where it does or has returned.\<close>

definition forward_step :: "'q queue_ops \<Rightarrow> 's sink_ops \<Rightarrow> ('q, 's) bridge \<Rightarrow> ('q, 's) bridge option" where
  "forward_step Q S s =
     (case br_pc s of
        Top \<Rightarrow> Some (if q_len Q (br_queue s) > 0 \<and> br_sinkUp s then s\<lparr>br_pc := Replaying AtTop 0\<rparr>
                     else s\<lparr>br_pc := Selecting\<rparr>)
      | Replaying site i \<Rightarrow> Some (replay_step Q S site i s)
      | Notified \<Rightarrow> Some (notified_step Q S s)
      | SendFailed \<Rightarrow> Some (if br_ctxDone s then s\<lparr>br_pc := Draining\<rparr>
                            else (fail (cf_RetryMin (br_cfg s)) s)\<lparr>br_pc := Notified\<rparr>)
      | Draining \<Rightarrow> Some (drain_step Q s)
      | Returning \<Rightarrow> Some (s\<lparr>br_subscribed := False, br_pc := Returned\<rparr>)
      | _ \<Rightarrow> None)"

text \<open>
  The labels of the machine. \<open>Subscribe ok\<close> is the outcome of the broker's \<^verbatim>\<open>Subscribe\<close>;
  \<open>SelDone\<close>, \<open>SelTimer\<close> and \<open>SelNotify\<close> are the three cases of the \<^verbatim>\<open>select\<close>, each enabled when
  its channel is ready (the timer may fire whenever it is armed).
\<close>

datatype 's bridge_label =
    Subscribe bool | Arrive message | Cancel | SinkChange 's
  | Forward | SelDone | SelTimer | SelNotify

definition timer_case :: "'q queue_ops \<Rightarrow> ('q, 's) bridge \<Rightarrow> ('q, 's) bridge" where
  "timer_case Q s0 =
     (let s = s0\<lparr>br_timer := None\<rparr>; rearm = (\<lambda>s. s\<lparr>br_timer := Some (cf_RetryMax (br_cfg s)), br_pc := Top\<rparr>)
      in if \<not> br_sinkUp s
         then if q_len Q (br_queue s) = 0 then rearm (s\<lparr>br_sinkUp := True\<rparr>)
              else s\<lparr>br_pc := Replaying AtTimer 0\<rparr>
         else rearm s)"

fun bridge_step ::
  "'q queue_ops \<Rightarrow> 's sink_ops \<Rightarrow> ('s \<Rightarrow> 's \<Rightarrow> bool) \<Rightarrow> 's bridge_label \<Rightarrow> ('q, 's) bridge \<Rightarrow>
     ('q, 's) bridge option" where
  "bridge_step Q S E (Subscribe ok) s =
     (if br_pc s \<noteq> NotStarted then None
      else if ok then Some (s\<lparr>br_subscribed := True, br_backoff := cf_RetryMin (br_cfg s),
        br_timer := Some (cf_RetryMax (br_cfg s)), br_pc := Top\<rparr>)
      else Some (s\<lparr>br_pc := Returned\<rparr>))"
| "bridge_step Q S E (Arrive m) s = (if br_subscribed s then Some (onMessage m s) else None)"
| "bridge_step Q S E Cancel s = Some (s\<lparr>br_ctxDone := True\<rparr>)"
| "bridge_step Q S E (SinkChange k) s = (if E (br_sink s) k then Some (s\<lparr>br_sink := k\<rparr>) else None)"
| "bridge_step Q S E Forward s = forward_step Q S s"
| "bridge_step Q S E SelDone s =
     (if br_pc s = Selecting \<and> br_ctxDone s then Some (s\<lparr>br_pc := Draining\<rparr>) else None)"
| "bridge_step Q S E SelTimer s =
     (if br_pc s = Selecting \<and> br_timer s \<noteq> None then Some (timer_case Q s) else None)"
| "bridge_step Q S E SelNotify s =
     (if br_pc s = Selecting \<and> notify (br_in s)
      then Some (s\<lparr>br_in := (br_in s)\<lparr>notify := False\<rparr>, br_pc := Notified\<rparr>) else None)"

text \<open>Runs of the machine, with the labels they take.\<close>

inductive bridge_run ::
  "'q queue_ops \<Rightarrow> 's sink_ops \<Rightarrow> ('s \<Rightarrow> 's \<Rightarrow> bool) \<Rightarrow> ('q, 's) bridge \<Rightarrow> 's bridge_label list \<Rightarrow>
     ('q, 's) bridge \<Rightarrow> bool"
  for Q S E where
  run_Nil: "bridge_run Q S E s [] s"
| run_snoc: "bridge_run Q S E s ls s1 \<Longrightarrow> bridge_step Q S E l s1 = Some s2 \<Longrightarrow>
    bridge_run Q S E s (ls @ [l]) s2"

section \<open>The flow of messages\<close>

text \<open>
  The messages of a topic that are on their way, oldest first: what the sink has accepted,
  then the stored ones, then those in memory. \<open>losses\<close> are the two drop counters of
  \<^verbatim>\<open>Stats\<close>.
\<close>

definition bridge_flow ::
  "('q \<Rightarrow> message list) \<Rightarrow> ('s \<Rightarrow> message list) \<Rightarrow> string \<Rightarrow> ('q, 's) bridge \<Rightarrow> message list" where
  "bridge_flow con acc t s =
     of_topic t (acc (br_sink s)) @ of_topic t (con (br_queue s)) @ fifo (br_in s) t"

definition bridge_losses :: "'q queue_ops \<Rightarrow> ('q, 's) bridge \<Rightarrow> int" where
  "bridge_losses Q s = dropped (br_in s) + q_dropped Q (br_queue s)"

definition bridge_held :: "('q \<Rightarrow> message list) \<Rightarrow> ('s \<Rightarrow> message list) \<Rightarrow> ('q, 's) bridge \<Rightarrow> int" where
  "bridge_held con acc s =
     int (length (acc (br_sink s))) + int (length (con (br_queue s))) + total (br_in s)"

definition flow_ok ::
  "'q queue_ops \<Rightarrow> ('q \<Rightarrow> message list) \<Rightarrow> ('s \<Rightarrow> message list) \<Rightarrow> ('q, 's) bridge \<Rightarrow> message list \<Rightarrow>
     ('q, 's) bridge \<Rightarrow> bool" where
  "flow_ok Q con acc s ins s' \<longleftrightarrow>
     bridge_losses Q s \<le> bridge_losses Q s' \<and> br_lost s' = br_lost s \<and>
     bridge_held con acc s' + bridge_losses Q s' = bridge_held con acc s + bridge_losses Q s + int (length ins) \<and>
     (\<forall>t. subseq (bridge_flow con acc t s') (bridge_flow con acc t s @ of_topic t ins)) \<and>
     (bridge_losses Q s' = bridge_losses Q s \<longrightarrow>
        (\<forall>t. bridge_flow con acc t s' = bridge_flow con acc t s @ of_topic t ins))"

lemma flow_ok_refl: "flow_ok Q con acc s [] s"
  by (simp add: flow_ok_def)

lemma flow_ok_trans:
  assumes 1: "flow_ok Q con acc s ins s1" and 2: "flow_ok Q con acc s1 ins' s2"
  shows "flow_ok Q con acc s (ins @ ins') s2"
proof -
  have "subseq (bridge_flow con acc t s2) (bridge_flow con acc t s @ of_topic t (ins @ ins'))" for t
  proof -
    have "subseq (bridge_flow con acc t s2) (bridge_flow con acc t s1 @ of_topic t ins')"
      using 2 by (simp add: flow_ok_def)
    also have "subseq \<dots> ((bridge_flow con acc t s @ of_topic t ins) @ of_topic t ins')"
      by (rule list_emb_append_mono) (use 1 in \<open>simp_all add: flow_ok_def\<close>)
    finally show ?thesis by simp
  qed
  then show ?thesis using 1 2 unfolding flow_ok_def by simp
qed

text \<open>Only the inbox, the queue, the sink and the loss counter matter for the flow.\<close>

lemma flow_ok_cong:
  assumes "br_in s' = br_in s''" "br_queue s' = br_queue s''" "br_sink s' = br_sink s''" "br_lost s' = br_lost s''"
  shows "flow_ok Q con acc s ins s' \<longleftrightarrow> flow_ok Q con acc s ins s''"
  using assms by (simp add: flow_ok_def bridge_losses_def bridge_held_def bridge_flow_def)

text \<open>Labels that are admissible: arrivals the queue can store and that evict no message of their own topic.\<close>

fun arrival :: "'s bridge_label \<Rightarrow> message list" where
  "arrival (Arrive m) = [m]"
| "arrival _ = []"

inductive admissible_run ::
  "'q queue_ops \<Rightarrow> 's sink_ops \<Rightarrow> ('s \<Rightarrow> 's \<Rightarrow> bool) \<Rightarrow> (message \<Rightarrow> bool) \<Rightarrow> ('q, 's) bridge \<Rightarrow>
     's bridge_label list \<Rightarrow> ('q, 's) bridge \<Rightarrow> bool"
  for Q S E storable where
  adm_Nil: "admissible_run Q S E storable s [] s"
| adm_snoc: "admissible_run Q S E storable s ls s1 \<Longrightarrow> bridge_step Q S E l s1 = Some s2 \<Longrightarrow>
    \<forall>m \<in> set (arrival l). storable m \<and> push_safe m (br_in s1) \<Longrightarrow>
    admissible_run Q S E storable s (ls @ [l]) s2"

text \<open>
  Nothing sleeps for ever: while messages are in memory and the forwarder is not working on
  them, the wake-up token is in the channel; and wherever the forwarder may end up waiting,
  the retry timer is armed.
\<close>

fun awake_pc :: "bridge_pc \<Rightarrow> bool" where
  "awake_pc Top = True"
| "awake_pc Selecting = True"
| "awake_pc (Replaying _ _) = True"
| "awake_pc NotStarted = True"
| "awake_pc _ = False"

fun timed_pc :: "bridge_pc \<Rightarrow> bool" where
  "timed_pc Top = True"
| "timed_pc Selecting = True"
| "timed_pc (Replaying AtTop _) = True"
| "timed_pc Notified = True"
| "timed_pc SendFailed = True"
| "timed_pc _ = False"

definition wakeup_ok :: "('q, 's) bridge \<Rightarrow> bool" where
  "wakeup_ok s \<longleftrightarrow> (awake_pc (br_pc s) \<and> total (br_in s) \<noteq> 0 \<longrightarrow> notify (br_in s)) \<and>
     (timed_pc (br_pc s) \<longrightarrow> br_timer s \<noteq> None)"

lemma notify_push [simp]: "notify (snd (inbox_push m i))"
  by (simp add: inbox_push_def Let_def split: prod.splits)

text \<open>Some number of forwarder steps.\<close>

inductive forwards :: "'q queue_ops \<Rightarrow> 's sink_ops \<Rightarrow> ('q, 's) bridge \<Rightarrow> nat \<Rightarrow> ('q, 's) bridge \<Rightarrow> bool"
  for Q S where
  forwards_0: "forwards Q S s 0 s"
| forwards_Suc: "forward_step Q S s = Some s1 \<Longrightarrow> forwards Q S s1 n s2 \<Longrightarrow> forwards Q S s (Suc n) s2"

lemma spill_cfg [simp]: "br_cfg (spill Q m s) = br_cfg s"
  by (auto simp: spill_def split: prod.splits option.splits)

lemma send_cfg: "send S m s = (e, s') \<Longrightarrow> br_cfg s' = br_cfg s"
  by (auto simp: send_def split: prod.splits option.splits)

lemma replay_iter_cfg: "replay_iter Q S s = (x, s') \<Longrightarrow> br_cfg s' = br_cfg s"
  by (auto simp: replay_iter_def send_def Let_def split: if_splits prod.splits sum.splits option.splits)

lemma after_replay_cfg [simp]: "br_cfg (after_replay Q site ok s) = br_cfg s"
  by (cases site) (simp_all add: fail_def)

lemma forward_step_cfg:
  assumes "forward_step Q S s = Some s'"
  shows "br_cfg s' = br_cfg s"
proof -
  have "br_cfg (replay_step Q S site i s) = br_cfg s" for site i
    by (auto simp: replay_step_def split: prod.splits replay_exit.splits dest: replay_iter_cfg simp del: after_replay.simps)
  moreover have "br_cfg (notified_step Q S s) = br_cfg s"
    by (auto simp: notified_step_def Let_def split: prod.splits option.splits dest: send_cfg)
  moreover have "br_cfg (drain_step Q s) = br_cfg s"
    by (auto simp: drain_step_def split: prod.splits option.splits)
  ultimately show ?thesis
    using assms by (auto simp: forward_step_def fail_def split: bridge_pc.splits if_splits)
qed

lemma bridge_step_cfg: "bridge_step Q S E l s = Some s' \<Longrightarrow> br_cfg s' = br_cfg s"
  by (cases l) (auto simp: onMessage_def timer_case_def Let_def split: if_splits dest: forward_step_cfg)

lemma admissible_cfg: "admissible_run Q S E storable s ls s' \<Longrightarrow> br_cfg s' = br_cfg s"
  by (induction rule: admissible_run.induct) (auto dest: bridge_step_cfg)

locale bridge_env =
  queue_contract Q invar contents storable + sink_contract S sink_inv accepted
  for Q :: "'q queue_ops" and invar contents storable
    and S :: "'s sink_ops" and sink_inv accepted +
  fixes E :: "'s \<Rightarrow> 's \<Rightarrow> bool"
  assumes env_law: "sink_inv k \<Longrightarrow> E k k' \<Longrightarrow> sink_inv k' \<and> accepted k' = accepted k"
begin

definition good :: "('q, 's) bridge \<Rightarrow> bool" where
  "good s \<longleftrightarrow> invar (br_queue s) \<and> sink_inv (br_sink s) \<and> inbox_inv (br_in s) \<and>
     (\<forall>t. \<forall>m \<in> set (fifo (br_in s) t). storable m)"

definition moves :: "('q, 's) bridge \<Rightarrow> message list \<Rightarrow> ('q, 's) bridge \<Rightarrow> bool" where
  "moves s ins s' \<longleftrightarrow> good s' \<and> flow_ok Q contents accepted s ins s'"

lemma moves_trans: "moves s ins s1 \<Longrightarrow> moves s1 ins' s2 \<Longrightarrow> moves s (ins @ ins') s2"
  by (auto simp: moves_def intro: flow_ok_trans)

lemma moves_refl: "good s \<Longrightarrow> moves s [] s"
  by (simp add: moves_def flow_ok_refl)

lemma moves_cong:
  assumes "br_in s' = br_in s''" "br_queue s' = br_queue s''" "br_sink s' = br_sink s''" "br_lost s' = br_lost s''"
  shows "moves s ins s' \<longleftrightarrow> moves s ins s''"
  using assms flow_ok_cong [OF assms] by (simp add: moves_def good_def)

lemma moves_control [simp]:
  "moves s ins (s'\<lparr>br_pc := p\<rparr>) \<longleftrightarrow> moves s ins s'"
  "moves s ins (s'\<lparr>br_sinkUp := u\<rparr>) \<longleftrightarrow> moves s ins s'"
  "moves s ins (s'\<lparr>br_timer := tm\<rparr>) \<longleftrightarrow> moves s ins s'"
  "moves s ins (s'\<lparr>br_backoff := b\<rparr>) \<longleftrightarrow> moves s ins s'"
  "moves s ins (s'\<lparr>br_ctxDone := u\<rparr>) \<longleftrightarrow> moves s ins s'"
  "moves s ins (s'\<lparr>br_subscribed := u\<rparr>) \<longleftrightarrow> moves s ins s'"
  by (rule moves_cong; simp)+

lemma moves_fail [simp]: "moves s ins (fail b s') \<longleftrightarrow> moves s ins s'"
  by (simp add: fail_def)

lemma moves_after_replay [simp]: "moves s ins (after_replay Q site ok s') \<longleftrightarrow> moves s ins s'"
  by (cases site) simp_all

lemma moves_arrive:
  assumes "good s" "storable m" "push_safe m (br_in s)"
  shows "moves s [m] (onMessage m s)"
proof -
  let ?i = "br_in s" and ?i' = "snd (inbox_push m (br_in s))"
  have om: "br_in (onMessage m s) = ?i'" "br_queue (onMessage m s) = br_queue s"
    "br_sink (onMessage m s) = br_sink s" "br_lost (onMessage m s) = br_lost s"
    by (simp_all add: onMessage_def)
  have ok: "step_ok ?i [m] [] ?i'"
    using assms by (intro inbox_push_ok) (auto simp: good_def)
  then have sub: "subseq (fifo ?i' t) (fifo ?i t @ of_topic t [m])" for t
    by (auto simp: step_ok_def)
  have "storable x" if x: "x \<in> set (fifo ?i' t)" for x t
  proof -
    have "x \<in> set (fifo ?i t @ of_topic t [m])" using list_emb_set [OF sub x] by metis
    then show ?thesis using assms(1,2) unfolding good_def by (auto split: if_splits)
  qed
  then have "good (onMessage m s)"
    using assms(1) ok unfolding good_def om step_ok_def by simp
  moreover have "subseq (bridge_flow contents accepted t (onMessage m s))
      (bridge_flow contents accepted t s @ of_topic t [m])" for t
    unfolding bridge_flow_def append_assoc om
    by (intro list_emb_append_mono subseq_order.order_refl) (rule sub)
  moreover have "fifo ?i' t = fifo ?i t @ of_topic t [m]" if "dropped ?i' = dropped ?i" for t
    using ok that unfolding step_ok_def by simp
  then have "bridge_flow contents accepted t (onMessage m s) = bridge_flow contents accepted t s @ of_topic t [m]"
    if "dropped ?i' = dropped ?i" for t
    using that unfolding bridge_flow_def om by simp
  moreover have "dropped ?i \<le> dropped ?i'" "total ?i' + (dropped ?i' - dropped ?i) = total ?i + 1"
    using ok by (simp_all add: step_ok_def)
  ultimately show ?thesis
    unfolding moves_def flow_ok_def bridge_losses_def bridge_held_def om by simp
qed

lemma popped_storable:
  assumes s: "good s" and f: "\<And>t. fifo (br_in s) t = of_topic t [m] @ fifo i t"
  shows "storable m" "\<forall>t. \<forall>x \<in> set (fifo i t). storable x"
proof -
  have all: "storable x" if "x \<in> set (of_topic t [m] @ fifo i t)" for x t
    using s that unfolding good_def f by blast
  show "storable m" by (rule all [of _ "m_topic m"]) simp
  show "\<forall>t. \<forall>x \<in> set (fifo i t). storable x"
    by (intro allI ballI) (rule all, simp only: set_append Un_iff, erule disjI2)
qed

text \<open>A popped message goes behind the stored ones, whatever the sink did before without accepting it.\<close>

lemma moves_spill:
  assumes s: "good s" and pop: "inbox_pop (br_in s) = (Some m, i)"
    and s1: "br_in s1 = i" "br_queue s1 = br_queue s" "sink_inv (br_sink s1)"
      "accepted (br_sink s1) = accepted (br_sink s)" "br_lost s1 = br_lost s"
  shows "moves s [] (spill Q m s1)"
proof (rule inbox_pop_SomeE [OF _ pop])
  show "inbox_inv (br_in s)" using s by (simp add: good_def)
  assume p: "inbox_inv i" "dropped i = dropped (br_in s)" "total i = total (br_in s) - 1"
    "\<And>t. fifo (br_in s) t = of_topic t [m] @ fifo i t"
  have st: "storable m" "\<forall>t. \<forall>x \<in> set (fifo i t). storable x"
    by (rule popped_storable [OF s p(4)])+
  then obtain k q' where q: "q_push Q m (br_queue s1) = (None, q')" "invar q'"
    "k \<le> length (contents (br_queue s))" "contents q' = drop k (contents (br_queue s) @ [m])"
    "q_dropped Q q' = q_dropped Q (br_queue s) + int k"
    using push_law [of "br_queue s1" m] s s1(2) by (auto simp: good_def)
  let ?s' = "spill Q m s1"
  have s': "br_in ?s' = i" "br_queue ?s' = q'" "br_sink ?s' = br_sink s1" "br_lost ?s' = br_lost s"
    by (simp_all add: spill_def q(1) s1(1,3-5))
  have "good ?s'" using st(2) p(1) q(2) s1(3) unfolding good_def s' by blast
  moreover have "subseq (bridge_flow contents accepted t ?s') (bridge_flow contents accepted t s)" for t
  proof -
    let ?c = "contents (br_queue s)"
    have "subseq (of_topic t (drop k (?c @ [m]))) (of_topic t (?c @ [m]))"
      by (intro subseq_filter) (metis append_take_drop_id list_emb_append2 subseq_order.order_refl)
    then have "subseq (of_topic t (drop k (?c @ [m])) @ fifo i t) (of_topic t (?c @ [m]) @ fifo i t)"
      by (rule list_emb_append_mono) simp
    then have "subseq (of_topic t (drop k (?c @ [m])) @ fifo i t) (of_topic t ?c @ of_topic t [m] @ fifo i t)"
      by simp
    then have "subseq (of_topic t (accepted (br_sink s)) @ of_topic t (drop k (?c @ [m])) @ fifo i t)
      (of_topic t (accepted (br_sink s)) @ of_topic t ?c @ of_topic t [m] @ fifo i t)"
      by (intro list_emb_append_mono [OF subseq_order.order_refl])
    then show ?thesis unfolding bridge_flow_def s' s1 q(4) p(4) .
  qed
  moreover have "k = 0 \<longrightarrow> bridge_flow contents accepted t ?s' = bridge_flow contents accepted t s" for t
    unfolding bridge_flow_def s' s1 q(4) p(4) by simp
  moreover have "bridge_losses Q ?s' = bridge_losses Q s + int k"
    by (simp add: bridge_losses_def s' q(5) p(2))
  moreover have "bridge_held contents accepted ?s' + int k = bridge_held contents accepted s"
    using q(3) by (simp add: bridge_held_def s' s1 q(4) p(3))
  ultimately show ?thesis by (simp add: moves_def flow_ok_def s')
qed

text \<open>Sending directly is only done when nothing is stored.\<close>

lemma moves_send:
  assumes s: "good s" and pop: "inbox_pop (br_in s) = (Some m, i)"
    and e: "contents (br_queue s) = []" and snd: "send S m (s\<lparr>br_in := i\<rparr>) = (None, s')"
  shows "moves s [] s'"
proof (rule inbox_pop_SomeE [OF _ pop])
  show "inbox_inv (br_in s)" using s by (simp add: good_def)
  assume p: "inbox_inv i" "dropped i = dropped (br_in s)" "total i = total (br_in s) - 1"
    "\<And>t. fifo (br_in s) t = of_topic t [m] @ fifo i t"
  obtain k where k: "s_send S (br_ctxDone s) m (br_sink s) = (None, k)"
    and s': "s' = s\<lparr>br_in := i, br_sink := k, br_forwarded := br_forwarded s + 1\<rparr>"
    using snd by (auto simp: send_def split: prod.splits option.splits)
  have k': "sink_inv k" "accepted k = accepted (br_sink s) @ [m]"
    using send_ok [OF _ k] s by (auto simp: good_def)
  have "\<forall>t. \<forall>x \<in> set (fifo i t). storable x"
    by (rule popped_storable [OF s p(4)])
  then have "good s'" using s p(1) k' unfolding good_def s' by simp
  moreover have "bridge_flow contents accepted t s' = bridge_flow contents accepted t s" for t
    unfolding bridge_flow_def using p(4) [of t] by (simp add: s' k' e)
  ultimately show ?thesis
    by (simp add: moves_def flow_ok_def bridge_losses_def bridge_held_def s' k' p(2,3))
qed

lemma moves_replay_iter:
  assumes s: "good s" and it: "replay_iter Q S s = (x, s')"
  shows "moves s [] s'"
proof (cases "br_ctxDone s")
  case True
  then show ?thesis using it s by (simp add: replay_iter_def moves_refl)
next
  case False
  have inv: "invar (br_queue s)" "sink_inv (br_sink s)" using s by (simp_all add: good_def)
  from peek_law [OF inv(1)] obtain q where q:
    "q_peek Q (br_queue s) = (Inr (case contents (br_queue s) of [] \<Rightarrow> None | m # _ \<Rightarrow> Some m), q)"
    "invar q" "contents q = contents (br_queue s)" "q_dropped Q q = q_dropped Q (br_queue s)" by blast
  have same: "moves s [] s2" if "br_in s2 = br_in s" "br_queue s2 = q" "sink_inv (br_sink s2)"
    "accepted (br_sink s2) = accepted (br_sink s)" "br_lost s2 = br_lost s" for s2
    using that s q by (simp add: moves_def good_def flow_ok_def bridge_flow_def bridge_losses_def bridge_held_def)
  show ?thesis
  proof (cases "contents (br_queue s)")
    case Nil
    then show ?thesis using it False q(1) same [of s'] inv(2) by (auto simp: replay_iter_def)
  next
    case (Cons m ms)
    obtain q' where a: "q_ack Q q = (None, q')" "invar q'" "contents q' = ms"
      "q_dropped Q q' = q_dropped Q (br_queue s)"
      using ack_law [OF q(2)] Cons q(3,4) by auto
    obtain er k where k: "s_send S False m (br_sink s) = (er, k)" by force
    show ?thesis
    proof (cases er)
      case None
      have k': "sink_inv k" "accepted k = accepted (br_sink s) @ [m]"
        using send_ok [OF inv(2)] k None by auto
      have "s' = s\<lparr>br_queue := q', br_sink := k, br_forwarded := br_forwarded s + 1\<rparr>"
        using it False q(1) Cons k None a(1) by (auto simp: replay_iter_def send_def)
      then show ?thesis using s a k' Cons
        by (auto simp: moves_def good_def flow_ok_def bridge_flow_def bridge_losses_def bridge_held_def)
    next
      case (Some e)
      then have "s' = s\<lparr>br_queue := q, br_sink := k\<rparr>"
        using it False q(1) Cons k by (auto simp: replay_iter_def send_def)
      then show ?thesis using same [of s'] send_fail [OF inv(2)] k Some by auto
    qed
  qed
qed

lemma moves_notified:
  assumes s: "good s"
  shows "moves s [] (notified_step Q S s)"
proof (cases "inbox_pop (br_in s)")
  case (Pair om i)
  have inv: "inbox_inv (br_in s)" and k: "sink_inv (br_sink s)" and q: "invar (br_queue s)"
    using s by (simp_all add: good_def)
  show ?thesis
  proof (cases om)
    case None
    then have "i = br_in s" using inbox_pop_NoneE [OF inv] Pair by metis
    then show ?thesis using Pair None s by (simp add: notified_step_def moves_refl)
  next
    case (Some m)
    note pop = Pair [unfolded Some]
    let ?s1 = "s\<lparr>br_in := i\<rparr>"
    obtain er s2 where snd: "send S m ?s1 = (er, s2)" by force
    consider (keep) "\<not> br_sinkUp s \<or> q_len Q (br_queue s) > 0"
      | (ok) "er = None" "br_sinkUp s" "q_len Q (br_queue s) = 0"
      | (err) e where "er = Some e" "br_sinkUp s" "q_len Q (br_queue s) = 0"
      using len_law [OF q] by (cases er) auto
    then show ?thesis
    proof cases
      case keep
      then show ?thesis using pop moves_spill [OF s pop, of ?s1] k by (auto simp: notified_step_def Let_def)
    next
      case ok
      then show ?thesis using pop snd moves_send [OF s pop, of s2] len_zero [OF q]
        by (simp add: notified_step_def Let_def)
    next
      case err
      obtain k' where k': "s_send S (br_ctxDone s) m (br_sink s) = (Some e, k')" "s2 = ?s1\<lparr>br_sink := k'\<rparr>"
        using snd err(1) by (auto simp: send_def split: prod.splits option.splits)
      then have "moves s [] (spill Q m s2)"
        using moves_spill [OF s pop, of s2] send_fail [OF k k'(1)] by simp
      then show ?thesis using pop snd err by (simp add: notified_step_def Let_def)
    qed
  qed
qed

lemma moves_drain:
  assumes s: "good s"
  shows "moves s [] (drain_step Q s)"
proof (cases "inbox_pop (br_in s)")
  case (Pair om i)
  have inv: "inbox_inv (br_in s)" and k: "sink_inv (br_sink s)"
    using s by (simp_all add: good_def)
  show ?thesis
  proof (cases om)
    case None
    then have "i = br_in s" using inbox_pop_NoneE [OF inv] Pair by metis
    then show ?thesis using Pair None s by (simp add: drain_step_def moves_refl)
  next
    case (Some m)
    then show ?thesis using Pair moves_spill [OF s, of m i "s\<lparr>br_in := i\<rparr>"] k by (simp add: drain_step_def)
  qed
qed

lemma moves_replay_step:
  assumes s: "good s"
  shows "moves s [] (replay_step Q S site i s)"
proof (cases "replay_iter Q S s")
  case (Pair x s')
  then show ?thesis
    using moves_replay_iter [OF s Pair] moves_refl [OF s]
    by (cases x) (simp_all add: replay_step_def del: after_replay.simps)
qed

lemma moves_forward:
  assumes s: "good s" and st: "forward_step Q S s = Some s'"
  shows "moves s [] s'"
  using st moves_refl [OF s] moves_notified [OF s] moves_drain [OF s] moves_replay_step [OF s]
  by (auto simp: forward_step_def split: bridge_pc.splits if_splits)

lemma moves_timer: "good s \<Longrightarrow> moves s [] (timer_case Q s)"
  using moves_refl [of s] by (simp add: timer_case_def Let_def)

lemma moves_take_notify:
  "good s \<Longrightarrow> moves s [] (s\<lparr>br_in := (br_in s)\<lparr>notify := False\<rparr>\<rparr>)"
  by (simp add: moves_def good_def flow_ok_def bridge_flow_def bridge_losses_def bridge_held_def inbox_inv_def)

lemma moves_step:
  assumes s: "good s" and st: "bridge_step Q S E l s = Some s'"
    and adm: "\<forall>m \<in> set (arrival l). storable m \<and> push_safe m (br_in s)"
  shows "moves s (arrival l) s'"
proof (cases l)
  case (Arrive m)
  then show ?thesis using st adm moves_arrive [OF s] by (auto split: if_splits)
next
  case (SinkChange k)
  then show ?thesis using st s env_law [of "br_sink s" k]
    by (auto simp: moves_def good_def flow_ok_def bridge_flow_def bridge_losses_def bridge_held_def split: if_splits)
next
  case Forward
  then show ?thesis using st moves_forward [OF s] by simp
next
  case SelTimer
  then show ?thesis using st moves_timer [OF s] by (auto split: if_splits)
next
  case SelNotify
  then show ?thesis using st moves_take_notify [OF s] by (auto split: if_splits)
qed (use st moves_refl [OF s] in \<open>auto split: if_splits\<close>)

lemma run_moves:
  assumes "admissible_run Q S E storable s ls s'" "good s"
  shows "moves s (concat (map arrival ls)) s'"
  using assms
proof (induction)
  case (adm_Nil s)
  then show ?case by (simp add: moves_refl)
next
  case (adm_snoc s ls s1 l s2)
  then have 1: "moves s (concat (map arrival ls)) s1" by simp
  then have "good s1" by (simp add: moves_def)
  then have "moves s1 (arrival l) s2" using moves_step adm_snoc.hyps by blast
  from moves_trans [OF 1 this] show ?case by simp
qed

lemma wakeup_notified:
  assumes s: "good s" and w: "wakeup_ok s" and pc: "br_pc s = Notified"
  shows "wakeup_ok (notified_step Q S s)"
proof (cases "inbox_pop (br_in s)")
  case (Pair om i)
  have tm: "br_timer s \<noteq> None" using w pc by (simp add: wakeup_ok_def)
  show ?thesis
  proof (cases om)
    case None
    then have "i = br_in s" "total (br_in s) = 0"
      using inbox_pop_NoneE [of "br_in s" i] Pair s by (metis good_def)+
    then show ?thesis using Pair None tm by (simp add: notified_step_def wakeup_ok_def)
  next
    case (Some m)
    then show ?thesis using Pair tm pc
      by (auto simp: notified_step_def wakeup_ok_def Let_def spill_def send_def split: prod.splits option.splits)
  qed
qed

lemma replay_iter_control:
  "replay_iter Q S s = (x, s') \<Longrightarrow> br_in s' = br_in s \<and> br_timer s' = br_timer s \<and> br_pc s' = br_pc s \<and>
     br_cfg s' = br_cfg s \<and> br_ctxDone s' = br_ctxDone s"
  by (auto simp: replay_iter_def send_def Let_def split: if_splits prod.splits sum.splits option.splits)

lemma wakeup_replay:
  assumes w: "wakeup_ok s" and pc: "br_pc s = Replaying site i"
  shows "wakeup_ok (replay_step Q S site i s)"
proof (cases "replay_iter Q S s")
  case (Pair x s')
  from replay_iter_control [OF Pair] show ?thesis
    using w pc Pair
    by (cases site; cases x) (auto simp: replay_step_def wakeup_ok_def fail_def)
qed

lemma wakeup_drain: "br_pc s = Draining \<Longrightarrow> wakeup_ok (drain_step Q s)"
  by (auto simp: drain_step_def wakeup_ok_def spill_def split: prod.splits option.splits)

lemma wakeup_forward:
  assumes s: "good s" "wakeup_ok s" and st: "forward_step Q S s = Some s'"
  shows "wakeup_ok s'"
proof (cases "br_pc s")
  case Top
  then show ?thesis using st s(2) by (auto simp: forward_step_def wakeup_ok_def)
next
  case (Replaying site i)
  then show ?thesis using st wakeup_replay [OF s(2)] by (auto simp: forward_step_def)
next
  case Notified
  then show ?thesis using st wakeup_notified [OF s] by (auto simp: forward_step_def)
next
  case Draining
  then show ?thesis using st wakeup_drain by (auto simp: forward_step_def)
qed (use st s(2) in \<open>auto simp: forward_step_def wakeup_ok_def fail_def split: if_splits\<close>)

lemma wakeup_step:
  assumes s: "good s" "wakeup_ok s" and st: "bridge_step Q S E l s = Some s'"
  shows "wakeup_ok s'"
proof (cases l)
  case Forward
  then show ?thesis using wakeup_forward [OF s] st by simp
qed (use s(2) st in \<open>auto simp: wakeup_ok_def onMessage_def timer_case_def Let_def split: if_splits\<close>)

lemma run_wakeup:
  assumes "admissible_run Q S E storable s ls s'" "good s" "wakeup_ok s"
  shows "wakeup_ok s'"
  using assms
proof (induction)
  case (adm_snoc s ls s1 l s2)
  then have "good s1" using run_moves [of s ls s1] by (simp add: moves_def)
  then show ?case using wakeup_step adm_snoc by blast
qed

text \<open>
  Recovery. \<open>up\<close> describes the sink states in which sends succeed; \<open>resumed\<close> is the state in
  which the forwarder waits again after it has delivered \<open>ms\<close>.
\<close>

definition resumed :: "('q, 's) bridge \<Rightarrow> message list \<Rightarrow> ('q, 's) bridge \<Rightarrow> bool" where
  "resumed s ms s' \<longleftrightarrow> good s' \<and> contents (br_queue s') = [] \<and> br_sinkUp s' \<and> br_pc s' = Selecting \<and>
     accepted (br_sink s') = accepted (br_sink s) @ ms \<and> br_in s' = br_in s"

lemma forwards_1: "forward_step Q S s = Some s1 \<Longrightarrow> forwards Q S s (Suc 0) s1"
  by (rule forwards_Suc [OF _ forwards_0])

lemma forward_after_replay_nil:
  assumes "contents (br_queue s) = []" "good s" "br_sinkUp s"
  shows "\<exists>n s'. forwards Q S (after_replay Q site True s) n s' \<and> resumed s [] s'"
proof -
  have len: "q_len Q (br_queue s) = 0" using len_zero assms by (simp add: good_def)
  let ?s' = "(after_replay Q site True s)\<lparr>br_pc := Selecting\<rparr>"
  have "resumed s [] ?s'"
    using assms len by (cases site) (simp_all add: resumed_def good_def)
  moreover have "\<exists>n. forwards Q S (after_replay Q site True s) n ?s'"
  proof (cases site)
    case AtTop
    then show ?thesis using len forwards_0 [of Q S ?s'] by auto
  next
    case AtTimer
    then have "forward_step Q S (after_replay Q site True s) = Some ?s'"
      using len by (simp add: forward_step_def)
    then show ?thesis using forwards_1 by blast
  qed
  ultimately show ?thesis by blast
qed

lemma replay_one:
  assumes s: "good s" and c: "contents (br_queue s) = m # ms" and ctx: "\<not> br_ctxDone s"
    and snd: "s_send S False m (br_sink s) = (None, k)"
  obtains s' where "replay_iter Q S s = (Continue, s')" "good s'" "contents (br_queue s') = ms"
    "accepted (br_sink s') = accepted (br_sink s) @ [m]" "br_sink s' = k" "br_in s' = br_in s"
    "br_cfg s' = br_cfg s" "br_ctxDone s' = br_ctxDone s" "br_sinkUp s' = br_sinkUp s"
proof -
  have inv: "invar (br_queue s)" "sink_inv (br_sink s)" using s by (simp_all add: good_def)
  from peek_law [OF inv(1)] c obtain q where q: "q_peek Q (br_queue s) = (Inr (Some m), q)"
    "invar q" "contents q = m # ms" by auto
  from ack_law [OF q(2)] q(3) obtain q' where q': "q_ack Q q = (None, q')" "invar q'" "contents q' = ms" by auto
  let ?s' = "s\<lparr>br_queue := q', br_sink := k, br_forwarded := br_forwarded s + 1\<rparr>"
  have "replay_iter Q S s = (Continue, ?s')"
    using q q' snd ctx by (simp add: replay_iter_def send_def)
  then show thesis
    using that [of ?s'] q' send_ok [OF inv(2) snd] s by (simp add: good_def)
qed

lemma replay_delivers:
  assumes "good s" "br_pc s = Replaying site i" "\<not> br_ctxDone s" "0 < cf_ReplayBatch (br_cfg s)"
    and "up (br_sink s)"
    and "\<And>k m. sink_inv k \<Longrightarrow> up k \<Longrightarrow> \<exists>k'. s_send S False m k = (None, k') \<and> up k'"
  shows "\<exists>n s'. forwards Q S s n s' \<and> resumed s (contents (br_queue s)) s'"
  using assms(1-5)
proof (induction "contents (br_queue s)" arbitrary: s site i)
  case Nil
  have b: "br_pc s = Replaying site i \<Longrightarrow> \<exists>s1. forward_step Q S s = Some (after_replay Q site True s1) \<and>
      good s1 \<and> br_sinkUp s1 \<and> contents (br_queue s1) = [] \<and> br_in s1 = br_in s \<and>
      accepted (br_sink s1) = accepted (br_sink s)"
    using peek_law [of "br_queue s"] Nil
    by (auto simp: forward_step_def replay_step_def replay_iter_def good_def)
  then obtain s1 where s1: "forward_step Q S s = Some (after_replay Q site True s1)" "good s1" "br_sinkUp s1"
    "contents (br_queue s1) = []" "br_in s1 = br_in s" "accepted (br_sink s1) = accepted (br_sink s)"
    using Nil by blast
  from forward_after_replay_nil [OF s1(4,2,3), of site] obtain n s' where
    "forwards Q S (after_replay Q site True s1) n s'" "resumed s1 [] s'" by blast
  then show ?case using forwards_Suc [OF s1(1)] s1(5,6) Nil.hyps by (auto simp: resumed_def)
next
  case (Cons m ms)
  have deliver: "\<exists>n s'. forwards Q S t n s' \<and> resumed s (m # ms) s'"
    if t: "good t" "br_pc t = Replaying site' j" "j < cf_ReplayBatch (br_cfg s)" "br_cfg t = br_cfg s"
      "br_queue t = br_queue s" "br_sink t = br_sink s" "br_in t = br_in s" "\<not> br_ctxDone t" for t site' j
  proof -
    obtain k where k: "s_send S False m (br_sink t) = (None, k)" "up k"
      using assms(6) [of "br_sink t" m] Cons.prems(1,5) t(6) by (auto simp: good_def)
    have c: "contents (br_queue t) = m # ms" using Cons.hyps(2) t(5) by simp
    obtain t1 where t1: "replay_iter Q S t = (Continue, t1)" "good t1" "contents (br_queue t1) = ms"
      "accepted (br_sink t1) = accepted (br_sink t) @ [m]" "br_sink t1 = k" "br_in t1 = br_in t"
      "br_cfg t1 = br_cfg t" "br_ctxDone t1 = br_ctxDone t"
      using replay_one [OF t(1) c t(8) k(1)] by metis
    let ?t2 = "t1\<lparr>br_pc := Replaying site' (j + 1)\<rparr>"
    have st: "forward_step Q S t = Some ?t2"
      using t t1(1) by (simp add: forward_step_def replay_step_def)
    have "good ?t2" using t1(2) by (simp add: good_def)
    then obtain n s' where "forwards Q S ?t2 n s'" "resumed ?t2 ms s'"
      using Cons.hyps(1) [of ?t2 site' "j + 1"] t1 t k(2) Cons.prems(4) by auto
    then show ?thesis
      using forwards_Suc [OF st] t1(4,6) t(6,7) by (auto simp: resumed_def)
  qed
  show ?case
  proof (cases "i < cf_ReplayBatch (br_cfg s)")
    case True
    then show ?thesis using deliver [of s site i] Cons by simp
  next
    case False
    have len: "q_len Q (br_queue s) > 0"
      using len_law [of "br_queue s"] Cons.prems(1) Cons.hyps(2) [symmetric] by (simp add: good_def)
    let ?s1 = "after_replay Q site True (s\<lparr>br_sinkUp := True\<rparr>)"
    let ?s2 = "?s1\<lparr>br_pc := Replaying AtTop 0\<rparr>"
    have 1: "forward_step Q S s = Some ?s1"
      using Cons.prems(2) False by (simp add: forward_step_def replay_step_def)
    have 2: "forward_step Q S ?s1 = Some ?s2"
      using len Cons.prems(3) by (cases site) (simp_all add: forward_step_def)
    have "\<exists>n s'. forwards Q S ?s2 n s' \<and> resumed s (m # ms) s'"
      using len Cons.prems by (intro deliver [of _ AtTop 0]) (cases site; simp add: good_def)+
    then show ?thesis using forwards_Suc [OF 1] forwards_Suc [OF 2] Cons.hyps(2) by metis
  qed
qed

lemma drain_ends:
  assumes "good s" "br_pc s = Draining" "total (br_in s) = int n"
  shows "\<exists>s'. forwards Q S s (Suc n) s' \<and> br_pc s' = Returning \<and> moves s [] s' \<and>
     br_sink s' = br_sink s \<and> total (br_in s') = 0 \<and> (\<forall>t. fifo (br_in s') t = [])"
  using assms
proof (induction n arbitrary: s)
  case 0
  have inv: "inbox_inv (br_in s)" using 0 by (simp add: good_def)
  then have p: "inbox_pop (br_in s) = (None, br_in s)" using 0 by (simp add: inbox_pop_def)
  then have "forwards Q S s (Suc 0) (s\<lparr>br_pc := Returning\<rparr>)"
    using 0 by (intro forwards_1) (simp add: forward_step_def drain_step_def)
  moreover have "fifo (br_in s) t = []" for t using inbox_pop_NoneE [OF inv p] by metis
  ultimately show ?case using 0 moves_refl [OF 0(1)]
    by (intro exI [of _ "s\<lparr>br_pc := Returning\<rparr>"]) simp
next
  case (Suc n)
  have inv: "inbox_inv (br_in s)" using Suc.prems by (simp add: good_def)
  obtain om i where p: "inbox_pop (br_in s) = (om, i)" by force
  obtain m where om: "om = Some m"
  proof (cases om)
    case None
    then have "total (br_in s) = 0" using inbox_pop_NoneE [OF inv, of i] p by metis
    then show ?thesis using Suc.prems(3) by simp
  qed (rule that)
  have "total i = total (br_in s) - 1" using inbox_pop_SomeE [OF inv p [unfolded om]] by metis
  then have ti: "total i = int n" using Suc.prems(3) by simp
  let ?s1 = "drain_step Q s"
  have st: "forward_step Q S s = Some ?s1" using Suc.prems by (simp add: forward_step_def)
  have m1: "moves s [] ?s1" by (rule moves_drain [OF Suc.prems(1)])
  have 1: "br_pc ?s1 = Draining" "br_in ?s1 = i" "br_sink ?s1 = br_sink s"
    using p om Suc.prems(2) by (auto simp: drain_step_def spill_def split: prod.splits option.splits)
  from m1 have "good ?s1" by (simp add: moves_def)
  from Suc.IH [OF this 1(1)] ti 1(2) obtain s' where
    "forwards Q S ?s1 (Suc n) s'" "br_pc s' = Returning" "moves ?s1 [] s'" "br_sink s' = br_sink ?s1"
    "total (br_in s') = 0" "\<forall>t. fifo (br_in s') t = []" by auto
  then show ?case using forwards_Suc [OF st, of "Suc n" s'] moves_trans [OF m1, of "[]" s'] 1(3)
    by (intro exI [of _ s']) simp
qed

end

definition mem_sink_env :: "mem_sink \<Rightarrow> mem_sink \<Rightarrow> bool" where
  "mem_sink_env k k' \<longleftrightarrow> k' = SetFail True k \<or> k' = SetFail False k"

interpretation mem_bridge: bridge_env mem_queue_ops mq_inv mq_items "\<lambda>_. True"
  mem_sink_ops "\<lambda>k. ms_max k = 0" ms_messages mem_sink_env
  by unfold_locales (auto simp: mem_sink_env_def SetFail_def)

section \<open>Properties of the configuration and the back-off\<close>

text \<open>The defaults field by field.\<close>

lemma bridge_defaults_eq:
  assumes f: "f' = (if f = [] then ''#'' else f)" and n: "n' = (if n \<le> 0 then 4096 else n)"
    and p: "p' = min (if p \<le> 0 then 64 else p) n'" and lo: "lo' = (if lo \<le> 0 then millis 200 else lo)"
    and hi: "hi' = (if hi \<le> 0 \<or> hi < lo' then seconds 10 else hi)" and r: "r' = (if r \<le> 0 then 256 else r)"
  shows "bridge_defaults (bridge_config.make f n p lo hi r) = bridge_config.make f' n' p' lo' hi' r'"
proof -
  note make = bridge_config.make_def
  have 1: "(if cf_Filter c = [] then c\<lparr>cf_Filter := ''#''\<rparr> else c) = bridge_config.make f' n p lo hi r"
    if "c = bridge_config.make f n p lo hi r" for c using f that by (simp add: make)
  have 2: "(if cf_InboxSize c \<le> 0 then c\<lparr>cf_InboxSize := 4096\<rparr> else c) = bridge_config.make f' n' p lo hi r"
    if "c = bridge_config.make f' n p lo hi r" for c using n that by (simp add: make)
  have 3: "(if cf_PerTopicMax c \<le> 0 then c\<lparr>cf_PerTopicMax := 64\<rparr> else c) =
      bridge_config.make f' n' (if p \<le> 0 then 64 else p) lo hi r"
    if "c = bridge_config.make f' n' p lo hi r" for c using that by (simp add: make)
  have 4: "(if cf_PerTopicMax c > cf_InboxSize c then c\<lparr>cf_PerTopicMax := cf_InboxSize c\<rparr> else c) =
      bridge_config.make f' n' p' lo hi r"
    if "c = bridge_config.make f' n' (if p \<le> 0 then 64 else p) lo hi r" for c
    using p that by (simp add: make min_def)
  have 5: "(if cf_RetryMin c \<le> 0 then c\<lparr>cf_RetryMin := millis 200\<rparr> else c) = bridge_config.make f' n' p' lo' hi r"
    if "c = bridge_config.make f' n' p' lo hi r" for c using lo that by (simp add: make)
  have 6: "(if cf_RetryMax c \<le> 0 \<or> cf_RetryMax c < cf_RetryMin c then c\<lparr>cf_RetryMax := seconds 10\<rparr> else c) =
      bridge_config.make f' n' p' lo' hi' r"
    if "c = bridge_config.make f' n' p' lo' hi r" for c using hi that by (simp add: make)
  have 7: "(if cf_ReplayBatch c \<le> 0 then c\<lparr>cf_ReplayBatch := 256\<rparr> else c) = bridge_config.make f' n' p' lo' hi' r'"
    if "c = bridge_config.make f' n' p' lo' hi' r" for c using r that by (simp add: make)
  show ?thesis unfolding bridge_defaults_def Let_def by (intro 1 2 3 4 5 6 7 refl)
qed

lemma bridge_defaults_fields:
  "cf_Filter (bridge_defaults c) = (if cf_Filter c = [] then ''#'' else cf_Filter c)"
  "cf_InboxSize (bridge_defaults c) = (if cf_InboxSize c \<le> 0 then 4096 else cf_InboxSize c)"
  "cf_PerTopicMax (bridge_defaults c) =
     min (if cf_PerTopicMax c \<le> 0 then 64 else cf_PerTopicMax c) (cf_InboxSize (bridge_defaults c))"
  "cf_RetryMin (bridge_defaults c) = (if cf_RetryMin c \<le> 0 then millis 200 else cf_RetryMin c)"
  "cf_RetryMax (bridge_defaults c) =
     (if cf_RetryMax c \<le> 0 \<or> cf_RetryMax c < cf_RetryMin (bridge_defaults c) then seconds 10 else cf_RetryMax c)"
  "cf_ReplayBatch (bridge_defaults c) = (if cf_ReplayBatch c \<le> 0 then 256 else cf_ReplayBatch c)"
  by (cases c; simp only: bridge_defaults_eq [OF refl refl refl refl refl refl, unfolded bridge_config.make_def]
      bridge_config.select_convs)+

lemma bridge_defaults_sizes:
  "0 < cf_PerTopicMax (bridge_defaults c) \<and> cf_PerTopicMax (bridge_defaults c) \<le> cf_InboxSize (bridge_defaults c) \<and>
   0 < cf_ReplayBatch (bridge_defaults c) \<and> cf_Filter (bridge_defaults c) \<noteq> []"
  by (auto simp: bridge_defaults_fields)

lemma bridge_defaults_retry:
  "cf_RetryMin (bridge_defaults c) = (if cf_RetryMin c \<le> 0 then millis 200 else cf_RetryMin c)"
  "cf_RetryMax (bridge_defaults c) =
     (if cf_RetryMax c \<le> 0 \<or> cf_RetryMax c < cf_RetryMin (bridge_defaults c) then seconds 10 else cf_RetryMax c)"
  by (rule bridge_defaults_fields)+

lemma bridge_New_inbox: "inbox_inv (br_in (bridge_New cfg k q)) \<and> fifo (br_in (bridge_New cfg k q)) t = [] \<and>
   dropped (br_in (bridge_New cfg k q)) = 0 \<and> total (br_in (bridge_New cfg k q)) = 0"
  using bridge_defaults_sizes [of cfg] newInbox_inv
  by (simp add: bridge_New_def Let_def newInbox_def fifo_def)

lemma bridge_New_wakeup: "wakeup_ok (bridge_New cfg k q)"
  by (simp add: wakeup_ok_def bridge_New_def Let_def newInbox_def)

text \<open>
  The retry delays. With a retry limit below a quarter of the 64-bit range, the
  delay of the \<open>n\<close>-th consecutive failure is the initial one doubled \<open>n\<close> times and cut off
  at \<^verbatim>\<open>RetryMax\<close>; it never wraps around, and every failure leaves the timer armed.
\<close>

theorem backoff_doubles:
  assumes "0 < b" "b \<le> cf_RetryMax c" "cf_RetryMax c < 2 ^ 62" "br_cfg s = c"
  shows "(next_backoff c ^^ n) b = min (b * 2 ^ n) (cf_RetryMax c) \<and>
    br_timer (fail ((next_backoff c ^^ n) b) s) = Some (min (b * 2 ^ n) (cf_RetryMax c)) \<and>
    br_backoff (fail ((next_backoff c ^^ n) b) s) = (next_backoff c ^^ Suc n) b"
proof -
  have "(next_backoff c ^^ n) b = min (b * 2 ^ n) (cf_RetryMax c)"
  proof (induction n)
    case 0
    then show ?case using assms by simp
  next
    case (Suc n)
    let ?x = "min (b * 2 ^ n) (cf_RetryMax c)"
    have "0 < ?x" "?x < 2 ^ 62" using assms by auto
    then have "next_backoff c ?x = min (?x * 2) (cf_RetryMax c)"
      by (simp add: next_backoff_def wrap64_id Let_def min_def)
    then show ?case using Suc assms by (auto simp: min_def)
  qed
  then show ?thesis using assms(4) by (simp add: fail_def)
qed

theorem backoff_doubles_witness:
  "\<exists>c. c = bridge_defaults \<lparr>cf_Filter = [], cf_InboxSize = 0, cf_PerTopicMax = 0, cf_RetryMin = 0,
       cf_RetryMax = 0, cf_ReplayBatch = 0\<rparr> \<and>
     (next_backoff c ^^ 3) (cf_RetryMin c) = millis 1600 \<and> (next_backoff c ^^ 6) (cf_RetryMin c) = seconds 10"
proof -
  define c where "c = bridge_defaults \<lparr>cf_Filter = [], cf_InboxSize = 0, cf_PerTopicMax = 0, cf_RetryMin = 0,
       cf_RetryMax = 0, cf_ReplayBatch = 0\<rparr>"
  have v: "cf_RetryMin c = millis 200" "cf_RetryMax c = seconds 10"
    by (simp_all add: c_def bridge_defaults_retry)
  define s where "s = bridge_New c (NewSink 0) (NewQueue 0)"
  have s: "br_cfg s = c" by (simp add: s_def bridge_New_def Let_def) (simp add: c_def bridge_defaults_def)
  show ?thesis
    using backoff_doubles [of "cf_RetryMin c" c s 3] backoff_doubles [of "cf_RetryMin c" c s 6] s v
    by (intro exI [of _ c]) (simp add: c_def)
qed

text \<open>
  The defaults. Whatever the configuration, the defaulted one has a positive per-topic
  bound within the inbox size, a positive batch and positive delays. The two delays are in
  order exactly when the initial delay is at most the configured or the built-in limit: a
  \<^verbatim>\<open>RetryMin\<close> above ten seconds with no larger \<^verbatim>\<open>RetryMax\<close> ends up above \<^verbatim>\<open>RetryMax\<close>.
\<close>

theorem bridge_defaults_ok:
  "let c' = bridge_defaults c
   in 0 < cf_PerTopicMax c' \<and> cf_PerTopicMax c' \<le> cf_InboxSize c' \<and> 0 < cf_ReplayBatch c' \<and>
      cf_Filter c' \<noteq> [] \<and> 0 < cf_RetryMin c' \<and> 0 < cf_RetryMax c' \<and>
      (cf_RetryMin c' \<le> cf_RetryMax c' \<longleftrightarrow> cf_RetryMin c' \<le> seconds 10 \<or> cf_RetryMin c' \<le> cf_RetryMax c)"
  using bridge_defaults_sizes [of c] by (auto simp: Let_def bridge_defaults_retry)

text \<open>
  C16: the end of a shutdown. \<^verbatim>\<open>Run\<close> drains the inbox into the queue before its deferred
  unsubscribe takes effect, so that a message which the broker delivers in between stays in
  memory: from a fresh bridge there is a run to the stopped state after which the message is
  neither at the sink, nor in the queue, nor counted by any counter.
\<close>

theorem shutdown_loses_late_arrival:
  "\<exists>s'. bridge_run mem_queue_ops mem_sink_ops mem_sink_env
     (bridge_New cfg (NewSink 0) (NewQueue 0))
     [Subscribe True, Forward, Cancel, SelDone, Forward, Arrive m, Forward] s' \<and>
     br_pc s' = Returned \<and> fifo (br_in s') (m_topic m) = [m] \<and> ms_messages (br_sink s') = [] \<and>
     mq_items (br_queue s') = [] \<and> bridge_losses mem_queue_ops s' = 0 \<and> br_lost s' = 0"
proof -
  define s where "s = bridge_New cfg (NewSink 0) (NewQueue 0)"
  let ?c = "br_cfg s"
  let ?s1 = "s\<lparr>br_subscribed := True, br_backoff := cf_RetryMin ?c, br_timer := Some (cf_RetryMax ?c), br_pc := Top\<rparr>"
  let ?s5 = "?s1\<lparr>br_ctxDone := True, br_pc := Returning\<rparr>"
  let ?s6 = "onMessage m ?s5"
  let ?s7 = "?s6\<lparr>br_subscribed := False, br_pc := Returned\<rparr>"
  have v: "br_pc s = NotStarted" "br_queue s = NewQueue 0" "br_sink s = NewSink 0" "br_lost s = 0"
    "br_in s = newInbox (cf_PerTopicMax ?c) (cf_InboxSize ?c)" "0 < cf_PerTopicMax ?c" "0 < cf_InboxSize ?c"
    using bridge_defaults_sizes [of cfg] by (simp_all add: s_def bridge_New_def Let_def)
  have pop: "inbox_pop (br_in s) = (None, br_in s)" by (simp add: v newInbox_def inbox_pop_def)
  have push: "inbox_push m (br_in s) = (0, (br_in s)\<lparr>topics := [m_topic m \<mapsto> [m]], ring := [m_topic m],
      total := 1, notify := True\<rparr>)"
    using v(6,7) by (subst inbox_push_room) (simp_all add: v newInbox_def fifo_def)
  note R = run_Nil run_snoc
  let ?R = "bridge_run mem_queue_ops mem_sink_ops mem_sink_env"
  have 1: "?R s [Subscribe True] ?s1" using R(2) [OF R(1), of _ _ _ "Subscribe True" s ?s1] by (simp add: v)
  have 2: "?R s [Subscribe True, Forward] (?s1\<lparr>br_pc := Selecting\<rparr>)"
    using R(2) [OF 1, of Forward] by (simp add: forward_step_def v mem_queue_ops_def mq_Len_def NewQueue_def)
  have 3: "?R s [Subscribe True, Forward, Cancel] (?s1\<lparr>br_pc := Selecting, br_ctxDone := True\<rparr>)"
    using R(2) [OF 2, of Cancel] by simp
  have 4: "?R s [Subscribe True, Forward, Cancel, SelDone] (?s1\<lparr>br_ctxDone := True, br_pc := Draining\<rparr>)"
    using R(2) [OF 3, of SelDone] by simp
  have 5: "?R s [Subscribe True, Forward, Cancel, SelDone, Forward] ?s5"
    using R(2) [OF 4, of Forward] by (simp add: forward_step_def drain_step_def pop)
  have 6: "?R s [Subscribe True, Forward, Cancel, SelDone, Forward, Arrive m] ?s6"
    using R(2) [OF 5, of "Arrive m"] by simp
  have 7: "?R s [Subscribe True, Forward, Cancel, SelDone, Forward, Arrive m, Forward] ?s7"
    using R(2) [OF 6, of Forward] by (simp add: forward_step_def onMessage_def)
  moreover have "fifo (br_in ?s7) (m_topic m) = [m]" "dropped (br_in ?s7) = 0" "br_queue ?s7 = NewQueue 0"
    "br_sink ?s7 = NewSink 0" "br_lost ?s7 = 0"
    by (simp_all add: onMessage_def push) (simp_all add: fifo_def v newInbox_def)
  ultimately show ?thesis
    by (intro exI [of _ ?s7])
      (simp add: s_def bridge_losses_def NewQueue_def NewSink_def mem_queue_ops_def)
qed

end
