(* ===== verification/Go_Strconv.thy ===== *)
theory Go_Strconv
  imports Plant_Prelude
begin

text \<open>
  The parts of Go's \<^verbatim>\<open>strconv\<close> and \<^verbatim>\<open>strings\<close> packages that read and print numbers in text
  (the queue's \<^verbatim>\<open>head\<close> file, JSON timestamps, environment variables), with the round trip.
\<close>

text \<open>\<^verbatim>\<open>strconv.FormatUint\<close> and \<^verbatim>\<open>FormatInt\<close> in base 10.\<close>

fun FormatUint :: "nat \<Rightarrow> string" where
  "FormatUint n = (if n < 10 then [char_of (48 + n)] else FormatUint (n div 10) @ [char_of (48 + n mod 10)])"

declare FormatUint.simps [simp del]

definition FormatInt :: "int \<Rightarrow> string" where
  "FormatInt i = (if i < 0 then CHR ''-'' # FormatUint (nat (- i)) else FormatUint (nat i))"

text \<open>\<^verbatim>\<open>strconv.ParseUint\<close> and \<^verbatim>\<open>ParseInt\<close> with base 10 and 64 bits; \<open>None\<close> is any error.\<close>

definition digit_of :: "char \<Rightarrow> nat option" where
  "digit_of c = (let k = of_char c :: nat in if 48 \<le> k \<and> k \<le> 57 then Some (k - 48) else None)"

fun parse_digits :: "nat \<Rightarrow> string \<Rightarrow> nat option" where
  "parse_digits acc [] = Some acc"
| "parse_digits acc (c # cs) =
     (case digit_of c of None \<Rightarrow> None | Some d \<Rightarrow> parse_digits (acc * 10 + d) cs)"

definition ParseUint :: "string \<Rightarrow> nat option" where
  "ParseUint s =
     (if s = [] then None
      else case parse_digits 0 s of None \<Rightarrow> None | Some n \<Rightarrow> if n < 2 ^ 64 then Some n else None)"

definition ParseInt :: "string \<Rightarrow> int option" where
  "ParseInt s =
     (case s of
        [] \<Rightarrow> None
      | c # cs \<Rightarrow>
          (let neg = (c = CHR ''-''); body = (if c = CHR ''-'' \<or> c = CHR ''+'' then cs else s)
           in case ParseUint body of
                None \<Rightarrow> None
              | Some n \<Rightarrow> if neg then (if n \<le> 2 ^ 63 then Some (- int n) else None)
                          else (if n < 2 ^ 63 then Some (int n) else None)))"

text \<open>\<^verbatim>\<open>strings.Fields\<close> on ASCII text: the maximal runs of characters that are not white space.\<close>

definition is_space :: "char \<Rightarrow> bool" where
  "is_space c \<longleftrightarrow> of_char c \<in> {9, 10, 11, 12, 13, 32 :: nat}"

text \<open>\<^verbatim>\<open>strings.TrimSpace\<close> on ASCII text.\<close>

definition TrimSpace :: "string \<Rightarrow> string" where
  "TrimSpace s = rev (dropWhile is_space (rev (dropWhile is_space s)))"

fun fields_acc :: "string \<Rightarrow> string \<Rightarrow> string list" where
  "fields_acc cur [] = (if cur = [] then [] else [cur])"
| "fields_acc cur (c # cs) =
     (if is_space c then (if cur = [] then fields_acc [] cs else cur # fields_acc [] cs)
      else fields_acc (cur @ [c]) cs)"

definition Fields :: "string \<Rightarrow> string list" where
  "Fields s = fields_acc [] s"

lemma digit_char: "d < 10 \<Longrightarrow> digit_of (char_of (48 + d)) = Some d \<and> \<not> is_space (char_of (48 + d)) \<and>
   char_of (48 + d) \<noteq> CHR ''-'' \<and> char_of (48 + d) \<noteq> CHR ''+''"
proof -
  assume d: "d < 10"
  then have k: "(of_char (char_of (48 + d) :: char) :: nat) = 48 + d" by simp
  have ne: "char_of (48 + d) \<noteq> c" if "(of_char c :: nat) < 48" for c
  proof
    assume "char_of (48 + d) = c"
    with k have "(of_char c :: nat) = 48 + d" by simp
    with that show False by simp
  qed
  have "char_of (48 + d) \<noteq> CHR ''-''" "char_of (48 + d) \<noteq> CHR ''+''"
    by (rule ne, simp)+
  then show ?thesis using d k by (simp add: digit_of_def is_space_def)
qed

lemma parse_digits_append: "parse_digits a (xs @ ys) = (case parse_digits a xs of None \<Rightarrow> None | Some b \<Rightarrow> parse_digits b ys)"
  by (induction a xs rule: parse_digits.induct) (auto split: option.splits)

lemma FormatUint_ne: "FormatUint n \<noteq> []"
  by (subst FormatUint.simps) simp

lemma FormatUint_chars: "c \<in> set (FormatUint n) \<Longrightarrow> \<not> is_space c \<and> c \<noteq> CHR ''-'' \<and> c \<noteq> CHR ''+''"
proof (induction n rule: FormatUint.induct)
  case (1 n)
  then show ?case
    using digit_char [of n] digit_char [of "n mod 10"]
    by (subst (asm) (2) FormatUint.simps) (auto split: if_splits)
qed

lemma parse_FormatUint: "parse_digits 0 (FormatUint n) = Some n"
proof (induction n rule: FormatUint.induct)
  case (1 n)
  then show ?case
    using digit_char [of n] digit_char [of "n mod 10"]
    by (subst FormatUint.simps) (auto simp: parse_digits_append)
qed

lemma ParseUint_Format: "n < 2 ^ 64 \<Longrightarrow> ParseUint (FormatUint n) = Some n"
  by (simp add: ParseUint_def parse_FormatUint FormatUint_ne)

lemma ParseInt_Format: "ParseInt (FormatInt (int n)) = (if n < 2 ^ 63 then Some (int n) else None)"
proof -
  have p: "ParseUint (FormatUint n) = (if n < 2 ^ 64 then Some n else None)"
    by (simp add: ParseUint_def parse_FormatUint FormatUint_ne)
  show ?thesis
    using FormatUint_ne [of n] FormatUint_chars [of _ n] p
    by (cases "FormatUint n") (auto simp: ParseInt_def FormatInt_def Let_def)
qed

lemma fields_acc_word: "\<forall>c \<in> set w. \<not> is_space c \<Longrightarrow> fields_acc cur (w @ rest) = fields_acc (cur @ w) rest"
  by (induction w arbitrary: cur) auto

lemma ParseUint_Format_eq: "ParseUint (FormatUint n) = (if n < 2 ^ 64 then Some n else None)"
  by (simp add: ParseUint_def parse_FormatUint FormatUint_ne)

lemma ParseInt_FormatInt:
  assumes "- (2 ^ 63) \<le> i" "i < 2 ^ 63"
  shows "ParseInt (FormatInt i) = Some i"
proof (cases "i < 0")
  case True
  then have "nat (- i) \<le> 2 ^ 63" "nat (- i) < 2 ^ 64" using assms by auto
  then show ?thesis using True by (simp add: ParseInt_def FormatInt_def ParseUint_Format_eq)
next
  case False
  then show ?thesis using ParseInt_Format [of "nat i"] assms by simp
qed

lemma dropWhile_none: "(\<forall>c \<in> set w. \<not> P c) \<Longrightarrow> dropWhile P w = w"
  by (cases w) simp_all

lemma TrimSpace_id: "(\<forall>c \<in> set w. \<not> is_space c) \<Longrightarrow> TrimSpace w = w"
  by (simp add: TrimSpace_def dropWhile_none)

lemma FormatInt_word: "FormatInt i \<noteq> [] \<and> TrimSpace (FormatInt i) = FormatInt i"
proof -
  have "\<forall>c \<in> set (FormatInt i). \<not> is_space c"
    using FormatUint_chars by (auto simp: FormatInt_def is_space_def)
  then show ?thesis by (simp add: TrimSpace_id FormatUint_ne) (simp add: FormatInt_def FormatUint_ne)
qed

end
