(* ===== verification/Disk_Record.thy ===== *)
theory Disk_Record
  imports Ports Go_Strconv
begin

text \<open>
  The record format of the on-disk queue, \<^verbatim>\<open>internal/adapters/diskqueue/diskqueue.go\<close>:
  \<^verbatim>\<open>encode\<close>, \<^verbatim>\<open>decode\<close>, the CRC and the scan of a segment file, with the round trip and
  what the scan makes of a file that ends in a torn record; and the text format of the read
  cursor in the \<^verbatim>\<open>head\<close> file.
\<close>

unbundle bit_operations_syntax

section \<open>Records\<close>

definition recHeaderLen :: nat where
  "recHeaderLen = 8"

definition maxRecordBody :: nat where
  "maxRecordBody = 16777216"

lemmas dq_consts = recHeaderLen_def maxRecordBody_def

text \<open>\<^verbatim>\<open>crc32.ChecksumIEEE\<close>: the reflected CRC with polynomial \<^verbatim>\<open>0xEDB88320\<close>.\<close>

definition crc_bit :: "uint32 \<Rightarrow> uint32" where
  "crc_bit c = (if bit c 0 then drop_bit 1 c XOR 0xEDB88320 else drop_bit 1 c)"

definition crc_byte :: "uint32 \<Rightarrow> byte \<Rightarrow> uint32" where
  "crc_byte c b = (crc_bit ^^ 8) (c XOR ucast b)"

definition ChecksumIEEE :: "byte list \<Rightarrow> uint32" where
  "ChecksumIEEE bs = NOT (foldl crc_byte (NOT 0) bs)"

definition encode_body :: "message \<Rightarrow> byte list" where
  "encode_body m =
     (let topic0 = bytes_of_string (m_topic m);
          topic = (if length topic0 > 65535 then take 65535 topic0 else topic0)
      in put_uint16 (of_nat (length topic)) @ topic @ put_uint64 (of_int (m_at m)) @
         [if m_retain m then 1 else 0] @ m_payload m)"

definition encode :: "message \<Rightarrow> byte list" where
  "encode m =
     (let body = encode_body m
      in put_uint32 (of_nat (length body)) @ put_uint32 (ChecksumIEEE body) @ body)"

definition decode :: "byte list \<Rightarrow> port_error + message" where
  "decode body =
     (if length body < 2 then Inl ErrCorrupt
      else let tl = unat (get_uint16 body)
           in if length body < 2 + tl + 9 then Inl ErrCorrupt
              else let off = 2 + tl
                   in Inr \<lparr>m_topic = string_of_bytes (take tl (drop 2 body)),
                           m_payload = drop (off + 9) body,
                           m_retain = (body ! (off + 8) = 1),
                           m_at = sint (get_uint64 (drop off body))\<rparr>)"

section \<open>Scanning\<close>

text \<open>
  The loop of \<^verbatim>\<open>scanSegment\<close> from the current position on: how many bytes valid records
  occupy and how many records they are.
\<close>

definition record_ok :: "byte list \<Rightarrow> bool" where
  "record_ok bs \<longleftrightarrow>
     recHeaderLen \<le> length bs \<and> unat (get_uint32 bs) \<noteq> 0 \<and> unat (get_uint32 bs) \<le> maxRecordBody \<and>
     recHeaderLen + unat (get_uint32 bs) \<le> length bs \<and>
     ChecksumIEEE (take (unat (get_uint32 bs)) (drop recHeaderLen bs)) = get_uint32 (drop 4 bs)"

function scan_loop :: "byte list \<Rightarrow> nat \<times> nat" where
  "scan_loop bs =
     (if \<not> record_ok bs then (0, 0)
      else let n = recHeaderLen + unat (get_uint32 bs); (off, records) = scan_loop (drop n bs)
           in (n + off, records + 1))"
  by pat_completeness auto

termination
  by (relation "measure length") (auto simp: record_ok_def recHeaderLen_def)

declare scan_loop.simps [simp del]

text \<open>The messages in a file: the specification of what reading record after record yields.\<close>

function stored :: "byte list \<Rightarrow> message list" where
  "stored bs =
     (if \<not> record_ok bs then []
      else let n = unat (get_uint32 bs)
           in (case decode (take n (drop recHeaderLen bs)) of
                 Inl _ \<Rightarrow> []
               | Inr m \<Rightarrow> m # stored (drop (recHeaderLen + n) bs)))"
  by pat_completeness auto

termination
  by (relation "measure length") (auto simp: record_ok_def recHeaderLen_def)

declare stored.simps [simp del]

section \<open>Round trip\<close>

text \<open>
  The messages the format can hold: the topic length fits 16 bits, the time is an
  \<^verbatim>\<open>int64\<close> of nanoseconds, the body is within the bound that the readers accept.
\<close>

definition dq_storable :: "message \<Rightarrow> bool" where
  "dq_storable m \<longleftrightarrow>
     length (m_topic m) \<le> 65535 \<and> - (2 ^ 63) \<le> m_at m \<and> m_at m < 2 ^ 63 \<and>
     11 + length (m_topic m) + length (m_payload m) \<le> maxRecordBody"

lemma length_encode_body:
  "length (encode_body m) = 11 + min 65535 (length (m_topic m)) + length (m_payload m)"
  by (simp add: encode_body_def Let_def)

lemma length_encode: "length (encode m) = recHeaderLen + length (encode_body m)"
  by (simp add: encode_def Let_def recHeaderLen_def)

lemma sint_of_int_64: "sint (of_int x :: uint64) = wrap64 x"
  using int_word_sint [where ?'a = 64, of x] by (simp add: wrap64_def)

lemma decode_encode_wrap:
  assumes t: "length (m_topic m) \<le> 65535"
  shows "decode (encode_body m) = Inr (m\<lparr>m_at := wrap64 (m_at m)\<rparr>)"
proof -
  let ?t = "bytes_of_string (m_topic m)"
  have b: "encode_body m = put_uint16 (of_nat (length ?t)) @ ?t @ put_uint64 (of_int (m_at m)) @
      [if m_retain m then 1 else 0] @ m_payload m"
    using t by (simp add: encode_body_def Let_def)
  have tl: "unat (get_uint16 (encode_body m)) = length ?t"
    using t by (simp add: b unat_of_nat_uint16)
  have "take (length ?t) (drop 2 (encode_body m)) = ?t" by (simp add: b)
  moreover have "drop (2 + length ?t) (encode_body m) = put_uint64 (of_int (m_at m)) @
      [if m_retain m then 1 else 0] @ m_payload m"
    by (simp add: b)
  moreover have "drop (2 + length ?t + 9) (encode_body m) = m_payload m" by (simp add: b)
  moreover have "encode_body m ! (2 + length ?t + 8) = (if m_retain m then 1 else 0)"
    by (simp add: b nth_append)
  ultimately show ?thesis
    using tl t sint_of_int_64 [of "m_at m"] by (simp add: decode_def length_encode_body)
qed

lemma decode_encode_body: "dq_storable m \<Longrightarrow> decode (encode_body m) = Inr m"
  using decode_encode_wrap [of m] wrap64_id [of "m_at m"] by (simp add: dq_storable_def)

lemma get_encode:
  assumes "length (encode_body m) < 4294967296"
  shows "unat (get_uint32 (encode m @ rest)) = length (encode_body m)"
    "get_uint32 (drop 4 (encode m @ rest)) = ChecksumIEEE (encode_body m)"
    "drop recHeaderLen (encode m @ rest) = encode_body m @ rest"
  using assms by (simp_all add: encode_def Let_def recHeaderLen_def unat_of_nat_uint32)

lemma storable_body: "dq_storable m \<Longrightarrow> length (encode_body m) \<le> maxRecordBody"
  by (simp add: dq_storable_def length_encode_body maxRecordBody_def)

lemma record_ok_encode: "dq_storable m \<Longrightarrow> record_ok (encode m @ rest)"
  using get_encode [of m rest] storable_body [of m]
  by (simp add: record_ok_def length_encode length_encode_body maxRecordBody_def)

text \<open>A proper prefix of a record is never a record.\<close>

lemma torn_not_ok:
  assumes "dq_storable m" "k < length (encode m)"
  shows "\<not> record_ok (take k (encode m))"
proof (cases "k < recHeaderLen")
  case True
  then show ?thesis by (simp add: record_ok_def)
next
  case False
  then obtain j where "k = recHeaderLen + j" by (metis le_Suc_ex not_less)
  then have "take k (encode m) = put_uint32 (of_nat (length (encode_body m))) @
      put_uint32 (ChecksumIEEE (encode_body m)) @ take j (encode_body m)"
    by (simp add: encode_def Let_def recHeaderLen_def)
  moreover have "length (encode_body m) < 4294967296"
    using storable_body [OF assms(1)] by (simp add: maxRecordBody_def)
  ultimately have "unat (get_uint32 (take k (encode m))) = length (encode_body m)"
    by (simp add: unat_of_nat_uint32)
  then show ?thesis using assms(2) by (simp add: record_ok_def length_encode)
qed

lemma scan_encoded:
  assumes "\<forall>m \<in> set ms. dq_storable m" "\<not> record_ok junk"
  shows "scan_loop (concat (map encode ms) @ junk) = (length (concat (map encode ms)), length ms)"
  using assms
proof (induction ms)
  case Nil
  then show ?case by (simp add: scan_loop.simps)
next
  case (Cons m ms)
  have n: "recHeaderLen + unat (get_uint32 (encode m @ concat (map encode ms) @ junk)) = length (encode m)"
    using Cons.prems get_encode [of m] storable_body [of m] by (simp add: length_encode maxRecordBody_def)
  show ?case
    using Cons record_ok_encode [of m "concat (map encode ms) @ junk"] n
    by (subst scan_loop.simps) (simp add: Let_def)
qed

lemma stored_encoded:
  assumes "\<forall>m \<in> set ms. dq_storable m" "\<not> record_ok junk"
  shows "stored (concat (map encode ms) @ junk) = ms"
  using assms
proof (induction ms)
  case Nil
  then show ?case by (simp add: stored.simps)
next
  case (Cons m ms)
  let ?bs = "encode m @ concat (map encode ms) @ junk"
  have g: "unat (get_uint32 ?bs) = length (encode_body m)" "drop recHeaderLen ?bs = encode_body m @ concat (map encode ms) @ junk"
    using Cons.prems get_encode [of m "concat (map encode ms) @ junk"] storable_body [of m]
    by (simp_all add: maxRecordBody_def)
  have "drop (recHeaderLen + length (encode_body m)) ?bs = concat (map encode ms) @ junk"
    by (simp flip: length_encode)
  then show ?case
    using Cons record_ok_encode [of m "concat (map encode ms) @ junk"] g decode_encode_body [of m]
    by (subst stored.simps) (simp add: Let_def)
qed

lemma not_ok_Nil [simp]: "\<not> record_ok []"
  by (simp add: record_ok_def recHeaderLen_def)

text \<open>
  Records. A message whose topic is at most 65535 bytes decodes to itself except that
  its time is reduced to 64-bit nanoseconds: times outside the years 1678 to 2262, among
  them the zero time that marks a message without a time, come back as another time.
\<close>

theorem record_roundtrip:
  assumes "length (m_topic m) \<le> 65535"
  shows "decode (encode_body m) = Inr (m\<lparr>m_at := wrap64 (m_at m)\<rparr>) \<and>
    (dq_storable m \<longrightarrow> wrap64 (m_at m) = m_at m) \<and> wrap64 zero_time \<noteq> zero_time"
  using decode_encode_wrap [OF assms] wrap64_id [of "m_at m"]
  by (simp add: dq_storable_def) (simp add: wrap64_def zero_time_def)

theorem record_roundtrip_witness:
  "decode (encode_body \<lparr>m_topic = ''t'', m_payload = [7], m_retain = True, m_at = zero_time\<rparr>) =
     Inr \<lparr>m_topic = ''t'', m_payload = [7], m_retain = True, m_at = - 6795364578871345152\<rparr>"
  using record_roundtrip [of "\<lparr>m_topic = ''t'', m_payload = [7], m_retain = True, m_at = zero_time\<rparr>"]
  by (simp add: wrap64_def zero_time_def)

section \<open>The head file\<close>

definition format_head :: "nat \<Rightarrow> int \<Rightarrow> string" where
  "format_head sid off = FormatUint sid @ '' '' @ FormatInt off @ [char_of (10 :: nat)]"

definition parse_head :: "string \<Rightarrow> nat \<times> int" where
  "parse_head b =
     (case Fields b of
        [f0, f1] \<Rightarrow> (case (ParseUint f0, ParseInt f1) of
                      (Some i, Some off) \<Rightarrow> if off < 0 then (0, 0) else (i, off)
                    | _ \<Rightarrow> (0, 0))
      | _ \<Rightarrow> (0, 0))"

lemma parse_format_head:
  assumes "sid < 2 ^ 64"
  shows "parse_head (format_head sid (int off)) = (if off < 2 ^ 63 then (sid, int off) else (0, 0))"
proof -
  have "is_space CHR '' ''" "is_space (char_of (10 :: nat))"
    by (simp_all add: is_space_def)
  moreover have "FormatInt (int off) = FormatUint off" by (simp add: FormatInt_def)
  ultimately have "Fields (format_head sid (int off)) = [FormatUint sid, FormatInt (int off)]"
    using fields_acc_word [of "FormatUint sid" "[]"] fields_acc_word [of "FormatUint off" "[]"]
      FormatUint_chars [of _ sid] FormatUint_chars [of _ off] FormatUint_ne
    by (simp add: Fields_def format_head_def)
  then show ?thesis
    using ParseUint_Format [OF assms(1)] ParseInt_Format [of off] by (simp add: parse_head_def)
qed

end
