(* ===== verification/Disk_Queue.thy ===== *)
theory Disk_Queue
  imports Disk_Record "HOL-Library.AList"
begin

text \<open>
  The on-disk queue, \<^verbatim>\<open>internal/adapters/diskqueue/diskqueue.go\<close>: segments, the read
  cursor, the byte budget, recovery. The queue's directory is part of the state; every
  system call that can fail consults a schedule of outcomes, so that the error paths of the
  code are branches of the model. The queue is shown to implement the contract of the
  \<^verbatim>\<open>Queue\<close> port, and recovery after a crash to restore what was stored.
\<close>

section \<open>The directory\<close>

text \<open>
  The segment files by id (the file name is the id in decimal between a fixed prefix and
  suffix), the \<^verbatim>\<open>head\<close> file, and the outcomes of the coming system calls: \<open>None\<close> is success,
  \<open>Some k\<close> a failure, of which a write or a read has got \<open>k\<close> bytes done. When the schedule is
  empty, calls succeed.
\<close>

record disk_fs =
  fs_segs :: "(nat \<times> byte list) list"
  fs_head :: "string option"
  fs_faults :: "nat option list"

definition sys_call :: "disk_fs \<Rightarrow> nat option \<times> disk_fs" where
  "sys_call fs = (case fs_faults fs of [] \<Rightarrow> (None, fs) | f # r \<Rightarrow> (f, fs\<lparr>fs_faults := r\<rparr>))"

definition fs_file :: "disk_fs \<Rightarrow> nat \<Rightarrow> byte list option" where
  "fs_file fs i = map_of (fs_segs fs) i"

definition fs_write :: "nat \<Rightarrow> byte list \<Rightarrow> disk_fs \<Rightarrow> disk_fs" where
  "fs_write i bs fs = fs\<lparr>fs_segs := AList.update i bs (fs_segs fs)\<rparr>"

definition fs_remove :: "nat \<Rightarrow> disk_fs \<Rightarrow> disk_fs" where
  "fs_remove i fs = fs\<lparr>fs_segs := AList.delete i (fs_segs fs)\<rparr>"

definition file_bytes :: "disk_fs \<Rightarrow> nat \<Rightarrow> byte list" where
  "file_bytes fs i = (case fs_file fs i of None \<Rightarrow> [] | Some bs \<Rightarrow> bs)"

text \<open>\<^verbatim>\<open>File.Truncate\<close>: cuts the file or extends it with zero bytes.\<close>

definition truncate_to :: "nat \<Rightarrow> byte list \<Rightarrow> byte list" where
  "truncate_to n bs = take n bs @ replicate (n - length bs) 0"

section \<open>State\<close>

record segment =
  seg_id :: nat
  seg_size :: int
  seg_records :: int

text \<open>An open file, by the id of its segment, or one that has been closed and not reopened.\<close>

datatype handle = Handle nat | ClosedHandle

record disk_queue =
  dq_fs :: disk_fs
  dq_MaxBytes :: int
  dq_SegmentBytes :: int
  dq_Sync :: bool
  dq_segments :: "segment list"
  dq_writer :: handle
  dq_reader :: "handle option"
  dq_headOff :: int
  dq_count :: int
  dq_bytes :: int
  dq_dropped :: int
  dq_peeked :: "message option"
  dq_peekLen :: int
  dq_closed :: bool

definition DefaultMaxBytes :: int where
  "DefaultMaxBytes = 67108864"

definition DefaultSegmentBytes :: int where
  "DefaultSegmentBytes = 4194304"

section \<open>Operations\<close>

definition readHead :: "disk_fs \<Rightarrow> (nat \<times> int) \<times> disk_fs" where
  "readHead fs =
     (case sys_call fs of
        (Some _, fs1) \<Rightarrow> ((0, 0), fs1)
      | (None, fs1) \<Rightarrow> ((case fs_head fs1 of None \<Rightarrow> (0, 0) | Some b \<Rightarrow> parse_head b), fs1))"

definition writeHead :: "disk_queue \<Rightarrow> port_error option \<times> disk_queue" where
  "writeHead q =
     (case dq_segments q of
        [] \<Rightarrow> (None, q)
      | s # _ \<Rightarrow>
          (case sys_call (dq_fs q) of
             (Some _, fs1) \<Rightarrow> (Some (ErrIO ''write head''), q\<lparr>dq_fs := fs1\<rparr>)
           | (None, fs1) \<Rightarrow>
               (case sys_call fs1 of
                  (Some _, fs2) \<Rightarrow> (Some (ErrIO ''rename''), q\<lparr>dq_fs := fs2\<rparr>)
                | (None, fs2) \<Rightarrow>
                    (None, q\<lparr>dq_fs := fs2\<lparr>fs_head := Some (format_head (seg_id s) (dq_headOff q))\<rparr>\<rparr>))))"

text \<open>The old writer is closed first; when the open fails, the queue is left with the closed one.\<close>

definition openWriter :: "disk_queue \<Rightarrow> port_error option \<times> disk_queue" where
  "openWriter q =
     (let i = seg_id (last (dq_segments q))
      in case sys_call (dq_fs q) of
           (Some _, fs1) \<Rightarrow> (Some (ErrIO ''open tail''), q\<lparr>dq_fs := fs1, dq_writer := ClosedHandle\<rparr>)
         | (None, fs1) \<Rightarrow>
             (None, q\<lparr>dq_fs := (case fs_file fs1 i of None \<Rightarrow> fs_write i [] fs1 | Some _ \<Rightarrow> fs1),
                      dq_writer := Handle i\<rparr>))"

definition roll :: "nat \<Rightarrow> disk_queue \<Rightarrow> port_error option \<times> disk_queue" where
  "roll i q = openWriter (q\<lparr>dq_segments := dq_segments q @ [\<lparr>seg_id = i, seg_size = 0, seg_records = 0\<rparr>]\<rparr>)"

definition dropHead :: "bool \<Rightarrow> disk_queue \<Rightarrow> port_error option \<times> disk_queue" where
  "dropHead counting q =
     (let h = hd (dq_segments q);
          q1 = q\<lparr>dq_dropped := (if counting then dq_dropped q + seg_records h else dq_dropped q),
                 dq_count := dq_count q - seg_records h, dq_bytes := dq_bytes q - seg_size h,
                 dq_reader := None, dq_peeked := None, dq_headOff := 0\<rparr>
      in case sys_call (dq_fs q1) of
           (Some _, fs1) \<Rightarrow> (Some (ErrIO ''remove segment''), q1\<lparr>dq_fs := fs1\<rparr>)
         | (None, fs1) \<Rightarrow> writeHead (q1\<lparr>dq_fs := fs_remove (seg_id h) fs1, dq_segments := tl (dq_segments q)\<rparr>))"

lemma writeHead_keeps: "writeHead q = (e, q') \<Longrightarrow> dq_segments q' = dq_segments q \<and> dq_bytes q' = dq_bytes q"
  by (auto simp: writeHead_def split: list.splits prod.splits option.splits)

lemma dropHead_ok_shorter:
  "dropHead c q = (None, q') \<Longrightarrow> dq_segments q' = tl (dq_segments q)"
  by (auto simp: dropHead_def Let_def split: prod.splits option.splits dest!: writeHead_keeps)

function enforceBound :: "disk_queue \<Rightarrow> port_error option \<times> disk_queue" where
  "enforceBound q =
     (if dq_bytes q > dq_MaxBytes q \<and> length (dq_segments q) > 1
      then case dropHead True q of
             (Some e, q') \<Rightarrow> (Some e, q')
           | (None, q') \<Rightarrow> enforceBound q'
      else (None, q))"
  by pat_completeness auto

termination
  by (relation "measure (\<lambda>q. length (dq_segments q))")
    (auto dest!: dropHead_ok_shorter [OF sym])

declare enforceBound.simps [simp del]

definition dq_Push :: "message \<Rightarrow> disk_queue \<Rightarrow> port_error option \<times> disk_queue" where
  "dq_Push msg q =
     (if dq_closed q then (Some ErrClosed, q)
      else let rec = encode msg; tail = last (dq_segments q)
           in case (if seg_size tail > 0 \<and> seg_size tail + int (length rec) > dq_SegmentBytes q
                    then roll (seg_id tail + 1) q else (None, q)) of
                (Some e, q1) \<Rightarrow> (Some e, q1)
              | (None, q1) \<Rightarrow>
                  (case dq_writer q1 of
                     ClosedHandle \<Rightarrow> (Some (ErrIO ''append''), q1)
                   | Handle w \<Rightarrow>
                       (case sys_call (dq_fs q1) of
                          (Some k, fs1) \<Rightarrow>
                            (Some (ErrIO ''append''), q1\<lparr>dq_fs := fs_write w (file_bytes fs1 w @ take k rec) fs1\<rparr>)
                        | (None, fs1) \<Rightarrow>
                            (let q2 = q1\<lparr>dq_fs := fs_write w (file_bytes fs1 w @ rec) fs1\<rparr>
                             in case (if dq_Sync q2 then sys_call (dq_fs q2) else (None, dq_fs q2)) of
                                  (Some _, fs2) \<Rightarrow> (Some (ErrIO ''fsync''), q2\<lparr>dq_fs := fs2\<rparr>)
                                | (None, fs2) \<Rightarrow>
                                    (let t = last (dq_segments q2);
                                         t' = t\<lparr>seg_size := seg_size t + int (length rec), seg_records := seg_records t + 1\<rparr>
                                     in enforceBound (q2\<lparr>dq_fs := fs2, dq_segments := butlast (dq_segments q2) @ [t'],
                                          dq_count := dq_count q2 + 1, dq_bytes := dq_bytes q2 + int (length rec)\<rparr>))))))"

definition peek_open :: "disk_queue \<Rightarrow> port_error option \<times> disk_queue" where
  "peek_open q =
     (case dq_reader q of
        Some _ \<Rightarrow> (None, q)
      | None \<Rightarrow>
          (let i = seg_id (hd (dq_segments q))
           in case sys_call (dq_fs q) of
                (Some _, fs1) \<Rightarrow> (Some (ErrIO ''open head''), q\<lparr>dq_fs := fs1\<rparr>)
              | (None, fs1) \<Rightarrow>
                  (case fs_file fs1 i of
                     None \<Rightarrow> (Some (ErrIO ''open head''), q\<lparr>dq_fs := fs1\<rparr>)
                   | Some _ \<Rightarrow> (None, q\<lparr>dq_fs := fs1, dq_reader := Some (Handle i)\<rparr>))))"

text \<open>\<^verbatim>\<open>ReadAt\<close> fails when fewer than \<open>n\<close> bytes follow the offset.\<close>

fun ReadAt :: "disk_fs \<Rightarrow> handle \<Rightarrow> nat \<Rightarrow> nat \<Rightarrow> byte list option \<times> disk_fs" where
  "ReadAt fs ClosedHandle off n = (None, fs)"
| "ReadAt fs (Handle i) off n =
     (case sys_call fs of
        (Some _, fs1) \<Rightarrow> (None, fs1)
      | (None, fs1) \<Rightarrow>
          (let bs = take n (drop off (file_bytes fs1 i))
           in (if length bs < n then None else Some bs, fs1)))"

definition peekLocked :: "disk_queue \<Rightarrow> (port_error + message option) \<times> disk_queue" where
  "peekLocked q =
     (if dq_count q = 0 then (Inr None, q)
      else case dq_peeked q of
        Some m \<Rightarrow> (Inr (Some m), q)
      | None \<Rightarrow>
          (case peek_open q of
             (Some e, q1) \<Rightarrow> (Inl e, q1)
           | (None, q1) \<Rightarrow>
               (let r = the (dq_reader q1); off = nat (dq_headOff q1)
                in case ReadAt (dq_fs q1) r off recHeaderLen of
                     (None, fs2) \<Rightarrow> (Inl (ErrIO ''read header''), q1\<lparr>dq_fs := fs2\<rparr>)
                   | (Some hdr, fs2) \<Rightarrow>
                       (let n = unat (get_uint32 hdr); want = get_uint32 (drop 4 hdr); q2 = q1\<lparr>dq_fs := fs2\<rparr>
                        in if n = 0 \<or> n > maxRecordBody then (Inl ErrCorrupt, q2)
                           else case ReadAt fs2 r (off + recHeaderLen) n of
                                  (None, fs3) \<Rightarrow> (Inl (ErrIO ''read body''), q2\<lparr>dq_fs := fs3\<rparr>)
                                | (Some body, fs3) \<Rightarrow>
                                    (let q3 = q2\<lparr>dq_fs := fs3\<rparr>
                                     in if ChecksumIEEE body \<noteq> want then (Inl ErrCorrupt, q3)
                                        else case decode body of
                                               Inl e \<Rightarrow> (Inl e, q3)
                                             | Inr m \<Rightarrow> (Inr (Some m), q3\<lparr>dq_peeked := Some m,
                                                 dq_peekLen := int (recHeaderLen + n)\<rparr>))))))"

definition dq_Peek :: "disk_queue \<Rightarrow> (port_error + message option) \<times> disk_queue" where
  "dq_Peek q = peekLocked q"

definition resetOnly :: "bool \<Rightarrow> disk_queue \<Rightarrow> port_error option \<times> disk_queue" where
  "resetOnly counting q =
     (let h = hd (dq_segments q);
          q1 = q\<lparr>dq_dropped := (if counting then dq_dropped q + seg_records h else dq_dropped q),
                 dq_reader := None, dq_peeked := None\<rparr>
      in case sys_call (dq_fs q1) of
           (Some _, fs1) \<Rightarrow> (Some (ErrIO ''reset segment''), q1\<lparr>dq_fs := fs1\<rparr>)
         | (None, fs1) \<Rightarrow>
             writeHead (q1\<lparr>dq_fs := fs_write (seg_id h) [] fs1,
               dq_segments := h\<lparr>seg_size := 0, seg_records := 0\<rparr> # tl (dq_segments q),
               dq_headOff := 0, dq_bytes := 0, dq_count := 0\<rparr>))"

text \<open>The part of \<^verbatim>\<open>Ack\<close> behind the lookup of the record.\<close>

definition ack_advance :: "disk_queue \<Rightarrow> port_error option \<times> disk_queue" where
  "ack_advance q =
     (let h = hd (dq_segments q); h' = h\<lparr>seg_records := seg_records h - 1\<rparr>;
          q1 = q\<lparr>dq_headOff := dq_headOff q + dq_peekLen q, dq_count := dq_count q - 1,
                 dq_segments := h' # tl (dq_segments q), dq_peeked := None\<rparr>
      in if dq_headOff q1 \<ge> seg_size h'
         then (if length (dq_segments q1) > 1 then dropHead False q1 else resetOnly False q1)
         else writeHead q1)"

definition dq_Ack :: "disk_queue \<Rightarrow> port_error option \<times> disk_queue" where
  "dq_Ack q =
     (if dq_count q = 0 then (None, q)
      else if dq_peeked q = None
      then case peekLocked q of
             (Inl _, q1) \<Rightarrow> (if length (dq_segments q1) > 1 then dropHead True q1 else resetOnly True q1)
           | (Inr None, q1) \<Rightarrow> (None, q1)
           | (Inr (Some _), q1) \<Rightarrow> ack_advance q1
      else ack_advance q)"

fun close_handle :: "handle \<Rightarrow> disk_fs \<Rightarrow> port_error list \<times> disk_fs" where
  "close_handle ClosedHandle fs = ([ErrIO ''close''], fs)"
| "close_handle (Handle _) fs =
     (case sys_call fs of (None, fs1) \<Rightarrow> ([], fs1) | (Some _, fs1) \<Rightarrow> ([ErrIO ''close''], fs1))"

definition dq_Close :: "disk_queue \<Rightarrow> port_error list \<times> disk_queue" where
  "dq_Close q =
     (if dq_closed q then ([], q)
      else let (e, q1) = writeHead (q\<lparr>dq_closed := True\<rparr>);
               (ew, fs1) = close_handle (dq_writer q1) (dq_fs q1);
               (er, fs2) = (case dq_reader q1 of None \<Rightarrow> ([], fs1) | Some h \<Rightarrow> close_handle h fs1)
           in ((case e of None \<Rightarrow> [] | Some x \<Rightarrow> [x]) @ ew @ er,
               q1\<lparr>dq_fs := fs2, dq_writer := ClosedHandle,
                  dq_reader := map_option (\<lambda>_. ClosedHandle) (dq_reader q1)\<rparr>))"

section \<open>Opening and recovery\<close>

text \<open>
  \<^verbatim>\<open>scanSegment\<close>. A read error in the middle, like the end of the file, ends the loop; what
  follows the last valid record is then cut off. The calls that may fail are the open, the
  reads (\<open>Some k\<close>: only \<open>k\<close> bytes could be read) and the truncation.
\<close>

definition scanSegment :: "nat \<Rightarrow> nat \<Rightarrow> disk_fs \<Rightarrow> (port_error + nat \<times> nat) \<times> disk_fs" where
  "scanSegment i from fs =
     (case sys_call fs of
        (Some _, fs1) \<Rightarrow> (Inl (ErrIO ''open''), fs1)
      | (None, fs1) \<Rightarrow>
          (case fs_file fs1 i of
             None \<Rightarrow> (Inl (ErrIO ''open''), fs1)
           | Some bs \<Rightarrow>
               (case sys_call fs1 of
                  (rd, fs2) \<Rightarrow>
                    (let rest = (case rd of None \<Rightarrow> drop from bs | Some k \<Rightarrow> take k (drop from bs));
                         (n, records) = scan_loop rest; off = from + n
                     in case sys_call fs2 of
                          (Some _, fs3) \<Rightarrow> (Inl (ErrIO ''truncate''), fs3)
                        | (None, fs3) \<Rightarrow> (Inr (off, records), fs_write i (truncate_to off bs) fs3)))))"

text \<open>The loop of \<^verbatim>\<open>recover\<close> over the sorted segments; the error of \<^verbatim>\<open>os.Remove\<close> is ignored.\<close>

fun recover_loop :: "nat \<Rightarrow> int \<Rightarrow> nat list \<Rightarrow> disk_queue \<Rightarrow> port_error option \<times> disk_queue" where
  "recover_loop hid hoff [] q = (None, q)"
| "recover_loop hid hoff (i # is) q =
     (if i < hid
      then (case sys_call (dq_fs q) of
              (Some _, fs1) \<Rightarrow> recover_loop hid hoff is (q\<lparr>dq_fs := fs1\<rparr>)
            | (None, fs1) \<Rightarrow> recover_loop hid hoff is (q\<lparr>dq_fs := fs_remove i fs1\<rparr>))
      else case scanSegment i (if i = hid then nat hoff else 0) (dq_fs q) of
             (Inl e, fs1) \<Rightarrow> (Some e, q\<lparr>dq_fs := fs1\<rparr>)
           | (Inr (sz, records), fs1) \<Rightarrow>
               recover_loop hid hoff is (q\<lparr>dq_fs := fs1,
                 dq_segments := dq_segments q @ [\<lparr>seg_id = i, seg_size = int sz, seg_records = int records\<rparr>],
                 dq_headOff := (if i = hid then min hoff (int sz) else dq_headOff q),
                 dq_count := dq_count q + int records, dq_bytes := dq_bytes q + int sz\<rparr>))"

text \<open>\<^verbatim>\<open>os.ReadDir\<close> and the parse of the names; ids are below \<open>2 ^ 64\<close>.\<close>

definition recover :: "disk_queue \<Rightarrow> port_error option \<times> disk_queue" where
  "recover q =
     (case sys_call (dq_fs q) of
        (Some _, fs1) \<Rightarrow> (Some (ErrIO ''read dir''), q\<lparr>dq_fs := fs1\<rparr>)
      | (None, fs1) \<Rightarrow>
          (case readHead fs1 of
             ((hid, hoff), fs2) \<Rightarrow>
               (case recover_loop hid hoff (sort (filter (\<lambda>i. i < 2 ^ 64) (map fst (fs_segs fs1)))) (q\<lparr>dq_fs := fs2\<rparr>) of
                  (Some e, q1) \<Rightarrow> (Some e, q1)
                | (None, q1) \<Rightarrow>
                    (case (if dq_segments q1 = [] then roll 1 q1 else openWriter q1) of
                       (Some e, q2) \<Rightarrow> (Some e, q2)
                     | (None, q2) \<Rightarrow> enforceBound q2))))"

definition empty_queue :: "disk_fs \<Rightarrow> int \<Rightarrow> int \<Rightarrow> bool \<Rightarrow> disk_queue" where
  "empty_queue fs mx sb sync =
     \<lparr>dq_fs = fs, dq_MaxBytes = mx, dq_SegmentBytes = sb, dq_Sync = sync, dq_segments = [],
      dq_writer = ClosedHandle, dq_reader = None, dq_headOff = 0, dq_count = 0, dq_bytes = 0,
      dq_dropped = 0, dq_peeked = None, dq_peekLen = 0, dq_closed = False\<rparr>"

text \<open>\<^verbatim>\<open>Open\<close>: an error carries the directory as the attempt has left it.\<close>

definition dq_Open :: "disk_fs \<Rightarrow> int \<Rightarrow> int \<Rightarrow> bool \<Rightarrow> (port_error \<times> disk_fs) + disk_queue" where
  "dq_Open fs maxBytes segmentBytes sync =
     (let mx = (if maxBytes \<le> 0 then DefaultMaxBytes else maxBytes);
          sb0 = (if segmentBytes \<le> 0 then DefaultSegmentBytes else segmentBytes);
          sb = (if sb0 > mx div 2 then max (mx div 2) 1 else sb0)
      in case sys_call fs of
           (Some _, fs1) \<Rightarrow> Inl (ErrIO ''mkdir'', fs1)
         | (None, fs1) \<Rightarrow>
             (case recover (empty_queue fs1 mx sb sync) of
                (Some e, q) \<Rightarrow> Inl (e, dq_fs q)
              | (None, q) \<Rightarrow> Inr q))"

definition disk_queue_ops :: "disk_queue queue_ops" where
  "disk_queue_ops = \<lparr>q_push = dq_Push, q_peek = dq_Peek, q_ack = dq_Ack, q_len = dq_count,
     q_bytes = dq_bytes, q_dropped = dq_dropped\<rparr>"

section \<open>The representation invariant\<close>

text \<open>
  What a segment list stands for: behind the read offset, which is zero except in the head
  segment, every file holds exactly the records of its messages, and the counters agree.
\<close>

fun segs_rep :: "(nat \<rightharpoonup> byte list) \<Rightarrow> nat \<Rightarrow> segment list \<Rightarrow> message list list \<Rightarrow> bool" where
  "segs_rep F off [] [] = True"
| "segs_rep F off (s # ss) (ms # mss) =
     ((\<exists>pre. F (seg_id s) = Some (pre @ concat (map encode ms)) \<and> length pre = off) \<and>
      seg_size s = int (off + length (concat (map encode ms))) \<and> seg_records s = int (length ms) \<and>
      (\<forall>m \<in> set ms. dq_storable m) \<and> segs_rep F 0 ss mss)"
| "segs_rep F off _ _ = False"

text \<open>The cursor on disk is the one in memory, or points before the head segment.\<close>

definition cursor :: "disk_fs \<Rightarrow> nat \<times> int" where
  "cursor fs = (case fs_head fs of None \<Rightarrow> (0, 0) | Some b \<Rightarrow> parse_head b)"

definition head_ok :: "disk_fs \<Rightarrow> nat \<Rightarrow> int \<Rightarrow> bool" where
  "head_ok fs i off \<longleftrightarrow>
     (\<exists>hid hoff. (fs_head fs = Some (format_head hid (int hoff)) \<or> cursor fs = (hid, int hoff)) \<and>
        (hid = i \<and> int hoff = off \<or> hid < i \<and> off = 0))"

definition dq_core :: "disk_queue \<Rightarrow> message list list \<Rightarrow> bool" where
  "dq_core q mss \<longleftrightarrow>
     dq_segments q \<noteq> [] \<and> sorted_wrt (<) (map seg_id (dq_segments q)) \<and>
     dq_headOff q \<ge> 0 \<and> segs_rep (fs_file (dq_fs q)) (nat (dq_headOff q)) (dq_segments q) mss \<and>
     dq_count q = int (length (concat mss)) \<and> dq_bytes q = sum_list (map seg_size (dq_segments q)) \<and>
     dq_writer q = Handle (seg_id (last (dq_segments q))) \<and>
     (dq_reader q = None \<or> dq_reader q = Some (Handle (seg_id (hd (dq_segments q))))) \<and>
     (\<forall>m. dq_peeked q = Some m \<longrightarrow> (\<exists>ms. hd mss = m # ms) \<and> dq_peekLen q = int (length (encode m))) \<and>
     \<not> dq_closed q \<and> fs_faults (dq_fs q) = [] \<and> distinct (map fst (fs_segs (dq_fs q))) \<and>
     (\<forall>i. fs_file (dq_fs q) i \<noteq> None \<longrightarrow> i \<in> seg_id ` set (dq_segments q))"

definition dq_full :: "disk_queue \<Rightarrow> message list list \<Rightarrow> bool" where
  "dq_full q mss \<longleftrightarrow> (\<forall>ms \<in> set (butlast mss). ms \<noteq> []) \<and>
     (last mss = [] \<longrightarrow> seg_size (last (dq_segments q)) = 0) \<and>
     head_ok (dq_fs q) (seg_id (hd (dq_segments q))) (dq_headOff q)"

definition dq_rep0 :: "disk_queue \<Rightarrow> message list list \<Rightarrow> bool" where
  "dq_rep0 q mss \<longleftrightarrow> dq_core q mss \<and> dq_full q mss"

definition dq_rep :: "disk_queue \<Rightarrow> message list list \<Rightarrow> bool" where
  "dq_rep q mss \<longleftrightarrow> dq_rep0 q mss \<and> (dq_bytes q \<le> dq_MaxBytes q \<or> length mss = 1)"

definition dq_invar :: "disk_queue \<Rightarrow> bool" where
  "dq_invar q \<longleftrightarrow> (\<exists>mss. dq_rep q mss)"

text \<open>The queued messages: what the files contain from the cursor on.\<close>

definition dq_contents :: "disk_queue \<Rightarrow> message list" where
  "dq_contents q =
     (case dq_segments q of
        [] \<Rightarrow> []
      | s # ss \<Rightarrow> stored (drop (nat (dq_headOff q)) (file_bytes (dq_fs q) (seg_id s))) @
                  concat (map (\<lambda>s. stored (file_bytes (dq_fs q) (seg_id s))) ss))"

lemma sys_call_ok [simp]: "fs_faults fs = [] \<Longrightarrow> sys_call fs = (None, fs)"
  by (simp add: sys_call_def)

lemma fs_simps [simp]:
  "fs_file (fs_write i bs fs) = (fs_file fs)(i \<mapsto> bs)"
  "fs_file (fs_remove i fs) = (fs_file fs)(i := None)"
  "fs_file (fs\<lparr>fs_head := h\<rparr>) = fs_file fs"
  "fs_faults (fs_write i bs fs) = fs_faults fs" "fs_faults (fs_remove i fs) = fs_faults fs"
  "fs_head (fs_write i bs fs) = fs_head fs" "fs_head (fs_remove i fs) = fs_head fs"
  by (auto simp: fs_file_def fs_write_def fs_remove_def fun_eq_iff AList.update_conv' AList.delete_conv')

lemma segs_rep_length: "segs_rep F off ss mss \<Longrightarrow> length ss = length mss"
  by (induction F off ss mss rule: segs_rep.induct) auto

lemma segs_rep_cong:
  "\<forall>s \<in> set ss. F (seg_id s) = G (seg_id s) \<Longrightarrow> segs_rep F off ss mss \<longleftrightarrow> segs_rep G off ss mss"
  by (induction F off ss mss rule: segs_rep.induct) auto

lemma segs_rep_append:
  "length ss = length mss \<Longrightarrow> segs_rep F off (ss @ ss') (mss @ mss') \<longleftrightarrow>
     segs_rep F off ss mss \<and> segs_rep F (if ss = [] then off else 0) ss' mss'"
  by (induction F off ss mss rule: segs_rep.induct) auto

lemma segs_rep_stored:
  "segs_rep F 0 ss mss \<Longrightarrow> F = fs_file fs \<Longrightarrow> map (\<lambda>s. stored (file_bytes fs (seg_id s))) ss = mss"
  using stored_encoded [of _ "[]"]
  by (induction F "0 :: nat" ss mss rule: segs_rep.induct) (auto simp: file_bytes_def)

lemma dq_contents_rep:
  assumes "dq_core q mss"
  shows "dq_contents q = concat mss"
proof -
  obtain s ss where ss: "dq_segments q = s # ss" using assms by (cases "dq_segments q") (auto simp: dq_core_def)
  then obtain ms mss' where mss: "mss = ms # mss'"
    using assms by (cases mss) (auto simp: dq_core_def)
  have "stored (concat (map encode ms)) = ms" if "\<forall>m \<in> set ms. dq_storable m"
    using stored_encoded [OF that, of "[]"] by simp
  then show ?thesis
    using assms segs_rep_stored [of "fs_file (dq_fs q)" ss mss' "dq_fs q"]
    by (auto simp: dq_core_def dq_contents_def ss mss file_bytes_def)
qed

lemma dq_repD: "dq_rep q mss \<Longrightarrow> dq_core q mss \<and> dq_full q mss"
  by (simp add: dq_rep_def dq_rep0_def)

lemma core_mss: "dq_core q mss \<Longrightarrow> mss \<noteq> [] \<and> length mss = length (dq_segments q)"
  using segs_rep_length by (force simp: dq_core_def)

lemma distinct_fs [simp]:
  "distinct (map fst (fs_segs fs)) \<Longrightarrow> distinct (map fst (fs_segs (fs_write i bs fs)))"
  "distinct (map fst (fs_segs fs)) \<Longrightarrow> distinct (map fst (fs_segs (fs_remove i fs)))"
  by (simp_all add: fs_write_def fs_remove_def AList.distinct_update AList.distinct_delete)

section \<open>The operations keep the invariant\<close>

definition headed :: "disk_queue \<Rightarrow> disk_queue" where
  "headed q = q\<lparr>dq_fs := (dq_fs q)\<lparr>fs_head := Some (format_head (seg_id (hd (dq_segments q))) (dq_headOff q))\<rparr>\<rparr>"

lemma writeHead_ok:
  "fs_faults (dq_fs q) = [] \<Longrightarrow> dq_segments q \<noteq> [] \<Longrightarrow> writeHead q = (None, headed q)"
  by (auto simp: writeHead_def headed_def neq_Nil_conv)

lemma headed_core: "dq_core q mss \<Longrightarrow> dq_core (headed q) mss"
  by (simp add: dq_core_def headed_def)

lemma headed_full:
  assumes "dq_headOff q \<ge> 0" "\<forall>ms \<in> set (butlast mss). ms \<noteq> []"
    "last mss = [] \<longrightarrow> seg_size (last (dq_segments q)) = 0"
  shows "dq_full (headed q) mss"
proof -
  have "fs_head (dq_fs (headed q)) = Some (format_head (seg_id (hd (dq_segments q))) (int (nat (dq_headOff q))))"
    using assms(1) by (simp add: headed_def)
  moreover have "dq_headOff (headed q) = dq_headOff q" "dq_segments (headed q) = dq_segments q"
    by (simp_all add: headed_def)
  ultimately show ?thesis using assms unfolding dq_full_def head_ok_def by (metis int_nat_eq)
qed

text \<open>The configuration that no operation changes.\<close>

definition same_opts :: "disk_queue \<Rightarrow> disk_queue \<Rightarrow> bool" where
  "same_opts q q' \<longleftrightarrow> dq_MaxBytes q' = dq_MaxBytes q \<and> dq_SegmentBytes q' = dq_SegmentBytes q \<and> dq_Sync q' = dq_Sync q"

lemma dropHead_core:
  assumes c: "dq_core q (ms # mss)" and ne: "mss \<noteq> []"
  obtains q' where "dropHead cnt q = (None, headed q')" "dq_core q' mss"
    "dq_segments q' = tl (dq_segments q)" "dq_headOff q' = 0"
    "dq_dropped q' = dq_dropped q + (if cnt then int (length ms) else 0)" "same_opts q q'"
    "dq_bytes q' = dq_bytes q - seg_size (hd (dq_segments q))"
proof -
  obtain s ss where ss: "dq_segments q = s # ss" using c by (cases "dq_segments q") (auto simp: dq_core_def)
  have len: "length ss = length mss" using core_mss [OF c] ss by simp
  then have ssne: "ss \<noteq> []" using ne by auto
  let ?q' = "q\<lparr>dq_dropped := (if cnt then dq_dropped q + seg_records s else dq_dropped q),
     dq_count := dq_count q - seg_records s, dq_bytes := dq_bytes q - seg_size s,
     dq_reader := None, dq_peeked := None, dq_headOff := 0,
     dq_fs := fs_remove (seg_id s) (dq_fs q), dq_segments := ss\<rparr>"
  have lt: "\<forall>x \<in> set ss. seg_id s < seg_id x" using c by (simp add: dq_core_def ss)
  have rec: "seg_records s = int (length ms)" using c by (simp add: dq_core_def ss)
  have "segs_rep (fs_file (dq_fs q)) 0 ss mss" using c by (simp add: dq_core_def ss)
  then have rep: "segs_rep ((fs_file (dq_fs q))(seg_id s := None)) 0 ss mss"
    using lt by (subst segs_rep_cong [of _ _ "fs_file (dq_fs q)"]) auto
  have core: "dq_core ?q' mss"
    using c rep rec ssne by (auto simp: dq_core_def ss)
  have faults: "fs_faults (dq_fs q) = []" using c by (simp add: dq_core_def)
  have "dropHead cnt q = (None, headed ?q')"
    using faults ssne by (simp add: dropHead_def ss writeHead_ok)
  then show thesis
    by (rule that [OF _ core]) (simp_all add: ss same_opts_def rec)
qed

lemma enforceBound_rep:
  assumes "dq_rep0 q mss"
  shows "\<exists>j q'. enforceBound q = (None, q') \<and> j < length mss \<and> dq_rep q' (drop j mss) \<and>
    dq_dropped q' = dq_dropped q + int (length (concat (take j mss))) \<and> same_opts q q'"
  using assms
proof (induction mss arbitrary: q)
  case Nil
  then show ?case using core_mss by (auto simp: dq_rep0_def)
next
  case (Cons ms mss)
  have core: "dq_core q (ms # mss)" using Cons.prems by (simp add: dq_rep0_def)
  note len = core_mss [OF core]
  show ?case
  proof (cases "dq_bytes q > dq_MaxBytes q \<and> mss \<noteq> []")
    case False
    then have "enforceBound q = (None, q)" using len by (subst enforceBound.simps) auto
    moreover have "dq_rep q (ms # mss)" using Cons.prems False by (auto simp: dq_rep_def)
    ultimately show ?thesis by (intro exI [of _ 0]) (simp add: same_opts_def)
  next
    case True
    obtain q1 where q1: "dropHead True q = (None, headed q1)" "dq_core q1 mss"
      "dq_segments q1 = tl (dq_segments q)" "dq_headOff q1 = 0"
      "dq_dropped q1 = dq_dropped q + int (length ms)" "same_opts q q1"
      using dropHead_core [OF core, of True] True by auto
    have tlne: "tl (dq_segments q) \<noteq> []" using len True by (cases "dq_segments q") auto
    have "dq_full (headed q1) mss"
      using Cons.prems True tlne q1(3,4)
      by (intro headed_full) (auto simp: dq_rep0_def dq_full_def last_tl)
    then have "dq_rep0 (headed q1) mss" using headed_core [OF q1(2)] by (simp add: dq_rep0_def)
    from Cons.IH [OF this] obtain j q' where j: "enforceBound (headed q1) = (None, q')" "j < length mss"
      "dq_rep q' (drop j mss)" "dq_dropped q' = dq_dropped (headed q1) + int (length (concat (take j mss)))"
      "same_opts (headed q1) q'" by blast
    have "Suc 0 < length (dq_segments q)" using True len by (cases mss) auto
    then have "enforceBound q = (None, q')"
      using True q1(1) j(1) by (subst enforceBound.simps) simp
    then show ?thesis
      using j q1(5,6) by (intro exI [of _ "Suc j"] exI [of _ q']) (simp add: headed_def same_opts_def)
  qed
qed

lemma sorted_last_max:
  "sorted_wrt (<) (map seg_id ss) \<Longrightarrow> x \<in> set ss \<Longrightarrow> seg_id x \<le> seg_id (last ss)"
  by (induction ss) (auto simp: less_imp_le)

lemma roll_core:
  assumes c: "dq_core q mss"
  obtains q1 where "roll (seg_id (last (dq_segments q)) + 1) q = (None, q1)" "dq_core q1 (mss @ [[]])"
    "dq_segments q1 = dq_segments q @ [\<lparr>seg_id = seg_id (last (dq_segments q)) + 1, seg_size = 0, seg_records = 0\<rparr>]"
    "dq_headOff q1 = dq_headOff q" "fs_head (dq_fs q1) = fs_head (dq_fs q)"
    "dq_dropped q1 = dq_dropped q" "same_opts q q1"
proof -
  let ?i = "seg_id (last (dq_segments q)) + 1"
  let ?n = "\<lparr>seg_id = ?i, seg_size = 0, seg_records = 0\<rparr>"
  let ?q1 = "q\<lparr>dq_segments := dq_segments q @ [?n], dq_fs := fs_write ?i [] (dq_fs q), dq_writer := Handle ?i\<rparr>"
  have lt: "\<forall>x \<in> set (dq_segments q). seg_id x < ?i"
    using c sorted_last_max [of "dq_segments q"] by (auto simp: dq_core_def less_Suc_eq_le)
  then have new: "fs_file (dq_fs q) ?i = None" using c by (force simp: dq_core_def)
  have "segs_rep ((fs_file (dq_fs q))(?i \<mapsto> [])) (nat (dq_headOff q)) (dq_segments q) mss"
    using c lt by (subst segs_rep_cong [of _ _ "fs_file (dq_fs q)"]) (auto simp: dq_core_def)
  then have rep: "segs_rep ((fs_file (dq_fs q))(?i \<mapsto> [])) (nat (dq_headOff q)) (dq_segments q @ [?n]) (mss @ [[]])"
    using core_mss [OF c] by (subst segs_rep_append) auto
  have core: "dq_core ?q1 (mss @ [[]])"
    using c rep lt core_mss [OF c] by (auto simp: dq_core_def sorted_wrt_append hd_append)
  have "roll ?i q = (None, ?q1)"
    using c new by (simp add: roll_def openWriter_def dq_core_def)
  then show thesis
    by (rule that [OF _ core]) (simp_all add: same_opts_def fs_write_def)
qed

lemma segs_rep_append_record:
  assumes "segs_rep F off (ss @ [t]) (mss @ [ms])" "distinct (map seg_id (ss @ [t]))" "dq_storable m"
    "length ss = length mss"
  shows "segs_rep (F(seg_id t \<mapsto> the (F (seg_id t)) @ encode m)) off
    (ss @ [t\<lparr>seg_size := seg_size t + int (length (encode m)), seg_records := seg_records t + 1\<rparr>]) (mss @ [ms @ [m]])"
proof -
  let ?G = "F(seg_id t \<mapsto> the (F (seg_id t)) @ encode m)"
  have "segs_rep ?G off ss mss = segs_rep F off ss mss"
    using assms(2) by (intro segs_rep_cong) (auto intro: rev_image_eqI)
  then show ?thesis
    using assms(1,3) segs_rep_append [OF assms(4)] by auto
qed

lemma append_core:
  assumes c: "dq_core q (mss @ [ms])" and m: "dq_storable m"
    and seg: "dq_segments q = ss @ [t]"
  defines "q' \<equiv> q\<lparr>dq_fs := fs_write (seg_id t) (file_bytes (dq_fs q) (seg_id t) @ encode m) (dq_fs q),
      dq_segments := ss @ [t\<lparr>seg_size := seg_size t + int (length (encode m)), seg_records := seg_records t + 1\<rparr>],
      dq_count := dq_count q + 1, dq_bytes := dq_bytes q + int (length (encode m))\<rparr>"
  shows "dq_core q' (mss @ [ms @ [m]])"
proof -
  have len: "length ss = length mss" using core_mss [OF c] seg by simp
  have d: "distinct (map seg_id (ss @ [t]))"
    using c seg strict_sorted_iff by (auto simp: dq_core_def strict_sorted_iff)
  have rep: "segs_rep (fs_file (dq_fs q)) (nat (dq_headOff q)) (ss @ [t]) (mss @ [ms])"
    using c seg by (simp add: dq_core_def)
  then obtain bs where bs: "fs_file (dq_fs q) (seg_id t) = Some bs"
    using segs_rep_append [OF len] by auto
  then have "file_bytes (dq_fs q) (seg_id t) = the (fs_file (dq_fs q) (seg_id t))"
    by (simp add: file_bytes_def)
  then have "segs_rep (fs_file (dq_fs q')) (nat (dq_headOff q')) (dq_segments q') (mss @ [ms @ [m]])"
    using segs_rep_append_record [OF rep d m len] by (simp add: q'_def)
  then show ?thesis
    using c unfolding dq_core_def by (simp add: q'_def seg hd_append) (auto simp: hd_append)
qed

lemma Push_rep:
  assumes r: "dq_rep q mss" and m: "dq_storable m"
  shows "\<exists>k q' mss'. dq_Push m q = (None, q') \<and> dq_rep q' mss' \<and> k \<le> length (concat mss) \<and>
    concat mss' = drop k (concat mss @ [m]) \<and> dq_dropped q' = dq_dropped q + int k \<and> same_opts q q'"
proof -
  have c: "dq_core q mss" and f: "dq_full q mss" using dq_repD [OF r] by auto
  let ?t = "last (dq_segments q)"
  define p where "p = (if seg_size ?t > 0 \<and> seg_size ?t + int (length (encode m)) > dq_SegmentBytes q
      then roll (seg_id ?t + 1) q else (None, q))"
  have "\<exists>q1 xs ms. p = (None, q1) \<and> dq_core q1 (xs @ [ms]) \<and> concat (xs @ [ms]) = concat mss \<and>
      (\<forall>y \<in> set xs. y \<noteq> []) \<and> head_ok (dq_fs q1) (seg_id (hd (dq_segments q1))) (dq_headOff q1) \<and>
      dq_dropped q1 = dq_dropped q \<and> same_opts q q1"
  proof (cases "seg_size ?t > 0 \<and> seg_size ?t + int (length (encode m)) > dq_SegmentBytes q")
    case True
    obtain q1 where q1: "roll (seg_id ?t + 1) q = (None, q1)" "dq_core q1 (mss @ [[]])"
      "dq_segments q1 = dq_segments q @ [\<lparr>seg_id = seg_id ?t + 1, seg_size = 0, seg_records = 0\<rparr>]"
      "dq_headOff q1 = dq_headOff q" "fs_head (dq_fs q1) = fs_head (dq_fs q)"
      "dq_dropped q1 = dq_dropped q" "same_opts q q1"
      by (rule roll_core [OF c])
    have "\<forall>y \<in> set mss. y \<noteq> []"
      using f True core_mss [OF c] unfolding dq_full_def
      by (metis append_butlast_last_id less_irrefl rotate1.simps(2) set_ConsD set_rotate1)
    moreover have "head_ok (dq_fs q1) (seg_id (hd (dq_segments q1))) (dq_headOff q1)"
      using f q1(3,4,5) core_mss [OF c] by (auto simp: dq_full_def head_ok_def cursor_def hd_append)
    ultimately show ?thesis using True q1 by (intro exI [of _ q1] exI [of _ mss] exI [of _ "[]"]) (simp add: p_def)
  next
    case False
    obtain xs ms where "mss = xs @ [ms]" using core_mss [OF c] by (metis rev_exhaust)
    then show ?thesis using False c f
      by (intro exI [of _ q] exI [of _ xs] exI [of _ ms]) (auto simp: p_def dq_full_def same_opts_def)
  qed
  then obtain q1 xs ms where p1: "p = (None, q1)" and c1: "dq_core q1 (xs @ [ms])"
    and cc: "concat (xs @ [ms]) = concat mss" and xs: "\<forall>y \<in> set xs. y \<noteq> []"
    and h1: "head_ok (dq_fs q1) (seg_id (hd (dq_segments q1))) (dq_headOff q1)"
    and d1: "dq_dropped q1 = dq_dropped q" and o1: "same_opts q q1" by blast
  obtain ss t where seg: "dq_segments q1 = ss @ [t]" using core_mss [OF c1] by (metis rev_exhaust list.size(3) length_0_conv)
  define q2 where "q2 = q1\<lparr>dq_fs := fs_write (seg_id t) (file_bytes (dq_fs q1) (seg_id t) @ encode m) (dq_fs q1),
      dq_segments := ss @ [t\<lparr>seg_size := seg_size t + int (length (encode m)), seg_records := seg_records t + 1\<rparr>],
      dq_count := dq_count q1 + 1, dq_bytes := dq_bytes q1 + int (length (encode m))\<rparr>"
  have c2: "dq_core q2 (xs @ [ms @ [m]])" unfolding q2_def by (rule append_core [OF c1 m seg])
  have "dq_full q2 (xs @ [ms @ [m]])"
    using xs h1 by (auto simp: dq_full_def q2_def seg head_ok_def cursor_def hd_append split: if_splits)
  then obtain j q' where j: "enforceBound q2 = (None, q')" "j < length (xs @ [ms @ [m]])"
    "dq_rep q' (drop j (xs @ [ms @ [m]]))"
    "dq_dropped q' = dq_dropped q2 + int (length (concat (take j (xs @ [ms @ [m]]))))" "same_opts q2 q'"
    using enforceBound_rep [of q2 "xs @ [ms @ [m]]"] c2 by (auto simp: dq_rep0_def)
  let ?k = "length (concat (take j xs))"
  have jx: "j \<le> length xs" using j(2) by simp
  have "dq_Push m q = (None, q')"
    using c c1 p1 j(1) unfolding p_def
    by (simp add: dq_Push_def Let_def dq_core_def seg q2_def)
  moreover have "concat mss @ [m] = concat (take j xs) @ concat (drop j xs) @ ms @ [m]"
    using cc by (metis append.assoc append_take_drop_id concat.simps concat_append append_Nil2)
  then have "concat (drop j (xs @ [ms @ [m]])) = drop ?k (concat mss @ [m])"
    using jx by simp
  moreover have "?k \<le> length (concat mss)"
    unfolding cc [symmetric] by (metis append_take_drop_id concat_append length_append le_add1 trans_le_add1)
  ultimately show ?thesis
    using j(3,4,5) jx d1 o1
    by (intro exI [of _ ?k] exI [of _ q'] exI [of _ "drop j (xs @ [ms @ [m]])"])
      (simp add: same_opts_def q2_def)
qed

lemma head_nonempty:
  assumes "dq_core q mss" "dq_full q mss" "dq_count q \<noteq> 0"
  obtains m ms mss' where "mss = (m # ms) # mss'"
proof -
  obtain y ys where y: "mss = y # ys" using core_mss [OF assms(1)] by (cases mss) auto
  have "y \<noteq> []"
    using assms y by (cases ys) (auto simp: dq_full_def dq_core_def)
  then show thesis using that y by (cases y) auto
qed

lemma ReadAt_ok:
  assumes "fs_faults fs = []" "take n (drop off (file_bytes fs i)) = bs" "length bs = n"
  shows "ReadAt fs (Handle i) off n = (Some bs, fs)"
  unfolding ReadAt.simps sys_call_ok [OF assms(1)] Let_def prod.case option.case assms(2)
  using assms(3) by simp

lemma peek_core:
  assumes c: "dq_core q ((m # ms) # mss)" and pk: "dq_peeked q = None"
  obtains q' where "peekLocked q = (Inr (Some m), q')" "dq_core q' ((m # ms) # mss)" "dq_peeked q' = Some m"
    "dq_fs q' = dq_fs q" "dq_segments q' = dq_segments q" "dq_headOff q' = dq_headOff q" "dq_dropped q' = dq_dropped q"
    "same_opts q q'" "dq_bytes q' = dq_bytes q" "dq_count q' = dq_count q"
proof -
  obtain s ss where ss: "dq_segments q = s # ss" using c by (cases "dq_segments q") (auto simp: dq_core_def)
  obtain pre where pre: "fs_file (dq_fs q) (seg_id s) = Some (pre @ encode m @ concat (map encode ms))"
    "length pre = nat (dq_headOff q)" and m: "dq_storable m" and fl: "fs_faults (dq_fs q) = []"
    using c by (auto simp: dq_core_def ss)
  define q1 where "q1 = q\<lparr>dq_reader := Some (Handle (seg_id s))\<rparr>"
  have op: "peek_open q = (None, q1)"
    using c pre(1) fl ss by (cases "dq_reader q") (auto simp: peek_open_def q1_def dq_core_def)
  let ?n = "length (encode_body m)" and ?rest = "concat (map encode ms)"
  have n: "?n \<noteq> 0" "?n \<le> maxRecordBody" "?n < 4294967296"
    using storable_body [OF m] by (simp_all add: length_encode_body maxRecordBody_def)
  have dr: "drop (nat (dq_headOff q)) (file_bytes (dq_fs q) (seg_id s)) = encode m @ ?rest"
    using pre by (simp add: file_bytes_def)
  define hdr where "hdr = take recHeaderLen (encode m @ ?rest)"
  have hdr: "length hdr = recHeaderLen" "unat (get_uint32 hdr) = ?n" "get_uint32 (drop 4 hdr) = ChecksumIEEE (encode_body m)"
    using n(3) by (simp_all add: hdr_def encode_def Let_def recHeaderLen_def unat_of_nat_uint32)
  have r1: "ReadAt (dq_fs q) (Handle (seg_id s)) (nat (dq_headOff q)) recHeaderLen = (Some hdr, dq_fs q)"
    by (rule ReadAt_ok [OF fl _ hdr(1)]) (simp only: dr hdr_def)
  have "drop (nat (dq_headOff q) + recHeaderLen) (file_bytes (dq_fs q) (seg_id s)) = drop recHeaderLen (encode m @ ?rest)"
    using dr by (metis drop_drop add.commute)
  also have "\<dots> = encode_body m @ ?rest" using get_encode(3) [OF n(3)] by simp
  finally have r2: "ReadAt (dq_fs q) (Handle (seg_id s)) (nat (dq_headOff q) + recHeaderLen) ?n =
      (Some (encode_body m), dq_fs q)"
    by (intro ReadAt_ok [OF fl]) simp_all
  let ?q' = "q1\<lparr>dq_peeked := Some m, dq_peekLen := int (recHeaderLen + ?n)\<rparr>"
  have "dq_count q \<noteq> 0" using c by (simp add: dq_core_def)
  then have "peekLocked q = (Inr (Some m), ?q')"
    using pk op r1 r2 hdr n decode_encode_body [OF m]
    by (simp add: peekLocked_def Let_def q1_def del: ReadAt.simps)
  moreover have "dq_core ?q' ((m # ms) # mss)"
    using c by (simp add: dq_core_def q1_def ss length_encode)
  ultimately show thesis
    by (rule that) (simp_all add: q1_def same_opts_def)
qed

lemma Peek_rep:
  assumes r: "dq_rep q mss"
  shows "\<exists>q'. dq_Peek q = (Inr (case concat mss of [] \<Rightarrow> None | m # _ \<Rightarrow> Some m), q') \<and> dq_rep q' mss \<and>
     dq_dropped q' = dq_dropped q \<and> same_opts q q' \<and> (concat mss \<noteq> [] \<longrightarrow> dq_peeked q' \<noteq> None)"
proof -
  have c: "dq_core q mss" and f: "dq_full q mss" using dq_repD [OF r] by auto
  consider (empty) "dq_count q = 0" | (pk) x where "dq_peeked q = Some x" "dq_count q \<noteq> 0"
    | (read) "dq_peeked q = None" "dq_count q \<noteq> 0" by fastforce
  then show ?thesis
  proof cases
    case empty
    then have e: "concat mss = []" using c by (simp add: dq_core_def)
    have "dq_Peek q = (Inr None, q)" using empty by (simp add: dq_Peek_def peekLocked_def)
    then show ?thesis using r unfolding e by (simp add: same_opts_def)
  next
    case pk
    obtain m ms mss' where mss: "mss = (m # ms) # mss'" using head_nonempty [OF c f pk(2)] .
    then have "x = m" using c pk(1) by (auto simp: dq_core_def)
    then show ?thesis using pk r mss by (simp add: dq_Peek_def peekLocked_def same_opts_def)
  next
    case read
    obtain m ms mss' where mss: "mss = (m # ms) # mss'" using head_nonempty [OF c f read(2)] .
    obtain q' where q': "peekLocked q = (Inr (Some m), q')" "dq_core q' mss" "dq_peeked q' = Some m"
      "dq_fs q' = dq_fs q" "dq_segments q' = dq_segments q" "dq_headOff q' = dq_headOff q"
      "dq_dropped q' = dq_dropped q" "same_opts q q'" "dq_bytes q' = dq_bytes q"
      using peek_core [OF c [unfolded mss] read(1)] mss by metis
    have "dq_rep q' mss"
      using r q' by (auto simp: dq_rep_def dq_rep0_def dq_full_def same_opts_def)
    then show ?thesis using q' mss by (simp add: dq_Peek_def)
  qed
qed

lemma concat_encode_Nil: "concat (map encode ms) = [] \<longleftrightarrow> ms = []"
  by (cases ms) (auto simp: encode_def Let_def put_uint32_def)

text \<open>The state of \<^verbatim>\<open>Ack\<close> after it has moved the cursor over the record.\<close>

lemma advance_core:
  assumes c: "dq_core q ((m # ms) # mss)" and pk: "dq_peeked q = Some m"
  defines "h \<equiv> hd (dq_segments q)"
  defines "q1 \<equiv> q\<lparr>dq_headOff := dq_headOff q + dq_peekLen q, dq_count := dq_count q - 1,
     dq_segments := h\<lparr>seg_records := seg_records h - 1\<rparr> # tl (dq_segments q), dq_peeked := None\<rparr>"
  shows "dq_core q1 (ms # mss)" "dq_headOff q1 \<ge> seg_size h \<longleftrightarrow> ms = []"
proof -
  obtain ss where ss: "dq_segments q = h # ss" using c by (cases "dq_segments q") (auto simp: dq_core_def h_def)
  obtain pre where pre: "fs_file (dq_fs q) (seg_id h) = Some (pre @ encode m @ concat (map encode ms))"
    "length pre = nat (dq_headOff q)" "dq_headOff q \<ge> 0"
    "seg_size h = dq_headOff q + int (length (encode m)) + int (length (concat (map encode ms)))"
    using c by (auto simp: dq_core_def ss)
  have pl: "dq_peekLen q = int (length (encode m))" using c pk by (auto simp: dq_core_def)
  have nat_off: "nat (dq_headOff q + int (length (encode m))) = length (pre @ encode m)"
    using pre(2,3) by simp
  have "fs_file (dq_fs q) (seg_id h) = Some ((pre @ encode m) @ concat (map encode ms))" using pre(1) by simp
  then have "segs_rep (fs_file (dq_fs q1)) (nat (dq_headOff q1)) (dq_segments q1) (ms # mss)"
    using c nat_off pre(2-4) unfolding q1_def ss pl by (auto simp: dq_core_def ss)
  then show "dq_core q1 (ms # mss)"
    using c pl unfolding dq_core_def q1_def by (auto simp: ss)
  show "dq_headOff q1 \<ge> seg_size h \<longleftrightarrow> ms = []"
    using pre(4) pl concat_encode_Nil [of ms] by (simp add: q1_def)
qed

lemma resetOnly_core:
  assumes c: "dq_core q [ms]"
  obtains q' where "resetOnly cnt q = (None, headed q')" "dq_core q' [[]]" "dq_headOff q' = 0"
    "seg_size (last (dq_segments q')) = 0" "same_opts q q'" "dq_bytes q' = 0"
    "dq_dropped q' = dq_dropped q + (if cnt then int (length ms) else 0)"
proof -
  obtain s where ss: "dq_segments q = [s]" using core_mss [OF c] by (cases "dq_segments q") auto
  let ?q' = "q\<lparr>dq_dropped := (if cnt then dq_dropped q + seg_records s else dq_dropped q),
     dq_reader := None, dq_peeked := None, dq_fs := fs_write (seg_id s) [] (dq_fs q),
     dq_segments := [s\<lparr>seg_size := 0, seg_records := 0\<rparr>], dq_headOff := 0, dq_bytes := 0, dq_count := 0\<rparr>"
  have core: "dq_core ?q' [[]]" using c by (auto simp: dq_core_def ss)
  have rec: "seg_records s = int (length ms)" using c by (simp add: dq_core_def ss)
  have "resetOnly cnt q = (None, headed ?q')"
    using c by (simp add: resetOnly_def dq_core_def ss writeHead_ok)
  then show thesis by (rule that [OF _ core]) (simp_all add: same_opts_def rec)
qed

lemma advance_rep:
  assumes r: "dq_rep q ((m # ms) # mss)" and pk: "dq_peeked q = Some m"
  shows "\<exists>q' mss'. ack_advance q = (None, q') \<and> dq_rep q' mss' \<and> concat mss' = ms @ concat mss \<and>
    dq_dropped q' = dq_dropped q \<and> same_opts q q'"
proof -
  have c: "dq_core q ((m # ms) # mss)" and f: "dq_full q ((m # ms) # mss)" using dq_repD [OF r] by auto
  obtain h ss where ss: "dq_segments q = h # ss" using c by (cases "dq_segments q") (auto simp: dq_core_def)
  define q1 where "q1 = q\<lparr>dq_headOff := dq_headOff q + dq_peekLen q, dq_count := dq_count q - 1,
     dq_segments := h\<lparr>seg_records := seg_records h - 1\<rparr> # ss, dq_peeked := None\<rparr>"
  have c1: "dq_core q1 (ms # mss)" and fin: "dq_headOff q1 \<ge> seg_size h \<longleftrightarrow> ms = []"
    using advance_core [OF c pk] by (simp_all add: ss q1_def)
  have b: "dq_bytes q \<le> dq_MaxBytes q \<or> mss = []" using r by (auto simp: dq_rep_def)
  have q1: "dq_dropped q1 = dq_dropped q" "dq_bytes q1 = dq_bytes q" "same_opts q q1" "dq_headOff q1 \<ge> 0"
    using c1 by (simp_all add: q1_def same_opts_def dq_core_def)
  have unf: "ack_advance q = (if ms = [] then if mss \<noteq> [] then dropHead False q1 else resetOnly False q1 else writeHead q1)"
  proof -
    have "ack_advance q = (if dq_headOff q1 \<ge> seg_size h
        then (if length (dq_segments q1) > 1 then dropHead False q1 else resetOnly False q1) else writeHead q1)"
      by (simp add: ack_advance_def Let_def ss q1_def)
    moreover have "length (dq_segments q1) > 1 \<longleftrightarrow> mss \<noteq> []" using core_mss [OF c1] by (cases mss) auto
    ultimately show ?thesis using fin by simp
  qed
  consider (more) "ms \<noteq> []" | (next_seg) "ms = []" "mss \<noteq> []" | (last_seg) "ms = []" "mss = []" by blast
  then show ?thesis
  proof cases
    case more
    have "ack_advance q = (None, headed q1)"
      using more unf writeHead_ok [of q1] c1 by (simp add: dq_core_def)
    moreover have "dq_full (headed q1) (ms # mss)"
      using f more q1(4) by (intro headed_full) (auto simp: dq_full_def q1_def ss split: if_splits)
    then have "dq_rep (headed q1) (ms # mss)"
      using headed_core [OF c1] b q1(2) by (auto simp: dq_rep_def dq_rep0_def headed_def q1_def)
    ultimately show ?thesis using q1 by (intro exI [of _ "headed q1"] exI [of _ "ms # mss"])
        (simp add: headed_def same_opts_def)
  next
    case next_seg
    obtain q2 where q2: "dropHead False q1 = (None, headed q2)" "dq_core q2 mss"
      "dq_segments q2 = ss" "dq_headOff q2 = 0" "dq_dropped q2 = dq_dropped q" "same_opts q q2"
      "dq_bytes q2 = dq_bytes q - seg_size h"
      using dropHead_core [OF c1 next_seg(2), of False] q1 by (auto simp: q1_def same_opts_def)
    have "seg_size h \<ge> 0" using c by (simp add: dq_core_def ss)
    then have b2: "dq_bytes q2 \<le> dq_MaxBytes q2" using q2(6,7) b next_seg(2) by (auto simp: same_opts_def)
    have "dq_full (headed q2) mss"
      using f next_seg(2) q2(3,4) core_mss [OF q2(2)] by (intro headed_full) (auto simp: dq_full_def ss split: if_splits)
    then have "dq_rep (headed q2) mss"
      using headed_core [OF q2(2)] b2 by (auto simp: dq_rep_def dq_rep0_def headed_def)
    then show ?thesis using unf next_seg q2 by (intro exI [of _ "headed q2"] exI [of _ mss])
        (simp add: headed_def same_opts_def)
  next
    case last_seg
    obtain q2 where q2: "resetOnly False q1 = (None, headed q2)" "dq_core q2 [[]]" "dq_headOff q2 = 0"
      "seg_size (last (dq_segments q2)) = 0" "dq_dropped q2 = dq_dropped q" "same_opts q q2"
      using resetOnly_core [of q1 "[]" False] c1 last_seg q1 by (auto simp: same_opts_def)
    have "dq_full (headed q2) [[]]" using q2 by (intro headed_full) auto
    then have "dq_rep (headed q2) [[]]" using headed_core [OF q2(2)] by (simp add: dq_rep_def dq_rep0_def)
    then show ?thesis using unf last_seg q2 by (intro exI [of _ "headed q2"] exI [of _ "[[]]"])
        (simp add: headed_def same_opts_def)
  qed
qed

lemma Ack_rep:
  assumes r: "dq_rep q mss"
  shows "\<exists>q' mss'. dq_Ack q = (None, q') \<and> dq_rep q' mss' \<and> concat mss' = tl (concat mss) \<and>
    dq_dropped q' = dq_dropped q \<and> same_opts q q'"
proof (cases "dq_count q = 0")
  case True
  then have e: "concat mss = []" using dq_repD [OF r] by (simp add: dq_core_def)
  show ?thesis unfolding e using True r e by (intro exI [of _ q] exI [of _ mss]) (auto simp: dq_Ack_def same_opts_def)
next
  case False
  have c: "dq_core q mss" and f: "dq_full q mss" using dq_repD [OF r] by auto
  obtain m ms mss' where mss: "mss = (m # ms) # mss'" using head_nonempty [OF c f False] .
  show ?thesis
  proof (cases "dq_peeked q")
    case None
    from Peek_rep [OF r] obtain q1 where q1: "peekLocked q = (Inr (Some m), q1)" "dq_rep q1 mss"
      "dq_dropped q1 = dq_dropped q" "same_opts q q1" "dq_peeked q1 \<noteq> None"
      by (auto simp: mss dq_Peek_def)
    then have "dq_peeked q1 = Some m" using dq_repD [OF q1(2)] by (auto simp: dq_core_def mss)
    then show ?thesis
      using advance_rep [OF q1(2) [unfolded mss]] q1 None False mss by (auto simp: dq_Ack_def same_opts_def)
  next
    case (Some x)
    then have "x = m" using c mss by (auto simp: dq_core_def)
    then show ?thesis using advance_rep [OF r [unfolded mss]] Some False mss by (auto simp: dq_Ack_def)
  qed
qed

text \<open>The queue on disk, with a healthy file system, is a queue in the sense of the port.\<close>

interpretation disk_queue: queue_contract disk_queue_ops dq_invar dq_contents dq_storable
proof unfold_locales
  fix q m assume "dq_invar q" "dq_storable m"
  then obtain mss where r: "dq_rep q mss" by (auto simp: dq_invar_def)
  have "dq_contents q = concat mss" using dq_contents_rep dq_repD [OF r] by blast
  moreover have "dq_contents q' = concat mss'" if "dq_rep q' mss'" for q' mss'
    using dq_contents_rep dq_repD [OF that] by blast
  ultimately show "\<exists>k q'. q_push disk_queue_ops m q = (None, q') \<and> dq_invar q' \<and> k \<le> length (dq_contents q) \<and>
      dq_contents q' = drop k (dq_contents q @ [m]) \<and>
      q_dropped disk_queue_ops q' = q_dropped disk_queue_ops q + int k"
    using Push_rep [OF r \<open>dq_storable m\<close>] unfolding disk_queue_ops_def dq_invar_def
    by (simp del: drop_append) metis
next
  fix q assume "dq_invar q"
  then obtain mss where r: "dq_rep q mss" by (auto simp: dq_invar_def)
  have c: "dq_contents q' = concat mss'" if "dq_rep q' mss'" for q' mss'
    using dq_contents_rep dq_repD [OF that] by blast
  show "\<exists>q'. q_peek disk_queue_ops q = (Inr (case dq_contents q of [] \<Rightarrow> None | m # _ \<Rightarrow> Some m), q') \<and>
      dq_invar q' \<and> dq_contents q' = dq_contents q \<and> q_dropped disk_queue_ops q' = q_dropped disk_queue_ops q"
    using Peek_rep [OF r] c [OF r] c unfolding disk_queue_ops_def dq_invar_def by (auto; metis)
  show "\<exists>q'. q_ack disk_queue_ops q = (None, q') \<and> dq_invar q' \<and> dq_contents q' = tl (dq_contents q) \<and>
      q_dropped disk_queue_ops q' = q_dropped disk_queue_ops q"
    using Ack_rep [OF r] c [OF r] c unfolding disk_queue_ops_def dq_invar_def by (auto; metis)
  show "q_len disk_queue_ops q = int (length (dq_contents q))"
    using dq_repD [OF r] c [OF r] by (simp add: disk_queue_ops_def dq_core_def)
  fix m assume "m \<in> set (dq_contents q)"
  moreover have "segs_rep F off ss mss \<Longrightarrow> \<forall>ms \<in> set mss. \<forall>m \<in> set ms. dq_storable m" for F off ss
    by (induction F off ss mss rule: segs_rep.induct) auto
  ultimately show "dq_storable m"
    using dq_repD [OF r] c [OF r] by (auto simp: dq_core_def)
qed

section \<open>Recovery\<close>

lemma cursor_cases:
  assumes "head_ok fs i off" "i < 2 ^ 64" "off < 2 ^ 63"
  obtains hid hoff where "cursor fs = (hid, hoff)" "hid = i \<and> hoff = off \<or> hid < i \<and> off = 0"
proof -
  obtain hid hoff where h: "fs_head fs = Some (format_head hid (int hoff)) \<or> cursor fs = (hid, int hoff)"
    "hid = i \<and> int hoff = off \<or> hid < i \<and> off = 0"
    using assms(1) by (auto simp: head_ok_def)
  show thesis
  proof (cases "cursor fs = (hid, int hoff)")
    case True
    then show ?thesis using that h by blast
  next
    case False
    then have "cursor fs = (if hoff < 2 ^ 63 then (hid, int hoff) else (0, 0))"
      using h parse_format_head [of hid hoff] assms(2) by (auto simp: cursor_def)
    moreover have "hoff < 2 ^ 63" if "hid = i" "int hoff = off" using that assms(3) by simp
    ultimately show ?thesis using that h(2) False by (auto split: if_splits)
  qed
qed

text \<open>Scanning a file that consists of valid records behind the offset and then junk.\<close>

lemma scanSegment_ok:
  assumes fl: "fs_faults fs = []" and st: "\<forall>m \<in> set ms. dq_storable m" and junk: "\<not> record_ok junk"
    and f: "fs_file fs i = Some (pre @ concat (map encode ms) @ junk)" "length pre = off"
  shows "scanSegment i off fs = (Inr (off + length (concat (map encode ms)), length ms),
    fs_write i (pre @ concat (map encode ms)) fs)"
  using fl f scan_encoded [OF st junk] by (simp add: scanSegment_def truncate_to_def)

text \<open>\<open>F\<close> holds what \<open>G\<close> holds, with junk behind it that no scan takes for a record.\<close>

definition junk_behind :: "(nat \<rightharpoonup> byte list) \<Rightarrow> (nat \<rightharpoonup> byte list) \<Rightarrow> nat \<Rightarrow> bool" where
  "junk_behind G F i \<longleftrightarrow> (\<exists>bs junk. G i = Some bs \<and> F i = Some (bs @ junk) \<and> \<not> record_ok junk)"

lemma recover_step:
  assumes rep: "segs_rep G off (s # ss) (ms # mss)" and fl: "fs_faults (dq_fs q) = []"
    and j: "junk_behind G (fs_file (dq_fs q)) (seg_id s)"
    and h: "hid = seg_id s \<and> hoff = int off \<or> hid < seg_id s \<and> off = 0"
  obtains bs where "G (seg_id s) = Some bs" "recover_loop hid hoff (map seg_id (s # ss)) q =
    recover_loop hid hoff (map seg_id ss) (q\<lparr>dq_fs := fs_write (seg_id s) bs (dq_fs q),
      dq_segments := dq_segments q @ [s], dq_headOff := (if seg_id s = hid then int off else dq_headOff q),
      dq_count := dq_count q + int (length ms), dq_bytes := dq_bytes q + seg_size s\<rparr>)"
proof -
  obtain pre where pre: "G (seg_id s) = Some (pre @ concat (map encode ms))" "length pre = off"
    "seg_size s = int (off + length (concat (map encode ms)))" "seg_records s = int (length ms)"
    "\<forall>m \<in> set ms. dq_storable m" using rep by auto
  obtain junk where junk: "fs_file (dq_fs q) (seg_id s) = Some (pre @ concat (map encode ms) @ junk)" "\<not> record_ok junk"
    using j pre(1) by (auto simp: junk_behind_def)
  have st: "(if seg_id s = hid then nat hoff else 0) = off" using h by auto
  have s: "\<lparr>seg_id = seg_id s, seg_size = int (off + length (concat (map encode ms))), seg_records = int (length ms)\<rparr> = s"
    using pre by (cases s) simp
  have "\<not> seg_id s < hid" using h by auto
  moreover have "min hoff (int (off + length (concat (map encode ms)))) = int off" if "seg_id s = hid"
    using h that by auto
  ultimately have "recover_loop hid hoff (map seg_id (s # ss)) q =
    recover_loop hid hoff (map seg_id ss) (q\<lparr>dq_fs := fs_write (seg_id s) (pre @ concat (map encode ms)) (dq_fs q),
      dq_segments := dq_segments q @ [s], dq_headOff := (if seg_id s = hid then int off else dq_headOff q),
      dq_count := dq_count q + int (length ms), dq_bytes := dq_bytes q + seg_size s\<rparr>)"
    using scanSegment_ok [OF fl pre(5) junk(2) junk(1) pre(2)] st s pre(3) by simp
  with pre(1) that show thesis by blast
qed

lemma recover_loop_tail:
  assumes "segs_rep G 0 ss mss" "distinct (map seg_id ss)" "\<forall>s \<in> set ss. hid < seg_id s"
    "\<forall>s \<in> set ss. junk_behind G (fs_file (dq_fs q)) (seg_id s)" "fs_faults (dq_fs q) = []"
    "distinct (map fst (fs_segs (dq_fs q)))"
  shows "\<exists>fs'. recover_loop hid hoff (map seg_id ss) q = (None, q\<lparr>dq_fs := fs', dq_segments := dq_segments q @ ss,
      dq_count := dq_count q + int (length (concat mss)), dq_bytes := dq_bytes q + sum_list (map seg_size ss)\<rparr>) \<and>
    fs_faults fs' = [] \<and> fs_head fs' = fs_head (dq_fs q) \<and> distinct (map fst (fs_segs fs')) \<and>
    fs_file fs' = (\<lambda>i. if i \<in> seg_id ` set ss then G i else fs_file (dq_fs q) i)"
  using assms
proof (induction G "0 :: nat" ss mss arbitrary: q rule: segs_rep.induct)
  case (1 G)
  then show ?case by (intro exI [of _ "dq_fs q"]) simp
next
  case (2 G s ss ms mss)
  have lt: "hid = seg_id s \<and> hoff = int 0 \<or> hid < seg_id s \<and> (0 :: nat) = 0" using "2.prems"(3) by simp
  have j: "junk_behind G (fs_file (dq_fs q)) (seg_id s)" using "2.prems"(4) by simp
  obtain bs where bs: "G (seg_id s) = Some bs" "recover_loop hid hoff (map seg_id (s # ss)) q =
    recover_loop hid hoff (map seg_id ss) (q\<lparr>dq_fs := fs_write (seg_id s) bs (dq_fs q),
      dq_segments := dq_segments q @ [s], dq_headOff := (if seg_id s = hid then int 0 else dq_headOff q),
      dq_count := dq_count q + int (length ms), dq_bytes := dq_bytes q + seg_size s\<rparr>)"
    using recover_step [OF "2.prems"(1,5) j lt] by metis
  let ?q1 = "q\<lparr>dq_fs := fs_write (seg_id s) bs (dq_fs q), dq_segments := dq_segments q @ [s],
      dq_count := dq_count q + int (length ms), dq_bytes := dq_bytes q + seg_size s\<rparr>"
  have ne: "seg_id s \<noteq> hid" "seg_id s \<notin> seg_id ` set ss" using "2.prems"(2,3) by auto
  have "\<forall>x \<in> set ss. junk_behind G (fs_file (dq_fs ?q1)) (seg_id x)"
    using "2.prems"(4) ne(2) by (auto simp: junk_behind_def intro: rev_image_eqI)
  moreover have "segs_rep G 0 ss mss" "distinct (map seg_id ss)" using "2.prems"(1,2) by auto
  ultimately obtain fs' where fs': "recover_loop hid hoff (map seg_id ss) ?q1 =
      (None, ?q1\<lparr>dq_fs := fs', dq_segments := dq_segments ?q1 @ ss,
        dq_count := dq_count ?q1 + int (length (concat mss)), dq_bytes := dq_bytes ?q1 + sum_list (map seg_size ss)\<rparr>)"
    "fs_faults fs' = []" "fs_head fs' = fs_head (dq_fs ?q1)" "distinct (map fst (fs_segs fs'))"
    "fs_file fs' = (\<lambda>i. if i \<in> seg_id ` set ss then G i else fs_file (dq_fs ?q1) i)"
    using "2.hyps"(1) [of ?q1] "2.prems"(3,5,6) by auto
  show ?case
    using fs' bs ne by (intro exI [of _ fs']) (auto simp: fun_eq_iff)
qed simp_all

text \<open>A directory that differs from the one of a queue only by junk behind the records.\<close>

definition crash_image :: "disk_queue \<Rightarrow> disk_fs \<Rightarrow> bool" where
  "crash_image q fs \<longleftrightarrow> fs_faults fs = [] \<and> fs_head fs = fs_head (dq_fs q) \<and>
     distinct (map fst (fs_segs fs)) \<and>
     (\<forall>i. fs_file fs i \<noteq> None \<longrightarrow> i \<in> seg_id ` set (dq_segments q)) \<and>
     (\<forall>s \<in> set (dq_segments q). junk_behind (fs_file (dq_fs q)) (fs_file fs) (seg_id s))"

lemma directory_order:
  assumes c: "dq_core q mss" and im: "crash_image q fs" and small: "seg_id (last (dq_segments q)) < 2 ^ 64"
  shows "sort (filter (\<lambda>i. i < 2 ^ 64) (map fst (fs_segs fs))) = map seg_id (dq_segments q)"
proof (rule sorted_distinct_set_unique)
  let ?ids = "map fst (fs_segs fs)"
  have keys: "set ?ids = seg_id ` set (dq_segments q)"
  proof
    show "set ?ids \<subseteq> seg_id ` set (dq_segments q)"
    proof
      fix i assume "i \<in> set ?ids"
      then have "fs_file fs i \<noteq> None" by (simp add: fs_file_def map_of_eq_None_iff)
      then show "i \<in> seg_id ` set (dq_segments q)" using im by (auto simp: crash_image_def)
    qed
    show "seg_id ` set (dq_segments q) \<subseteq> set ?ids"
    proof
      fix i assume "i \<in> seg_id ` set (dq_segments q)"
      then have "fs_file fs i \<noteq> None" using im by (auto simp: crash_image_def junk_behind_def)
      then show "i \<in> set ?ids" by (simp add: fs_file_def map_of_eq_None_iff)
    qed
  qed
  have so: "sorted_wrt (<) (map seg_id (dq_segments q))" using c by (simp add: dq_core_def)
  have "\<forall>x \<in> set (dq_segments q). seg_id x < 2 ^ 64"
    using sorted_last_max [OF so] small by (auto intro: le_less_trans)
  then show "set (sort (filter (\<lambda>i. i < 2 ^ 64) ?ids)) = set (map seg_id (dq_segments q))"
    using keys by auto
  show "distinct (sort (filter (\<lambda>i. i < 2 ^ 64) ?ids))"
    using im by (simp add: crash_image_def)
  show "sorted (map seg_id (dq_segments q))" "distinct (map seg_id (dq_segments q))"
    using so by (simp_all add: strict_sorted_iff)
qed simp

lemma recover_rep:
  assumes c: "dq_core q mss" and f: "dq_full q mss" and im: "crash_image q fs"
    and small: "seg_id (last (dq_segments q)) < 2 ^ 64" "dq_headOff q < 2 ^ 63"
    and bound: "dq_bytes q \<le> mx \<or> length mss = 1"
  obtains q' where "recover (empty_queue fs mx sb sync) = (None, q')" "dq_rep q' mss"
    "dq_segments q' = dq_segments q" "dq_headOff q' = dq_headOff q" "dq_MaxBytes q' = mx"
proof -
  obtain s ss where ss: "dq_segments q = s # ss" using c by (cases "dq_segments q") (auto simp: dq_core_def)
  obtain ms mss' where mss: "mss = ms # mss'" using core_mss [OF c] by (cases mss) auto
  let ?G = "fs_file (dq_fs q)" and ?off = "nat (dq_headOff q)"
  have so: "sorted_wrt (<) (map seg_id (s # ss))" using c ss by (simp add: dq_core_def)
  then have dist: "distinct (map seg_id (s # ss))" using strict_sorted_iff by blast
  have rep: "segs_rep ?G ?off (s # ss) (ms # mss')" and off0: "dq_headOff q \<ge> 0"
    using c ss mss by (simp_all add: dq_core_def)
  have sm: "seg_id s < 2 ^ 64"
    using sorted_last_max [OF so, of s] small(1) ss by simp
  have fl: "fs_faults fs = []" using im by (simp add: crash_image_def)
  have hk: "head_ok fs (seg_id s) (dq_headOff q)"
    using f im ss by (simp add: dq_full_def head_ok_def crash_image_def cursor_def)
  obtain hid hoff where cur: "cursor fs = (hid, hoff)"
    and h: "hid = seg_id s \<and> hoff = dq_headOff q \<or> hid < seg_id s \<and> dq_headOff q = 0"
    by (rule cursor_cases [OF hk sm small(2)])
  have rh: "readHead fs = ((hid, hoff), fs)" using fl cur by (simp add: readHead_def cursor_def)
  let ?q0 = "empty_queue fs mx sb sync"
  have h': "hid = seg_id s \<and> hoff = int ?off \<or> hid < seg_id s \<and> ?off = 0" using h off0 by auto
  have j: "junk_behind ?G (fs_file (dq_fs ?q0)) (seg_id s)" using im ss by (simp add: crash_image_def empty_queue_def)
  obtain bs where bs: "?G (seg_id s) = Some bs" "recover_loop hid hoff (map seg_id (s # ss)) ?q0 =
    recover_loop hid hoff (map seg_id ss) (?q0\<lparr>dq_fs := fs_write (seg_id s) bs (dq_fs ?q0),
      dq_segments := dq_segments ?q0 @ [s], dq_headOff := (if seg_id s = hid then int ?off else dq_headOff ?q0),
      dq_count := dq_count ?q0 + int (length ms), dq_bytes := dq_bytes ?q0 + seg_size s\<rparr>)"
    using recover_step [OF rep _ j h'] fl by (auto simp: empty_queue_def)
  let ?q1 = "?q0\<lparr>dq_fs := fs_write (seg_id s) bs fs, dq_segments := [s], dq_headOff := dq_headOff q,
      dq_count := int (length ms), dq_bytes := seg_size s\<rparr>"
  have eq1: "recover_loop hid hoff (map seg_id (s # ss)) ?q0 = recover_loop hid hoff (map seg_id ss) ?q1"
    using bs(2) h off0 by (auto simp: empty_queue_def)
  have "\<exists>fs'. recover_loop hid hoff (map seg_id ss) ?q1 = (None, ?q1\<lparr>dq_fs := fs', dq_segments := dq_segments ?q1 @ ss,
      dq_count := dq_count ?q1 + int (length (concat mss')), dq_bytes := dq_bytes ?q1 + sum_list (map seg_size ss)\<rparr>) \<and>
    fs_faults fs' = [] \<and> fs_head fs' = fs_head (dq_fs ?q1) \<and> distinct (map fst (fs_segs fs')) \<and>
    fs_file fs' = (\<lambda>i. if i \<in> seg_id ` set ss then ?G i else fs_file (dq_fs ?q1) i)"
  proof (rule recover_loop_tail)
    show "segs_rep ?G 0 ss mss'" "distinct (map seg_id ss)" using rep dist by simp_all
    show "\<forall>x \<in> set ss. hid < seg_id x" using so h by auto
    show "\<forall>x \<in> set ss. junk_behind ?G (fs_file (dq_fs ?q1)) (seg_id x)"
      using im ss dist by (auto simp: crash_image_def junk_behind_def intro: rev_image_eqI)
  qed (use fl im in \<open>simp_all add: crash_image_def\<close>)
  then obtain fs' where loop: "recover_loop hid hoff (map seg_id (s # ss)) ?q0 =
      (None, ?q0\<lparr>dq_headOff := dq_headOff q, dq_fs := fs', dq_segments := s # ss,
        dq_count := int (length (concat mss)), dq_bytes := sum_list (map seg_size (s # ss))\<rparr>)"
    and fs': "fs_faults fs' = []" "fs_head fs' = fs_head fs" "distinct (map fst (fs_segs fs'))"
      "fs_file fs' = (\<lambda>i. if i \<in> seg_id ` set ss then ?G i else ((fs_file fs)(seg_id s \<mapsto> bs)) i)"
    unfolding eq1 by (auto simp: mss cong: if_cong)
  have same: "\<forall>x \<in> set (s # ss). fs_file fs' (seg_id x) = ?G (seg_id x)" using fs'(4) bs(1) by auto
  let ?q2 = "?q0\<lparr>dq_headOff := dq_headOff q, dq_fs := fs', dq_segments := s # ss,
        dq_count := int (length (concat mss)), dq_bytes := sum_list (map seg_size (s # ss)),
        dq_writer := Handle (seg_id (last (s # ss)))\<rparr>"
  have "fs_file fs' (seg_id (last (s # ss))) \<noteq> None"
  proof -
    have "last (s # ss) \<in> set (s # ss)" by (rule last_in_set) simp
    then show ?thesis using same im ss by (auto simp: crash_image_def junk_behind_def simp del: last.simps)
  qed
  then have ow: "openWriter (?q0\<lparr>dq_headOff := dq_headOff q, dq_fs := fs', dq_segments := s # ss,
        dq_count := int (length (concat mss)), dq_bytes := sum_list (map seg_size (s # ss))\<rparr>) = (None, ?q2)"
    using fs'(1) by (auto simp: openWriter_def simp del: last.simps)
  have "segs_rep (fs_file fs') ?off (s # ss) mss"
    using rep same mss by (subst segs_rep_cong [of _ _ ?G]) auto
  then have core2: "dq_core ?q2 mss"
    using so off0 fs' im ss
    unfolding dq_core_def by (auto simp: empty_queue_def crash_image_def simp del: last.simps segs_rep.simps split: if_splits)
  moreover have "dq_full ?q2 mss"
    using f hk fs'(2) ss by (simp add: dq_full_def head_ok_def cursor_def)
  moreover have "dq_bytes ?q2 \<le> dq_MaxBytes ?q2 \<or> length mss = 1"
    using bound c ss by (simp add: dq_core_def empty_queue_def)
  ultimately have r2: "dq_rep ?q2 mss" by (simp add: dq_rep_def dq_rep0_def)
  have "enforceBound ?q2 = (None, ?q2)"
    using r2 core_mss [OF core2] by (subst enforceBound.simps) (auto simp: dq_rep_def)
  then have "recover ?q0 = (None, ?q2)"
    using fl rh directory_order [OF c im small(1)] loop ow ss
    by (simp add: recover_def empty_queue_def del: recover_loop.simps)
  then show thesis by (rule that [OF _ r2]) (simp_all add: ss empty_queue_def)
qed

definition empty_dir :: disk_fs where
  "empty_dir = \<lparr>fs_segs = [], fs_head = None, fs_faults = []\<rparr>"

definition norm_segment_bytes :: "int \<Rightarrow> int \<Rightarrow> int" where
  "norm_segment_bytes mx sb =
     (let sb0 = (if sb \<le> 0 then DefaultSegmentBytes else sb) in if sb0 > mx div 2 then max (mx div 2) 1 else sb0)"

definition fresh_queue :: "int \<Rightarrow> int \<Rightarrow> bool \<Rightarrow> disk_queue" where
  "fresh_queue mx sb sync = (empty_queue empty_dir mx (norm_segment_bytes mx sb) sync)\<lparr>
     dq_segments := [\<lparr>seg_id = 1, seg_size = 0, seg_records = 0\<rparr>],
     dq_fs := fs_write 1 [] empty_dir, dq_writer := Handle 1\<rparr>"

lemma Open_empty: "0 < mx \<Longrightarrow> dq_Open empty_dir mx sb sync = Inr (fresh_queue mx sb sync)"
  by (simp add: dq_Open_def Let_def recover_def empty_dir_def readHead_def roll_def openWriter_def fs_file_def
      enforceBound.simps fresh_queue_def empty_queue_def norm_segment_bytes_def)

lemma fresh_rep: "dq_rep (fresh_queue mx sb sync) [[]]"
  by (auto simp: dq_rep_def dq_rep0_def dq_core_def dq_full_def fresh_queue_def empty_queue_def empty_dir_def
      head_ok_def cursor_def fs_file_def fs_write_def)

section \<open>Properties\<close>

text \<open>
  C3: the queue on disk is a FIFO. As long as system calls succeed and the messages fit the
  record format, a push appends the message and evicts at most the oldest ones, which it
  adds to the drop counter, and keeps the byte budget unless a single segment is left; a
  peek returns the oldest message and an ack removes exactly that one; the length is the
  number of messages.
\<close>

theorem disk_queue_is_fifo:
  assumes "dq_invar q" "dq_storable m"
  shows "(\<exists>k q'. dq_Push m q = (None, q') \<and> dq_invar q' \<and> k \<le> length (dq_contents q) \<and>
      dq_contents q' = drop k (dq_contents q @ [m]) \<and> dq_dropped q' = dq_dropped q + int k \<and>
      (dq_bytes q' \<le> dq_MaxBytes q \<or> length (dq_segments q') = 1)) \<and>
    (\<exists>q'. dq_Peek q = (Inr (case dq_contents q of [] \<Rightarrow> None | x # _ \<Rightarrow> Some x), q') \<and> dq_invar q' \<and>
      dq_contents q' = dq_contents q) \<and>
    (\<exists>q'. dq_Ack q = (None, q') \<and> dq_invar q' \<and> dq_contents q' = tl (dq_contents q) \<and>
      dq_dropped q' = dq_dropped q) \<and>
    dq_count q = int (length (dq_contents q))"
proof -
  obtain mss where r: "dq_rep q mss" using assms by (auto simp: dq_invar_def)
  obtain k q' mss' where p: "dq_Push m q = (None, q')" "dq_rep q' mss'" "k \<le> length (concat mss)"
    "concat mss' = drop k (concat mss @ [m])" "dq_dropped q' = dq_dropped q + int k" "same_opts q q'"
    using Push_rep [OF r assms(2)] by blast
  have "dq_contents q = concat mss" "dq_contents q' = concat mss'"
    using dq_contents_rep dq_repD [OF r] dq_repD [OF p(2)] by blast+
  moreover have "dq_bytes q' \<le> dq_MaxBytes q \<or> length (dq_segments q') = 1"
    using p(2,6) core_mss [of q' mss'] by (auto simp: dq_rep_def dq_rep0_def same_opts_def)
  ultimately have "\<exists>k q'. dq_Push m q = (None, q') \<and> dq_invar q' \<and> k \<le> length (dq_contents q) \<and>
      dq_contents q' = drop k (dq_contents q @ [m]) \<and> dq_dropped q' = dq_dropped q + int k \<and>
      (dq_bytes q' \<le> dq_MaxBytes q \<or> length (dq_segments q') = 1)"
    using p by (intro exI [of _ k] exI [of _ q']) (auto simp: dq_invar_def)
  then show ?thesis
    using disk_queue.peek_law [OF assms(1)] disk_queue.ack_law [OF assms(1)] disk_queue.len_law [OF assms(1)]
    by (auto simp: disk_queue_ops_def)
qed

definition sample_msg :: message where
  "sample_msg = \<lparr>m_topic = ''a/b'', m_payload = [1, 2], m_retain = False, m_at = 1700000000000000000\<rparr>"

lemma sample_storable: "dq_storable sample_msg"
  by (simp add: dq_storable_def sample_msg_def maxRecordBody_def)

lemma fresh_contents: "dq_contents (fresh_queue mx sb sync) = []"
  using dq_contents_rep [of "fresh_queue mx sb sync" "[[]]"] fresh_rep by (simp add: dq_rep_def dq_rep0_def)

theorem disk_queue_is_fifo_witness:
  "\<exists>q'. dq_Push sample_msg (fresh_queue 1000 100 False) = (None, q') \<and> dq_contents q' = [sample_msg] \<and>
     dq_dropped q' = 0"
proof -
  have i: "dq_invar (fresh_queue 1000 100 False)" using fresh_rep by (auto simp: dq_invar_def)
  have d: "dq_dropped (fresh_queue 1000 100 False) = 0" by (simp add: fresh_queue_def empty_queue_def)
  show ?thesis using disk_queue_is_fifo [OF i sample_storable] d by (auto simp: fresh_contents)
qed

lemma Open_after_crash:
  assumes "dq_invar q" "dq_storable m" "k < length (encode m)"
    and "seg_id (last (dq_segments q)) < 2 ^ 64" "dq_headOff q < 2 ^ 63" "0 < dq_MaxBytes q"
    and fs_def: "fs = fs_write (seg_id (last (dq_segments q)))
      (file_bytes (dq_fs q) (seg_id (last (dq_segments q))) @ take k (encode m)) (dq_fs q)"
  shows "\<exists>q'. dq_Open fs (dq_MaxBytes q) sb sync = Inr q' \<and> dq_invar q' \<and> dq_contents q' = dq_contents q"
proof -
  obtain mss where r: "dq_rep q mss" using assms by (auto simp: dq_invar_def)
  have c: "dq_core q mss" and f: "dq_full q mss" using dq_repD [OF r] by auto
  let ?t = "seg_id (last (dq_segments q))"
  let ?fs = "fs_write ?t (file_bytes (dq_fs q) ?t @ take k (encode m)) (dq_fs q)"
  have ne: "dq_segments q \<noteq> []" and fl: "fs_faults (dq_fs q) = []" using c by (simp_all add: dq_core_def)
  have has: "\<exists>bs. fs_file (dq_fs q) (seg_id s) = Some bs" if "s \<in> set (dq_segments q)" for s
  proof -
    have "segs_rep F off ss mss \<Longrightarrow> s \<in> set ss \<Longrightarrow> \<exists>bs. F (seg_id s) = Some bs" for F off ss
      by (induction F off ss mss rule: segs_rep.induct) auto
    then show ?thesis using c that by (auto simp: dq_core_def)
  qed
  have jb: "junk_behind (fs_file (dq_fs q)) (fs_file ?fs) (seg_id s)" if s: "s \<in> set (dq_segments q)" for s
  proof -
    obtain bs where bs: "fs_file (dq_fs q) (seg_id s) = Some bs" using has [OF s] by blast
    then have "fs_file ?fs (seg_id s) = Some (bs @ (if seg_id s = ?t then take k (encode m) else []))"
      by (auto simp: file_bytes_def)
    moreover have "\<not> record_ok (if seg_id s = ?t then take k (encode m) else [])"
      using torn_not_ok [OF assms(2,3)] by simp
    ultimately show ?thesis using bs unfolding junk_behind_def by blast
  qed
  have im: "crash_image q ?fs"
    using c fl ne jb unfolding crash_image_def dq_core_def by auto
  have bound: "dq_bytes q \<le> dq_MaxBytes q \<or> length mss = 1" using r by (simp add: dq_rep_def)
  obtain q' where q': "recover (empty_queue ?fs (dq_MaxBytes q) (norm_segment_bytes (dq_MaxBytes q) sb) sync) = (None, q')"
    "dq_rep q' mss"
    using recover_rep [OF c f im assms(4,5) bound] by metis
  have "dq_contents q' = dq_contents q"
    using dq_contents_rep [OF c] dq_contents_rep [of q' mss] dq_repD [OF q'(2)] by simp
  moreover have "dq_Open ?fs (dq_MaxBytes q) sb sync = Inr q'"
    using q'(1) fl assms(6) by (simp add: dq_Open_def Let_def norm_segment_bytes_def)
  ultimately show ?thesis using q'(2) unfolding fs_def by (auto simp: dq_invar_def)
qed

text \<open>
  C4: crash recovery. When the process dies at any point of an append, so that an arbitrary
  proper part of the new record is behind the complete ones in the tail file (nothing, for a
  crash between operations), opening the directory again succeeds and yields a queue with
  exactly the messages that were queued.
\<close>

theorem disk_queue_recovers:
  assumes "dq_invar q" "dq_storable m" "k < length (encode m)"
    and "seg_id (last (dq_segments q)) < 2 ^ 64" "dq_headOff q < 2 ^ 63" "0 < dq_MaxBytes q"
  shows "let t = seg_id (last (dq_segments q));
             fs = fs_write t (file_bytes (dq_fs q) t @ take k (encode m)) (dq_fs q)
    in \<exists>q'. dq_Open fs (dq_MaxBytes q) sb sync = Inr q' \<and> dq_invar q' \<and> dq_contents q' = dq_contents q"
  using Open_after_crash [OF assms refl] by (simp add: Let_def)

theorem disk_queue_recovers_witness:
  "\<exists>q q'. dq_Push sample_msg (fresh_queue 1000 100 False) = (None, q) \<and>
     dq_Open (fs_write 1 (encode sample_msg @ take 5 (encode sample_msg)) (dq_fs q)) 1000 100 False = Inr q' \<and>
     dq_contents q' = [sample_msg]"
proof -
  let ?q0 = "fresh_queue 1000 100 False" and ?n = "int (length (encode sample_msg))"
  define q where "q = ?q0\<lparr>dq_fs := fs_write 1 (encode sample_msg) (fs_write 1 [] empty_dir),
     dq_segments := [\<lparr>seg_id = 1, seg_size = ?n, seg_records = 1\<rparr>], dq_count := 1, dq_bytes := ?n\<rparr>"
  have n: "length (encode sample_msg) = 24"
    by (simp add: length_encode length_encode_body sample_msg_def recHeaderLen_def)
  have push: "dq_Push sample_msg ?q0 = (None, q)"
    by (simp add: dq_Push_def fresh_queue_def empty_queue_def empty_dir_def q_def enforceBound.simps
        file_bytes_def fs_file_def fs_write_def Let_def)
  obtain mss where r: "dq_rep q mss" and cc: "concat mss = [sample_msg]"
    using Push_rep [OF fresh_rep [of 1000 100 False] sample_storable] push by auto
  have inv: "dq_invar q" using r by (auto simp: dq_invar_def)
  have cont: "dq_contents q = [sample_msg]" using dq_contents_rep dq_repD [OF r] cc by metis
  have v: "seg_id (last (dq_segments q)) = 1" "dq_headOff q = 0" "dq_MaxBytes q = 1000"
    "file_bytes (dq_fs q) 1 = encode sample_msg"
    by (simp_all add: q_def fresh_queue_def empty_queue_def file_bytes_def)
  have "\<exists>q'. dq_Open (fs_write 1 (encode sample_msg @ take 5 (encode sample_msg)) (dq_fs q)) 1000 100 False = Inr q' \<and>
      dq_contents q' = [sample_msg]"
    using disk_queue_recovers [OF inv sample_storable, of 5 100 False] n v cont by auto
  then show ?thesis using push by blast
qed

section \<open>Failures the queue does not recover from\<close>

definition with_fault :: "nat \<Rightarrow> disk_queue \<Rightarrow> disk_queue" where
  "with_fault k q = q\<lparr>dq_fs := (dq_fs q)\<lparr>fs_faults := [Some k]\<rparr>\<rparr>"

lemma encode_short:
  assumes "length (encode_body m) < 256"
  shows "\<exists>rest. encode m = 0 # 0 # 0 # of_nat (length (encode_body m)) # rest \<and> length rest > 4"
proof -
  have "put_uint32 (of_nat (length (encode_body m))) = [0, 0, 0, of_nat (length (encode_body m))]"
  proof -
    define w :: uint32 where "w = of_nat (length (encode_body m))"
    have u: "unat w = length (encode_body m)"
      unfolding w_def using assms by (intro unat_of_nat_uint32) simp
    have "unat (drop_bit k w) = unat w div 2 ^ k" for k
      unfolding unat_drop_bit_eq by (rule drop_bit_eq_div)
    from this [of 8] this [of 16] this [of 24]
    have "drop_bit 8 w = 0" "drop_bit 16 w = 0" "drop_bit 24 w = 0"
      using assms u by (simp_all add: unat_eq_zero)
    moreover have "ucast w = (of_nat (length (encode_body m)) :: byte)"
      unfolding u [symmetric] by (rule word_unat_eq_iff [THEN iffD2]) (simp add: unsigned_ucast_eq unsigned_of_nat)
    moreover note w_def [symmetric]
    ultimately show ?thesis by (simp add: put_uint32_def)
  qed
  then show ?thesis
    by (auto simp: encode_def Let_def length_encode_body)
qed

text \<open>
  C17: a failed append is not undone. On a fresh queue whose first append fails after one
  byte, the next push succeeds, and yet its message can never be read: the peek reports
  corruption, because the stray byte stays in the file, and the ack that the bridge then
  issues discards the message.
\<close>

theorem failed_append_corrupts_next:
  assumes "length (encode_body m) < 256" "length (encode_body m') < 256"
  shows "\<exists>q1 q2 q3 q4. dq_Push m (with_fault 1 (fresh_queue mx sb False)) = (Some (ErrIO ''append''), q1) \<and>
    dq_Push m' q1 = (None, q2) \<and> dq_count q2 = 1 \<and> dq_Peek q2 = (Inl ErrCorrupt, q3) \<and>
    dq_Ack q3 = (None, q4) \<and> dq_count q4 = 0 \<and> dq_dropped q4 = 1"
proof -
  obtain r where r: "encode m = 0 # 0 # 0 # of_nat (length (encode_body m)) # r" using encode_short [OF assms(1)] by blast
  obtain r' where r': "encode m' = 0 # 0 # 0 # of_nat (length (encode_body m')) # r'" "length r' > 4"
    using encode_short [OF assms(2)] by blast
  let ?n = "int (length (encode m'))"
  define fs1 where "fs1 bs = \<lparr>fs_segs = [(1 :: nat, bs)], fs_head = None, fs_faults = []\<rparr>" for bs :: "byte list"
  define q1 where "q1 = (fresh_queue mx sb False)\<lparr>dq_fs := fs1 [0]\<rparr>"
  define q2 where "q2 = q1\<lparr>dq_fs := fs1 (0 # encode m'),
     dq_segments := [\<lparr>seg_id = 1, seg_size = ?n, seg_records = 1\<rparr>], dq_count := 1, dq_bytes := ?n\<rparr>"
  define q3 where "q3 = q2\<lparr>dq_reader := Some (Handle 1)\<rparr>"
  have 1: "dq_Push m (with_fault 1 (fresh_queue mx sb False)) = (Some (ErrIO ''append''), q1)"
    by (simp add: dq_Push_def Let_def with_fault_def fresh_queue_def empty_queue_def empty_dir_def q1_def fs1_def
        sys_call_def file_bytes_def fs_file_def fs_write_def r)
  have 2: "dq_Push m' q1 = (None, q2)"
    by (simp add: dq_Push_def Let_def fresh_queue_def empty_queue_def q1_def q2_def fs1_def
        file_bytes_def fs_file_def fs_write_def enforceBound.simps)
  obtain a b c d r'' where abcd: "r' = a # b # c # d # r''" using r'(2)
    by (auto simp: eval_nat_numeral Suc_le_length_iff simp flip: Suc_le_eq)
  have pk: "peekLocked q = (Inl ErrCorrupt, q3)" if "q = q2 \<or> q = q3" for q
    using that abcd
    by (auto simp: peekLocked_def peek_open_def Let_def q3_def q2_def q1_def fresh_queue_def empty_queue_def fs1_def
        file_bytes_def fs_file_def recHeaderLen_def r')
  have v: "dq_count q3 = 1" "dq_peeked q3 = None" "length (dq_segments q3) = 1" "dq_dropped q3 = 0"
    "dq_segments q3 = [\<lparr>seg_id = 1, seg_size = ?n, seg_records = 1\<rparr>]" "fs_faults (dq_fs q3) = []"
    by (simp_all add: q3_def q2_def q1_def fresh_queue_def empty_queue_def fs1_def)
  obtain q4 where "dq_Ack q3 = (None, q4)" "dq_count q4 = 0" "dq_dropped q4 = 1"
    using v pk by (simp add: dq_Ack_def resetOnly_def writeHead_ok headed_def)
  moreover have "dq_count q2 = 1" by (simp add: q2_def)
  ultimately show ?thesis using 1 2 pk by (auto simp: dq_Peek_def)
qed

lemma sample_body: "length (encode_body sample_msg) = 16"
  by (simp add: length_encode_body sample_msg_def)

theorem failed_append_corrupts_next_witness:
  "\<exists>q1 q2 q3. dq_Push sample_msg (with_fault 1 (fresh_queue 1000 100 False)) = (Some (ErrIO ''append''), q1) \<and>
     dq_Push sample_msg q1 = (None, q2) \<and> dq_Peek q2 = (Inl ErrCorrupt, q3)"
proof -
  have "length (encode_body sample_msg) < 256" by (simp add: sample_body)
  from failed_append_corrupts_next [OF this this, of 1000 100] show ?thesis by blast
qed

text \<open>
  A failed roll is final. When a push has to start a new segment and opening its file
  fails once, the new segment is already in the list and the writer is closed; every later
  push fails as well and leaves the queue as it is, although the file system works again.
\<close>

theorem failed_roll_is_final:
  assumes "dq_invar q" "seg_size (last (dq_segments q)) > 0"
    and "seg_size (last (dq_segments q)) + int (length (encode m)) > dq_SegmentBytes q"
  shows "\<exists>q1. dq_Push m (with_fault k q) = (Some (ErrIO ''open tail''), q1) \<and> fs_faults (dq_fs q1) = [] \<and>
    (\<forall>m'. dq_Push m' q1 = (Some (ErrIO ''append''), q1))"
proof -
  have nc: "\<not> dq_closed q" using assms(1) by (auto simp: dq_invar_def dq_rep_def dq_rep0_def dq_core_def)
  let ?s = "\<lparr>seg_id = seg_id (last (dq_segments q)) + 1, seg_size = 0, seg_records = 0\<rparr>"
  let ?q1 = "q\<lparr>dq_fs := (dq_fs q)\<lparr>fs_faults := []\<rparr>, dq_segments := dq_segments q @ [?s], dq_writer := ClosedHandle\<rparr>"
  have "dq_Push m (with_fault k q) = (Some (ErrIO ''open tail''), ?q1)"
    using assms(2,3) nc
    by (simp add: dq_Push_def Let_def with_fault_def roll_def openWriter_def sys_call_def)
  moreover have "dq_Push m' ?q1 = (Some (ErrIO ''append''), ?q1)" for m'
    using nc by (simp add: dq_Push_def Let_def)
  ultimately show ?thesis by auto
qed

theorem failed_roll_is_final_witness:
  "\<exists>q q1. dq_Push sample_msg (fresh_queue 1000 10 False) = (None, q) \<and>
     dq_Push sample_msg (with_fault 0 q) = (Some (ErrIO ''open tail''), q1) \<and>
     (\<forall>m'. dq_Push m' q1 = (Some (ErrIO ''append''), q1))"
proof -
  let ?q0 = "fresh_queue 1000 10 False" and ?n = "int (length (encode sample_msg))"
  define q where "q = ?q0\<lparr>dq_fs := fs_write 1 (encode sample_msg) (fs_write 1 [] empty_dir),
     dq_segments := [\<lparr>seg_id = 1, seg_size = ?n, seg_records = 1\<rparr>], dq_count := 1, dq_bytes := ?n\<rparr>"
  have push: "dq_Push sample_msg ?q0 = (None, q)"
    by (simp add: dq_Push_def fresh_queue_def empty_queue_def empty_dir_def q_def enforceBound.simps
        file_bytes_def fs_file_def fs_write_def Let_def)
  have "dq_invar ?q0" using fresh_rep by (auto simp: dq_invar_def)
  from disk_queue.push_law [OF this sample_storable] have inv: "dq_invar q" using push by (auto simp: disk_queue_ops_def)
  have n: "length (encode sample_msg) = 24" by (simp add: length_encode sample_body recHeaderLen_def)
  have v: "seg_size (last (dq_segments q)) > 0"
    "seg_size (last (dq_segments q)) + int (length (encode sample_msg)) > dq_SegmentBytes q"
    by (simp_all add: q_def n fresh_queue_def empty_queue_def norm_segment_bytes_def)
  show ?thesis using failed_roll_is_final [OF inv v, of 0] push by blast
qed

text \<open>
  A message whose record body exceeds the 16 MiB that the readers accept is taken by
  \<^verbatim>\<open>Push\<close> without an error, and is reported as corrupt when it is its turn.
\<close>

theorem oversized_push_unreadable:
  assumes "maxRecordBody < length (encode_body m)" "length (encode_body m) < 4294967296"
  shows "\<exists>q1 q2. dq_Push m (fresh_queue mx sb sync) = (None, q1) \<and> dq_count q1 = 1 \<and>
    dq_Peek q1 = (Inl ErrCorrupt, q2)"
proof -
  let ?n = "int (length (encode m))"
  let ?fs = "\<lparr>fs_segs = [(1 :: nat, encode m)], fs_head = None, fs_faults = []\<rparr>"
  define q1 where "q1 = (fresh_queue mx sb sync)\<lparr>dq_fs := ?fs,
     dq_segments := [\<lparr>seg_id = 1, seg_size = ?n, seg_records = 1\<rparr>], dq_count := 1, dq_bytes := ?n\<rparr>"
  have 1: "dq_Push m (fresh_queue mx sb sync) = (None, q1)"
    by (simp add: dq_Push_def Let_def fresh_queue_def empty_queue_def empty_dir_def q1_def
        file_bytes_def fs_file_def fs_write_def enforceBound.simps)
  let ?h = "take recHeaderLen (encode m)"
  have h: "length ?h = recHeaderLen" by (simp add: length_encode)
  have "unat (get_uint32 ?h) = length (encode_body m)"
    using assms(2) by (simp add: encode_def Let_def recHeaderLen_def unat_of_nat_uint32)
  moreover have "ReadAt ?fs (Handle 1) 0 recHeaderLen = (Some ?h, ?fs)"
    by (rule ReadAt_ok) (use h in \<open>simp_all add: file_bytes_def fs_file_def\<close>)
  ultimately have "peekLocked q1 = (Inl ErrCorrupt, q1\<lparr>dq_reader := Some (Handle 1)\<rparr>)"
    using assms(1)
    by (simp add: peekLocked_def peek_open_def Let_def q1_def fresh_queue_def empty_queue_def fs_file_def del: ReadAt.simps)
  then show ?thesis using 1 by (auto simp: dq_Peek_def q1_def)
qed

theorem oversized_push_unreadable_witness:
  "\<exists>q1 q2. dq_Push (sample_msg\<lparr>m_payload := replicate 16777216 0\<rparr>) (fresh_queue 1000 100 False) = (None, q1) \<and>
     dq_Peek q1 = (Inl ErrCorrupt, q2)"
proof -
  let ?m = "sample_msg\<lparr>m_payload := replicate 16777216 0\<rparr>"
  have "length (encode_body ?m) = 16777230" by (simp add: length_encode_body sample_msg_def)
  then have "maxRecordBody < length (encode_body ?m)" "length (encode_body ?m) < 4294967296"
    by (simp_all add: maxRecordBody_def)
  from oversized_push_unreadable [OF this, of 1000 100 False] show ?thesis by blast
qed

end
