(* ===== verification/Uns_Payload.thy ===== *)
theory Uns_Payload
  imports Go_Strconv Go_Float
begin

text \<open>
  The message bodies of the unified namespace, \<^verbatim>\<open>internal/domain/uns/payload.go\<close>: message
  and data types, quality codes with their severity, timestamps in milliseconds, the payload
  with its validation, and the wrapping sequence numbers. The JSON library is a parameter.
\<close>

datatype message_type = Birth | DataMsg | Death | OtherMessage string

definition message_type_of :: "string \<Rightarrow> message_type" where
  "message_type_of s = (if s = ''BIRTH'' then Birth else if s = ''DATA'' then DataMsg
     else if s = ''DEATH'' then Death else OtherMessage s)"

fun message_type_String :: "message_type \<Rightarrow> string" where
  "message_type_String Birth = ''BIRTH''"
| "message_type_String DataMsg = ''DATA''"
| "message_type_String Death = ''DEATH''"
| "message_type_String (OtherMessage s) = s"

datatype uns_type = TypeInt16 | TypeUInt16 | TypeInt32 | TypeUInt32 | TypeFloat | TypeDouble
  | TypeBoolean | TypeString

definition uns_ParseDataType :: "string \<Rightarrow> string + uns_type" where
  "uns_ParseDataType s =
     (if s = [] then Inr TypeFloat
      else if s = ''Int16'' then Inr TypeInt16 else if s = ''UInt16'' then Inr TypeUInt16
      else if s = ''Int32'' then Inr TypeInt32 else if s = ''UInt32'' then Inr TypeUInt32
      else if s = ''Float'' then Inr TypeFloat else if s = ''Double'' then Inr TypeDouble
      else if s = ''Boolean'' then Inr TypeBoolean else if s = ''String'' then Inr TypeString
      else Inl s)"

datatype quality = QualityGood | QualityStale | QualityFlatline | QualityOutOfRange | QualityBad
  | OtherQuality string

fun Severity :: "quality \<Rightarrow> nat" where
  "Severity QualityGood = 0"
| "Severity QualityStale = 1"
| "Severity QualityFlatline = 2"
| "Severity QualityOutOfRange = 3"
| "Severity QualityBad = 4"
| "Severity (OtherQuality _) = 5"

section \<open>Timestamps\<close>

text \<open>\<^verbatim>\<open>Time.UnixMilli\<close> truncates to the millisecond below, in 64 bits.\<close>

definition UnixMilli :: "gotime \<Rightarrow> int" where
  "UnixMilli t = wrap64 (t div 1000000)"

definition Millis_MarshalJSON :: "gotime \<Rightarrow> string" where
  "Millis_MarshalJSON t = (if t = zero_time then ''null'' else FormatInt (UnixMilli t))"

definition Millis_UnmarshalJSON :: "string \<Rightarrow> gotime option" where
  "Millis_UnmarshalJSON b =
     (if b = ''null'' then Some zero_time
      else case ParseInt b of None \<Rightarrow> None | Some n \<Rightarrow> Some (n * 1000000))"

section \<open>Payloads\<close>

text \<open>The dynamic types that a metric's value has in this program; \<open>NoValue\<close> is \<^verbatim>\<open>nil\<close>.\<close>

datatype metric_value = NoValue | Int64Val int | Uint64Val nat | BoolVal bool | Float32Val float64
  | Float64Val float64 | StrVal string

record uns_context =
  cx_AssetID :: string
  cx_AssetClass :: string
  cx_Unit :: string
  cx_EngLow :: "float64 option"
  cx_EngHigh :: "float64 option"
  cx_Source :: string
  cx_Description :: string
  cx_QualityRule :: string

record metric =
  me_Name :: string
  me_Timestamp :: gotime
  me_DataType :: string
  me_Value :: metric_value
  me_Quality :: quality
  me_Topic :: string
  me_Context :: uns_context

record payload =
  pl_Type :: message_type
  pl_Timestamp :: gotime
  pl_Seq :: byte
  pl_Node :: string
  pl_Metrics :: "metric list"

datatype payload_error = DecodePayload | UnknownMessageType string | MissingNode

text \<open>\<open>json\<close> stands for \<^verbatim>\<open>json.Unmarshal\<close> into a payload; \<open>None\<close> is its error.\<close>

definition Unmarshal :: "(byte list \<Rightarrow> payload option) \<Rightarrow> byte list \<Rightarrow> payload_error + payload" where
  "Unmarshal json b =
     (case json b of
        None \<Rightarrow> Inl DecodePayload
      | Some p \<Rightarrow>
          (case pl_Type p of
             OtherMessage s \<Rightarrow> Inl (UnknownMessageType s)
           | _ \<Rightarrow> if pl_Node p = [] then Inl MissingNode else Inr p))"

section \<open>Sequence numbers\<close>

record sequencer =
  sq_next :: byte

definition sequencer_Reset :: "sequencer \<Rightarrow> sequencer" where
  "sequencer_Reset s = s\<lparr>sq_next := 0\<rparr>"

definition sequencer_Next :: "sequencer \<Rightarrow> byte \<times> sequencer" where
  "sequencer_Next s = (sq_next s, s\<lparr>sq_next := sq_next s + 1\<rparr>)"

fun next_many :: "nat \<Rightarrow> sequencer \<Rightarrow> byte list \<times> sequencer" where
  "next_many 0 s = ([], s)"
| "next_many (Suc n) s = (case sequencer_Next s of (x, s1) \<Rightarrow> case next_many n s1 of (xs, s2) \<Rightarrow> (x # xs, s2))"

lemma next_many_from: "next_many n s = (map (\<lambda>k. sq_next s + of_nat k) [0..<n], s\<lparr>sq_next := sq_next s + of_nat n\<rparr>)"
proof (induction n arbitrary: s)
  case (Suc n)
  have "map (\<lambda>k. sq_next s + 1 + of_nat k) [0..<n] = map (\<lambda>k. sq_next s + of_nat k) [1..<Suc n]"
    by (simp only: One_nat_def map_Suc_upt [symmetric] map_map comp_def of_nat_Suc add.assoc)
  then show ?case
    using Suc by (simp add: sequencer_Next_def upt_conv_Cons del: upt_Suc)
qed simp

section \<open>Properties\<close>

text \<open>
  Timestamps. For every time whose milliseconds fit 64 bits, reading back what
  \<^verbatim>\<open>MarshalJSON\<close> wrote gives the time cut to the millisecond, and the zero time gives the
  zero time.
\<close>

theorem Millis_roundtrip:
  assumes "- (2 ^ 63) \<le> t div 1000000" "t div 1000000 < 2 ^ 63"
  shows "Millis_UnmarshalJSON (Millis_MarshalJSON t) = Some (t - t mod 1000000)"
proof (cases "t = zero_time")
  case True
  then show ?thesis by (simp add: Millis_UnmarshalJSON_def Millis_MarshalJSON_def zero_time_def)
next
  case False
  have "FormatInt i \<noteq> ''null''" for i
  proof
    assume "FormatInt i = ''null''"
    then have "ParseInt ''null'' = ParseInt (FormatInt i)" by simp
    moreover have "ParseInt ''null'' = None"
      by (simp add: ParseInt_def ParseUint_def digit_of_def)
    moreover have "\<exists>d \<in> set (FormatInt i). digit_of d \<noteq> None"
    proof -
      have "\<exists>d \<in> set (FormatUint n). digit_of d \<noteq> None" for n
        using FormatUint_ne [of n] parse_FormatUint [of n] by (cases "FormatUint n") (auto split: option.splits)
      then show ?thesis by (auto simp: FormatInt_def)
    qed
    ultimately show False using \<open>FormatInt i = ''null''\<close> by (auto simp: digit_of_def)
  qed
  then show ?thesis
    using False assms ParseInt_FormatInt [OF assms]
    by (simp add: Millis_UnmarshalJSON_def Millis_MarshalJSON_def UnixMilli_def wrap64_id minus_mod_eq_div_mult)
qed

theorem Millis_roundtrip_witness:
  "Millis_UnmarshalJSON (Millis_MarshalJSON 1700000000123456789) = Some 1700000000123000000"
  using Millis_roundtrip [of 1700000000123456789] by simp

text \<open>
  Sequence numbers. After a reset the \<open>k\<close>-th number handed out is \<open>k mod 256\<close>: a consumer
  that sees consecutive numbers differ by anything but one, modulo 256, has missed a message.
\<close>

theorem sequencer_counts:
  "map unat (fst (next_many n (sequencer_Reset s))) = map (\<lambda>k. k mod 256) [0..<n]"
  by (simp add: next_many_from sequencer_Reset_def unsigned_of_nat take_bit_eq_mod)

end
