(* ===== verification/Quality_Rules.thy ===== *)
theory Quality_Rules
  imports Uns_Payload
begin

text \<open>
  The data-quality rules of one tag, \<^verbatim>\<open>internal/domain/quality/quality.go\<close>: an evaluator
  that is fed samples (\<open>Observe\<close>), communication failures (\<open>Comm\<close>) and the clock (\<open>Check\<close>).
  The run-length state of the flatline rule is shown equal to a definition over the whole
  history of samples; the staleness rule is shown to report each silence once.
\<close>

record quality_config =
  StaleAfter :: duration
  FlatlineAfter :: duration
  FlatlineMinSamples :: int
  HasRange :: bool
  RangeMin :: float64
  RangeMax :: float64
  Epsilon :: float64

datatype quality_rule = RuleComm | RuleRange | RuleFlatline | RuleStale | RuleGood

fun rule_String :: "quality_rule \<Rightarrow> string" where
  "rule_String RuleComm = ''quality.comm@v1''"
| "rule_String RuleRange = ''quality.range@v1''"
| "rule_String RuleFlatline = ''quality.flatline@v1''"
| "rule_String RuleStale = ''quality.stale@v1''"
| "rule_String RuleGood = ''quality.good@v1''"

text \<open>The reason text by its format and arguments.\<close>

datatype quality_reason =
    NoReason | NotFinite | OutsideRange float64 float64 float64 | UnchangedFor duration int
  | SourceFailed string | NoSampleFor duration duration

record verdict =
  v_Quality :: quality
  v_Rule :: quality_rule
  v_Reason :: quality_reason

definition GoodVerdict :: verdict where
  "GoodVerdict = \<lparr>v_Quality = QualityGood, v_Rule = RuleGood, v_Reason = NoReason\<rparr>"

record evaluator =
  ev_cfg :: quality_config
  ev_seen :: bool
  ev_last :: float64
  ev_lastAt :: gotime
  ev_lastChange :: gotime
  ev_unchanged :: int
  ev_current :: verdict
  ev_commDown :: bool

definition quality_New :: "quality_config \<Rightarrow> evaluator" where
  "quality_New cfg =
     \<lparr>ev_cfg = (if FlatlineMinSamples cfg \<le> 0 then cfg\<lparr>FlatlineMinSamples := 5\<rparr> else cfg),
      ev_seen = False, ev_last = Fin 0, ev_lastAt = zero_time, ev_lastChange = zero_time,
      ev_unchanged = 0, ev_current = GoodVerdict, ev_commDown = False\<rparr>"

definition same_value :: "quality_config \<Rightarrow> float64 \<Rightarrow> float64 \<Rightarrow> bool" where
  "same_value cfg v u \<longleftrightarrow> fl_le (fl_abs (fl_sub v u)) (Epsilon cfg)"

definition Observe :: "float64 \<Rightarrow> gotime \<Rightarrow> evaluator \<Rightarrow> verdict \<times> evaluator" where
  "Observe v at0 e0 =
     (let e = e0\<lparr>ev_commDown := False\<rparr>
      in if fl_isnan v \<or> fl_isinf v
         then let w = \<lparr>v_Quality = QualityBad, v_Rule = RuleComm, v_Reason = NotFinite\<rparr>
              in (w, e\<lparr>ev_lastAt := at0, ev_current := w\<rparr>)
         else let e1 = (if ev_seen e \<and> same_value (ev_cfg e) v (ev_last e)
                        then e\<lparr>ev_unchanged := ev_unchanged e + 1\<rparr>
                        else e\<lparr>ev_unchanged := 1, ev_lastChange := at0\<rparr>);
                  e2 = e1\<lparr>ev_seen := True, ev_last := v, ev_lastAt := at0\<rparr>;
                  c = ev_cfg e2;
                  w = (if HasRange c \<and> (fl_less v (RangeMin c) \<or> fl_less (RangeMax c) v)
                       then \<lparr>v_Quality = QualityOutOfRange, v_Rule = RuleRange,
                             v_Reason = OutsideRange v (RangeMin c) (RangeMax c)\<rparr>
                       else if FlatlineAfter c > 0 \<and> ev_unchanged e2 \<ge> FlatlineMinSamples c \<and>
                               time_sub at0 (ev_lastChange e2) \<ge> FlatlineAfter c
                       then \<lparr>v_Quality = QualityFlatline, v_Rule = RuleFlatline,
                             v_Reason = UnchangedFor (truncate_ms (time_sub at0 (ev_lastChange e2))) (ev_unchanged e2)\<rparr>
                       else GoodVerdict)
              in (w, e2\<lparr>ev_current := w\<rparr>))"

definition Comm :: "string option \<Rightarrow> evaluator \<Rightarrow> verdict \<times> evaluator" where
  "Comm err e =
     (let w = \<lparr>v_Quality = QualityBad, v_Rule = RuleComm,
               v_Reason = SourceFailed (case err of None \<Rightarrow> ''source read failed'' | Some m \<Rightarrow> m)\<rparr>
      in (w, e\<lparr>ev_commDown := True, ev_current := w\<rparr>))"

definition Check :: "gotime \<Rightarrow> evaluator \<Rightarrow> (verdict \<times> bool) \<times> evaluator" where
  "Check now e =
     (if StaleAfter (ev_cfg e) \<le> 0 \<or> \<not> ev_seen e \<or> ev_commDown e then ((ev_current e, False), e)
      else if v_Quality (ev_current e) = QualityStale then ((ev_current e, False), e)
      else let age = time_sub now (ev_lastAt e)
           in if age < StaleAfter (ev_cfg e) then ((ev_current e, False), e)
              else let w = \<lparr>v_Quality = QualityStale, v_Rule = RuleStale, v_Reason = NoSampleFor (truncate_ms age) (StaleAfter (ev_cfg e))\<rparr>
                   in ((w, True), e\<lparr>ev_current := w\<rparr>))"

definition quality_Current :: "evaluator \<Rightarrow> verdict" where
  "quality_Current e = ev_current e"

definition quality_Last :: "evaluator \<Rightarrow> float64 \<times> gotime \<times> bool" where
  "quality_Last e = (ev_last e, ev_lastAt e, ev_seen e)"

section \<open>Histories\<close>

datatype quality_op = ObserveOp float64 gotime | CommOp "string option" | CheckOp gotime

fun quality_step :: "quality_op \<Rightarrow> evaluator \<Rightarrow> evaluator" where
  "quality_step (ObserveOp v t) e = snd (Observe v t e)"
| "quality_step (CommOp err) e = snd (Comm err e)"
| "quality_step (CheckOp t) e = snd (Check t e)"

fun quality_run :: "quality_op list \<Rightarrow> evaluator \<Rightarrow> evaluator" where
  "quality_run [] e = e"
| "quality_run (x # xs) e = quality_run xs (quality_step x e)"

text \<open>The finite samples of a history, newest first.\<close>

fun samples :: "quality_op list \<Rightarrow> (float64 \<times> gotime) list \<Rightarrow> (float64 \<times> gotime) list" where
  "samples [] acc = acc"
| "samples (ObserveOp v t # xs) acc = samples xs (if fl_isnan v \<or> fl_isinf v then acc else (v, t) # acc)"
| "samples (_ # xs) acc = samples xs acc"

text \<open>
  The reference: how many of the newest samples form a run in which each is within \<^verbatim>\<open>Epsilon\<close>
  of the one before, and when the run began.
\<close>

fun trailing_run :: "quality_config \<Rightarrow> (float64 \<times> gotime) list \<Rightarrow> int \<times> gotime" where
  "trailing_run cfg [] = (0, zero_time)"
| "trailing_run cfg [(v, t)] = (1, t)"
| "trailing_run cfg ((v, t) # (u, s) # rest) =
     (if same_value cfg v u then (case trailing_run cfg ((u, s) # rest) of (n, t0) \<Rightarrow> (n + 1, t0)) else (1, t))"

definition tracks :: "evaluator \<Rightarrow> (float64 \<times> gotime) list \<Rightarrow> bool" where
  "tracks e h \<longleftrightarrow> ev_seen e = (h \<noteq> []) \<and> (h \<noteq> [] \<longrightarrow> ev_last e = fst (hd h)) \<and>
     (ev_unchanged e, ev_lastChange e) = trailing_run (ev_cfg e) h"

lemma Observe_cfg [simp]: "ev_cfg (snd (Observe v t e)) = ev_cfg e"
  by (simp add: Observe_def Let_def)

lemma quality_step_cfg [simp]: "ev_cfg (quality_step x e) = ev_cfg e"
  by (cases x) (simp_all add: Comm_def Check_def Let_def)

lemma quality_run_cfg [simp]: "ev_cfg (quality_run xs e) = ev_cfg e"
  by (induction xs arbitrary: e) simp_all

lemma Observe_tracks:
  assumes "tracks e h"
  shows "tracks (snd (Observe v t e)) (if fl_isnan v \<or> fl_isinf v then h else (v, t) # h)"
  using assms by (cases h) (auto simp: tracks_def Observe_def Let_def split: prod.splits)

lemma quality_run_tracks: "tracks e h \<Longrightarrow> tracks (quality_run xs e) (samples xs h)"
proof (induction xs h arbitrary: e rule: samples.induct)
  case (2 v t xs acc)
  then show ?case using Observe_tracks [of e acc v t] by simp
qed (auto simp: tracks_def Comm_def Check_def Let_def)

lemma New_tracks: "tracks (quality_New cfg) []"
  by (simp add: tracks_def quality_New_def)

lemma quality_run_append: "quality_run (xs @ ys) e = quality_run ys (quality_run xs e)"
  by (induction xs arbitrary: e) simp_all

lemma samples_append: "samples (xs @ ys) acc = samples ys (samples xs acc)"
  by (induction xs acc rule: samples.induct) simp_all

section \<open>Properties\<close>

text \<open>
  C18: the verdict of a sample is a function of the history. Whatever communication failures
  and clock checks were interleaved, the evaluator's verdict for a sample is BAD exactly for
  a value that is not a finite number; otherwise OUT_OF_RANGE when it is outside the
  configured range; otherwise FLATLINE when the newest samples form a run of unchanged values
  that has enough samples and has lasted long enough; otherwise GOOD.
\<close>

theorem Observe_equals_reference:
  "let cfg' = ev_cfg (quality_New cfg); (n, t0) = trailing_run cfg' ((v, t) # samples xs [])
   in v_Quality (fst (Observe v t (quality_run xs (quality_New cfg)))) =
     (if fl_isnan v \<or> fl_isinf v then QualityBad
      else if HasRange cfg' \<and> (fl_less v (RangeMin cfg') \<or> fl_less (RangeMax cfg') v) then QualityOutOfRange
      else if FlatlineAfter cfg' > 0 \<and> n \<ge> FlatlineMinSamples cfg' \<and> time_sub t t0 \<ge> FlatlineAfter cfg'
      then QualityFlatline else QualityGood)"
proof -
  let ?e = "quality_run xs (quality_New cfg)" and ?h = "samples xs []"
  have tr: "tracks ?e ?h" by (rule quality_run_tracks [OF New_tracks])
  have "tracks (snd (Observe v t ?e)) (if fl_isnan v \<or> fl_isinf v then ?h else (v, t) # ?h)"
    by (rule Observe_tracks [OF tr])
  then have "\<not> (fl_isnan v \<or> fl_isinf v) \<Longrightarrow>
      (ev_unchanged (snd (Observe v t ?e)), ev_lastChange (snd (Observe v t ?e))) =
      trailing_run (ev_cfg (quality_New cfg)) ((v, t) # ?h)"
    by (auto simp: tracks_def)
  moreover have "ev_cfg ?e = ev_cfg (quality_New cfg)" by simp
  ultimately show ?thesis
    by (auto simp: Observe_def Let_def GoodVerdict_def split: prod.splits)
qed

text \<open>How often the clock checks of a history report a transition to STALE.\<close>

fun stale_reports :: "quality_op list \<Rightarrow> evaluator \<Rightarrow> nat" where
  "stale_reports [] e = 0"
| "stale_reports (CheckOp t # xs) e =
     (if snd (fst (Check t e)) then 1 else 0) + stale_reports xs (quality_step (CheckOp t) e)"
| "stale_reports (x # xs) e = stale_reports xs (quality_step x e)"

fun is_observe :: "quality_op \<Rightarrow> bool" where
  "is_observe (ObserveOp _ _) = True"
| "is_observe _ = False"

lemma no_report_when_settled:
  assumes "\<forall>x \<in> set xs. \<not> is_observe x" "v_Quality (ev_current e) = QualityStale \<or> ev_commDown e"
  shows "stale_reports xs e = 0"
  using assms
proof (induction xs arbitrary: e)
  case (Cons x xs)
  then show ?case by (cases x) (auto simp: Check_def Comm_def Let_def)
qed simp

text \<open>
  A silence is reported once. Between two samples, however often the clock is checked and
  whatever communication failures are recorded, the transition to STALE is reported at most
  once; and a check reports it exactly when staleness is enabled, a sample was seen, no
  communication failure is pending, the tag is not already STALE and the last sample is old
  enough.
\<close>

theorem stale_reported_once:
  assumes "\<forall>x \<in> set xs. \<not> is_observe x"
  shows "stale_reports xs e \<le> 1 \<and>
    (snd (fst (Check now e)) \<longleftrightarrow> StaleAfter (ev_cfg e) > 0 \<and> ev_seen e \<and> \<not> ev_commDown e \<and>
       v_Quality (ev_current e) \<noteq> QualityStale \<and> time_sub now (ev_lastAt e) \<ge> StaleAfter (ev_cfg e))"
proof
  show "stale_reports xs e \<le> 1"
    using assms
  proof (induction xs arbitrary: e)
    case (Cons x xs)
    show ?case
    proof (cases x)
      case (CheckOp t)
      show ?thesis
      proof (cases "snd (fst (Check t e))")
        case True
        then have "v_Quality (ev_current (snd (Check t e))) = QualityStale"
          by (auto simp: Check_def Let_def split: if_splits)
        then have "stale_reports xs (snd (Check t e)) = 0"
          using no_report_when_settled Cons.prems by simp
        then show ?thesis by (simp add: CheckOp)
      next
        case False
        then show ?thesis using Cons by (simp add: CheckOp)
      qed
    qed (use Cons in auto)
  qed simp
qed (auto simp: Check_def Let_def)

definition sample_cfg :: quality_config where
  "sample_cfg = \<lparr>StaleAfter = seconds 10, FlatlineAfter = 0, FlatlineMinSamples = 0, HasRange = False,
     RangeMin = Fin 0, RangeMax = Fin 0, Epsilon = Fin 0\<rparr>"

definition sample_eval :: evaluator where
  "sample_eval = \<lparr>ev_cfg = sample_cfg, ev_seen = True, ev_last = Fin 1, ev_lastAt = 0, ev_lastChange = 0,
     ev_unchanged = 1, ev_current = GoodVerdict, ev_commDown = False\<rparr>"

theorem stale_reported_once_witness:
  "stale_reports [CheckOp (seconds 11), CheckOp (seconds 12)] sample_eval \<le> 1 \<and>
   snd (fst (Check (seconds 11) sample_eval))"
proof -
  have "\<forall>x \<in> set [CheckOp (seconds 11), CheckOp (seconds 12)]. \<not> is_observe x" by simp
  from stale_reported_once [OF this, of sample_eval "seconds 11"] show ?thesis
    unfolding sample_eval_def sample_cfg_def GoodVerdict_def time_sub_def max_duration_def min_duration_def
    by (simp del: stale_reports.simps)
qed

text \<open>
  BAD is replaced by STALE. After a sample that is not a finite number the tag is BAD but
  no communication failure is pending, so that the next check of the clock at the age limit
  lowers the severity to STALE and reports it.
\<close>

theorem bad_sample_becomes_stale:
  assumes "ev_seen e" "StaleAfter (ev_cfg e) > 0" "time_sub now t \<ge> StaleAfter (ev_cfg e)"
  shows "v_Quality (ev_current (snd (Observe NaN t e))) = QualityBad \<and>
    snd (fst (Check now (snd (Observe NaN t e)))) \<and>
    v_Quality (ev_current (snd (Check now (snd (Observe NaN t e))))) = QualityStale \<and>
    Severity QualityStale < Severity QualityBad"
  using assms by (simp add: Observe_def Check_def fl_isnan_def Let_def)

theorem bad_sample_becomes_stale_witness:
  "v_Quality (ev_current (snd (Check (seconds 20) (snd (Observe NaN (seconds 1) sample_eval))))) = QualityStale"
  using bad_sample_becomes_stale [of sample_eval "seconds 20" "seconds 1"]
  by (simp add: sample_eval_def sample_cfg_def time_sub_def max_duration_def min_duration_def)

end
