(* ===== verification/Line_Sim.thy ===== *)
theory Line_Sim
  imports Go_Float "HOL-Library.List_Lexorder" "HOL-Library.Char_ord"
begin

text \<open>
  The packaging-line model, \<^verbatim>\<open>internal/domain/linesim/line.go\<close>: machine states, signals,
  the snapshot, and the dynamic model with its state machine. The random generator of
  \<^verbatim>\<open>math/rand\<close> is a record of operations on a generator state, and \<^verbatim>\<open>math.Exp\<close> is the
  argument \<open>math_Exp\<close>. Each multiplication and addition is rounded by itself (no fused operations).
\<close>

type_synonym line_state = uint16

definition Stopped :: line_state where "Stopped = 0"

definition Starting :: line_state where "Starting = 1"

definition Running :: line_state where "Running = 2"

definition Starved :: line_state where "Starved = 3"

definition Faulted :: line_state where "Faulted = 4"

definition Changeover :: line_state where "Changeover = 5"

lemmas line_state_defs = Stopped_def Starting_def Running_def Starved_def Faulted_def Changeover_def

definition state_String :: "line_state \<Rightarrow> string" where
  "state_String s = (if s = Stopped then ''STOPPED'' else if s = Starting then ''STARTING''
     else if s = Running then ''RUNNING'' else if s = Starved then ''STARVED''
     else if s = Faulted then ''FAULTED'' else if s = Changeover then ''CHANGEOVER'' else ''UNKNOWN'')"

definition Signals :: "string list" where
  "Signals = sort [''speed'', ''temperature'', ''vibration'', ''state'', ''count'', ''ambient'', ''pressure'']"

fun is_signal_in :: "string \<Rightarrow> string list \<Rightarrow> bool" where
  "is_signal_in name [] = False"
| "is_signal_in name (s # ss) = (if s = name then True else is_signal_in name ss)"

definition IsSignal :: "string \<Rightarrow> bool" where
  "IsSignal name = is_signal_in name Signals"

record snapshot =
  sn_Speed :: float64
  sn_Temperature :: float64
  sn_Vibration :: float64
  sn_State :: line_state
  sn_Count :: uint32
  sn_Ambient :: float64
  sn_Pressure :: float64

definition snapshot_Get :: "snapshot \<Rightarrow> string \<Rightarrow> float64 \<times> bool" where
  "snapshot_Get s name =
     (if name = ''speed'' then (sn_Speed s, True)
      else if name = ''temperature'' then (sn_Temperature s, True)
      else if name = ''vibration'' then (sn_Vibration s, True)
      else if name = ''state'' then (fl_of_int (uint (sn_State s)), True)
      else if name = ''count'' then (fl_of_int (uint (sn_Count s)), True)
      else if name = ''ambient'' then (sn_Ambient s, True)
      else if name = ''pressure'' then (sn_Pressure s, True)
      else (Fin 0, False))"

lemma is_signal_in_iff: "is_signal_in name ss \<longleftrightarrow> name \<in> set ss"
  by (induction ss) auto

lemma IsSignal_iff_Get: "IsSignal name \<longleftrightarrow> snd (snapshot_Get s name)"
  by (simp add: IsSignal_def is_signal_in_iff Signals_def snapshot_Get_def)

section \<open>The dynamic model\<close>

record 'r rand_ops =
  rand_Float64 :: "'r \<Rightarrow> float64 \<times> 'r"
  rand_NormFloat64 :: "'r \<Rightarrow> float64 \<times> 'r"

record 'r sim_line =
  ln_rng :: 'r
  ln_targetSpeed :: float64
  ln_speed :: float64
  ln_temp :: float64
  ln_vib :: float64
  ln_state :: line_state
  ln_count :: float64
  ln_dwell :: duration
  ln_ambient :: float64
  ln_pressure :: float64
  ln_elapsed :: duration

text \<open>A decimal constant of the source, and \<^verbatim>\<open>Duration.Seconds\<close>.\<close>

abbreviation lit :: "rat \<Rightarrow> float64" where
  "lit x \<equiv> round64 x"

definition dur_Seconds :: "duration \<Rightarrow> float64" where
  "dur_Seconds d =
     (let sec = sgn d * (\<bar>d\<bar> div 1000000000); nsec = sgn d * (\<bar>d\<bar> mod 1000000000)
      in fl_add (fl_of_int sec) (fl_div (fl_of_int nsec) (Fin 1000000000)))"

text \<open>\<open>new_source\<close> is \<^verbatim>\<open>rand.New(rand.NewSource(seed))\<close>.\<close>

definition NewLine :: "(int \<Rightarrow> 'r) \<Rightarrow> int \<Rightarrow> 'r sim_line" where
  "NewLine new_source seed =
     \<lparr>ln_rng = new_source seed, ln_targetSpeed = Fin 480, ln_speed = Fin 0, ln_temp = Fin 24,
      ln_vib = lit (4 / 10), ln_state = Stopped, ln_count = Fin 0, ln_dwell = seconds 3,
      ln_ambient = Fin 22, ln_pressure = lit (62 / 10), ln_elapsed = 0\<rparr>"

text \<open>\<^verbatim>\<open>round(v, places)\<close> with \<^verbatim>\<open>math.Pow10(places)\<close>, exact for the places in use.\<close>

definition round_places :: "float64 \<Rightarrow> nat \<Rightarrow> float64" where
  "round_places v places = (let p = Fin (10 ^ places) in fl_div (math_Round (fl_mul v p)) p)"

definition line_Snapshot :: "'r sim_line \<Rightarrow> snapshot" where
  "line_Snapshot l =
     \<lparr>sn_Speed = round_places (ln_speed l) 2, sn_Temperature = round_places (ln_temp l) 2,
      sn_Vibration = round_places (ln_vib l) 3, sn_State = ln_state l,
      sn_Count = word_of_int (fl_to_int (ln_count l)),
      sn_Ambient = round_places (ln_ambient l) 2, sn_Pressure = round_places (ln_pressure l) 2\<rparr>"

definition line_Elapsed :: "'r sim_line \<Rightarrow> duration" where
  "line_Elapsed l = ln_elapsed l"

definition jitter :: "'r rand_ops \<Rightarrow> duration \<Rightarrow> float64 \<Rightarrow> 'r sim_line \<Rightarrow> duration \<times> 'r sim_line" where
  "jitter R d spread l =
     (case rand_Float64 R (ln_rng l) of (r, g) \<Rightarrow>
        let f = fl_add (Fin 1) (fl_mul (fl_sub (fl_mul r (Fin 2)) (Fin 1)) spread)
        in (fl_to_int (fl_mul (fl_of_int d) f), l\<lparr>ln_rng := g\<rparr>))"

definition noise :: "'r rand_ops \<Rightarrow> float64 \<Rightarrow> 'r sim_line \<Rightarrow> float64 \<times> 'r sim_line" where
  "noise R sigma l =
     (case rand_NormFloat64 R (ln_rng l) of (x, g) \<Rightarrow> (fl_mul x sigma, l\<lparr>ln_rng := g\<rparr>))"

definition enter :: "'r rand_ops \<Rightarrow> line_state \<Rightarrow> duration \<Rightarrow> float64 \<Rightarrow> 'r sim_line \<Rightarrow> 'r sim_line" where
  "enter R st d spread l =
     (case jitter R d spread l of (w, l1) \<Rightarrow> l1\<lparr>ln_state := st, ln_dwell := w\<rparr>)"

definition transition :: "'r rand_ops \<Rightarrow> 'r sim_line \<Rightarrow> 'r sim_line" where
  "transition R l0 =
     (case rand_Float64 R (ln_rng l0) of (r, g) \<Rightarrow>
        let l = l0\<lparr>ln_rng := g\<rparr>; st = ln_state l
        in if st = Stopped \<or> st = Changeover then enter R Starting (seconds 8) (lit (3 / 10)) l
           else if st = Starting then enter R Running (seconds 90) (lit (5 / 10)) l
           else if st = Running then
             (if fl_less r (lit (12 / 100)) then enter R Faulted (seconds 20) (lit (5 / 10)) l
              else if fl_less r (lit (35 / 100)) then enter R Starved (seconds 15) (lit (5 / 10)) l
              else if fl_less r (lit (42 / 100)) then enter R Changeover (seconds 40) (lit (3 / 10)) l
              else enter R Running (seconds 90) (lit (5 / 10)) l)
           else if st = Starved then enter R Running (seconds 90) (lit (5 / 10)) l
           else if st = Faulted then enter R Stopped (seconds 10) (lit (4 / 10)) l
           else l)"

text \<open>The speed set point of a state, and the parts of \<^verbatim>\<open>Step\<close> in their order.\<close>

definition set_point :: "'r rand_ops \<Rightarrow> 'r sim_line \<Rightarrow> float64 \<times> 'r sim_line" where
  "set_point R l =
     (if ln_state l = Running then
        (case noise R (Fin 4) l of (x, l1) \<Rightarrow> (fl_add (ln_targetSpeed l) x, l1))
      else if ln_state l = Starting then (fl_mul (ln_targetSpeed l) (lit (6 / 10)), l)
      else if ln_state l = Starved then (fl_mul (ln_targetSpeed l) (Fin (1 / 4)), l)
      else (Fin 0, l))"

definition lag :: "(float64 \<Rightarrow> float64) \<Rightarrow> float64 \<Rightarrow> float64 \<Rightarrow> float64" where
  "lag math_Exp s tau = fl_sub (Fin 1) (math_Exp (fl_div (fl_neg s) tau))"

definition step_speed :: "(float64 \<Rightarrow> float64) \<Rightarrow> 'r rand_ops \<Rightarrow> float64 \<Rightarrow> 'r sim_line \<Rightarrow> 'r sim_line" where
  "step_speed math_Exp R s l0 =
     (case set_point R l0 of (sp, l) \<Rightarrow>
        let tau = (if ln_state l = Faulted then lit (12 / 10) else Fin 4);
            v = fl_add (ln_speed l) (fl_mul (fl_sub sp (ln_speed l)) (lag math_Exp s tau))
        in l\<lparr>ln_speed := (if fl_less v (Fin (1 / 2)) \<and> fl_eq sp (Fin 0) then Fin 0 else v)\<rparr>)"

definition step_ambient :: "'r rand_ops \<Rightarrow> float64 \<Rightarrow> 'r sim_line \<Rightarrow> 'r sim_line" where
  "step_ambient R s l0 =
     (let l = l0\<lparr>ln_ambient := fl_add (ln_ambient l0)
                  (fl_mul (fl_mul (fl_sub (Fin 22) (ln_ambient l0)) (lit (1 / 100))) s)\<rparr>
      in case noise R (lit (2 / 100)) l of (x, l1) \<Rightarrow>
           l1\<lparr>ln_ambient := fl_add (ln_ambient l1) (fl_mul x s)\<rparr>)"

definition step_temp :: "(float64 \<Rightarrow> float64) \<Rightarrow> 'r rand_ops \<Rightarrow> float64 \<Rightarrow> 'r sim_line \<Rightarrow> 'r sim_line" where
  "step_temp math_Exp R s l =
     (let tempSet = fl_add (fl_add (ln_ambient l) (Fin 55)) (fl_mul (lit (9 / 100)) (ln_speed l))
      in case noise R (lit (5 / 100)) l of (x, l1) \<Rightarrow>
           l1\<lparr>ln_temp := fl_add (ln_temp l1)
                (fl_add (fl_mul (fl_sub tempSet (ln_temp l1)) (lag math_Exp s (Fin 60))) x)\<rparr>)"

definition step_vib :: "(float64 \<Rightarrow> float64) \<Rightarrow> 'r rand_ops \<Rightarrow> float64 \<Rightarrow> 'r sim_line \<Rightarrow> 'r sim_line" where
  "step_vib math_Exp R s l =
     (let v0 = fl_add (lit (4 / 10)) (fl_mul (lit (45 / 10000)) (ln_speed l));
          vibSet = (if ln_state l = Faulted then fl_add v0 (Fin 6) else v0)
      in case noise R (lit (3 / 100)) l of (x, l1) \<Rightarrow>
           l1\<lparr>ln_vib := fl_add (ln_vib l1)
                (fl_add (fl_mul (fl_sub vibSet (ln_vib l1)) (lag math_Exp s (Fin (3 / 2)))) (fl_abs x))\<rparr>)"

definition step_pressure :: "'r rand_ops \<Rightarrow> 'r sim_line \<Rightarrow> 'r sim_line" where
  "step_pressure R l =
     (case noise R (lit (2 / 100)) l of (x, l1) \<Rightarrow>
        l1\<lparr>ln_pressure := fl_add (fl_sub (lit (64 / 10)) (fl_mul (lit (9 / 10000)) (ln_speed l1))) x\<rparr>)"

definition MaxUint32 :: float64 where
  "MaxUint32 = Fin 4294967295"

definition step_count :: "float64 \<Rightarrow> 'r sim_line \<Rightarrow> 'r sim_line" where
  "step_count s l =
     (if ln_state l = Running \<or> ln_state l = Starting \<or> ln_state l = Starved
      then let c = fl_add (ln_count l) (fl_div (fl_mul (ln_speed l) s) (Fin 60))
           in l\<lparr>ln_count := (if fl_less MaxUint32 c then Fin 0 else c)\<rparr>
      else l)"

definition line_Step :: "(float64 \<Rightarrow> float64) \<Rightarrow> 'r rand_ops \<Rightarrow> duration \<Rightarrow> 'r sim_line \<Rightarrow> 'r sim_line" where
  "line_Step math_Exp R dt l0 =
     (if dt \<le> 0 then l0
      else let l1 = l0\<lparr>ln_elapsed := wrap64 (ln_elapsed l0 + dt), ln_dwell := wrap64 (ln_dwell l0 - dt)\<rparr>;
               s = dur_Seconds dt;
               l2 = (if ln_dwell l1 \<le> 0 then transition R l1 else l1)
           in step_count s (step_pressure R (step_vib math_Exp R s (step_temp math_Exp R s
                (step_ambient R s (step_speed math_Exp R s l2))))))"

section \<open>Dwell times\<close>

text \<open>What \<^verbatim>\<open>Rand.Float64\<close> is documented to return.\<close>

definition rand_ok :: "'r rand_ops \<Rightarrow> bool" where
  "rand_ok R \<longleftrightarrow> (\<forall>g. \<exists>x. fst (rand_Float64 R g) = Fin x \<and> 0 \<le> x \<and> x < 1)"

lemma jitter_factor:
  assumes "0 \<le> r" "r < 1" "fl_finite sp" "0 \<le> fl_val sp" "fl_val sp \<le> 51 / 100"
  defines "f \<equiv> fl_add (Fin 1) (fl_mul (fl_sub (fl_mul (Fin r) (Fin 2)) (Fin 1)) sp)"
  shows "fl_finite f" "48 / 100 \<le> fl_val f" "fl_val f \<le> 152 / 100"
proof -
  define a b c p where "a = fl_mul (Fin r) (Fin 2)" and "b = fl_sub a (Fin 1)" and "c = fl_mul b sp"
    and "p = fl_val b * fl_val sp"
  have "near a (r * 2)"
    unfolding a_def using assms(1,2) lt_pow [of "r * 2"] fl_mul_near [of "Fin r" "Fin 2"] by simp
  then have "\<bar>r * 2\<bar> \<le> 10 \<Longrightarrow> fl_finite a \<and> - (1 / 1000) \<le> fl_val a \<and> fl_val a \<le> 2 + 1 / 1000"
    using assms(1,2) near_small [of a "r * 2"] by auto
  then have fin_a: "fl_finite a" and av: "- (1 / 1000) \<le> fl_val a" "fl_val a \<le> 2 + 1 / 1000"
    using assms(1,2) by auto
  have a10: "\<bar>fl_val a - 1\<bar> \<le> 10" using av by linarith
  have "near b (fl_val a - 1)"
    unfolding b_def using fin_a a10 lt_pow [of "fl_val a - 1"] fl_sub_near [of a "Fin 1"] by simp
  note bn = near_small [OF this a10]
  have bv: "\<bar>fl_val b\<bar> \<le> 1 + 2 / 1000" using bn(2,3) av by linarith
  have "\<bar>p\<bar> \<le> (1 + 2 / 1000) * (51 / 100)"
    unfolding p_def abs_mult using bv assms(4,5) by (intro mult_mono) auto
  then have pv: "\<bar>p\<bar> \<le> 512 / 1000" by simp
  then have p10: "\<bar>p\<bar> \<le> 10" by linarith
  have "near c p"
    unfolding c_def p_def using bn(1) assms(3) p10 lt_pow [of p] fl_mul_near [of b sp] by (simp add: p_def)
  note cn = near_small [OF this p10]
  have cv: "\<bar>fl_val c\<bar> \<le> 513 / 1000" using cn(2,3) pv by linarith
  have c10: "\<bar>1 + fl_val c\<bar> \<le> 10" using cv by linarith
  have "near f (1 + fl_val c)"
    unfolding f_def a_def [symmetric] b_def [symmetric] c_def [symmetric]
    using cn(1) c10 lt_pow [of "1 + fl_val c"] fl_add_near [of "Fin 1" c] by simp
  note fn = near_small [OF this c10]
  show "fl_finite f" by (rule fn(1))
  show "48 / 100 \<le> fl_val f" "fl_val f \<le> 152 / 100" using fn(2,3) cv by linarith+
qed

lemma rat_trunc_bounds: "1 \<le> x \<Longrightarrow> x \<le> of_int n \<Longrightarrow> 1 \<le> rat_trunc x \<and> rat_trunc x \<le> n"
  by (simp add: rat_trunc_def le_floor_iff floor_le_iff)

lemma jitter_bounds:
  assumes "rand_ok R" "0 \<le> fl_val sp" "fl_val sp \<le> 51 / 100" "fl_finite sp"
    and "4 \<le> d" "d \<le> seconds 90"
  shows "0 < fst (jitter R d sp l)" "fst (jitter R d sp l) \<le> seconds 138"
proof -
  obtain r g where rg: "rand_Float64 R (ln_rng l) = (Fin r, g)" "0 \<le> r" "r < 1"
    using assms(1) unfolding rand_ok_def by (metis prod.collapse)
  define f where "f = fl_add (Fin 1) (fl_mul (fl_sub (fl_mul (Fin r) (Fin 2)) (Fin 1)) sp)"
  note F = jitter_factor [OF rg(2,3) assms(4,2,3), folded f_def]
  have dv: "fl_of_int d = Fin (of_int d)" using assms(5,6) by (intro fl_of_int_exact) simp
  define p where "p = of_int d * fl_val f"
  have d4: "4 \<le> (of_int d :: rat)" "of_int d \<le> (90000000000 :: rat)"
    using assms(5,6) by simp_all
  have "4 * (48 / 100) \<le> p" unfolding p_def using d4 F by (intro mult_mono) auto
  moreover have "p \<le> 90000000000 * (152 / 100)" unfolding p_def using d4 F by (intro mult_mono) auto
  ultimately have pv: "192 / 100 \<le> p" "p \<le> 136800000000" by simp_all
  then have "near (fl_mul (fl_of_int d) f) p"
    using F fl_mul_near [of "Fin (of_int d)" f] lt_pow [of p] by (simp add: dv p_def)
  moreover have "(\<bar>p\<bar> + 1) / 2 ^ 53 \<le> 1 / 2" using pv by simp
  ultimately have "\<bar>fl_val (fl_mul (fl_of_int d) f) - p\<bar> \<le> 1 / 2" unfolding near_def by linarith
  then have "1 \<le> fl_val (fl_mul (fl_of_int d) f)" "fl_val (fl_mul (fl_of_int d) f) \<le> of_int 138000000000"
    using pv by (simp_all, linarith+)
  from rat_trunc_bounds [OF this]
  show "0 < fst (jitter R d sp l)" "fst (jitter R d sp l) \<le> seconds 138"
    by (simp_all add: jitter_def rg Let_def fl_to_int_def f_def)
qed

section \<open>The state machine\<close>

definition line_edges :: "(line_state \<times> line_state) list" where
  "line_edges = [(Stopped, Starting), (Changeover, Starting), (Starting, Running), (Running, Running),
     (Running, Faulted), (Running, Starved), (Running, Changeover), (Starved, Running), (Faulted, Stopped)]"

definition line_ok :: "'r sim_line \<Rightarrow> bool" where
  "line_ok l \<longleftrightarrow> ln_state l \<in> set [Stopped, Starting, Running, Starved, Faulted, Changeover] \<and>
     0 < ln_dwell l \<and> ln_dwell l \<le> seconds 138 \<and> \<not> fl_less MaxUint32 (ln_count l)"

lemma jitter_keeps [simp]: "ln_count (snd (jitter R d sp l)) = ln_count l"
  by (simp add: jitter_def Let_def split: prod.splits)

lemma enter_simps [simp]:
  "ln_state (enter R st d sp l) = st" "ln_dwell (enter R st d sp l) = fst (jitter R d sp l)"
  "ln_count (enter R st d sp l) = ln_count l"
  using jitter_keeps [of R d sp l] by (auto simp: enter_def split: prod.splits simp del: jitter_keeps)

lemma noise_keeps [simp]:
  "ln_state (snd (noise R sg l)) = ln_state l" "ln_dwell (snd (noise R sg l)) = ln_dwell l"
  "ln_count (snd (noise R sg l)) = ln_count l"
  by (simp_all add: noise_def case_prod_beta)

lemma set_point_keeps [simp]:
  "ln_state (snd (set_point R l)) = ln_state l" "ln_dwell (snd (set_point R l)) = ln_dwell l"
  "ln_count (snd (set_point R l)) = ln_count l"
  by (simp_all add: set_point_def case_prod_beta)

lemma step_speed_keeps [simp]:
  "ln_state (step_speed E R s l) = ln_state l" "ln_dwell (step_speed E R s l) = ln_dwell l" "ln_count (step_speed E R s l) = ln_count l"
  by (simp_all add: step_speed_def case_prod_beta Let_def)

lemma step_ambient_keeps [simp]:
  "ln_state (step_ambient R s l) = ln_state l" "ln_dwell (step_ambient R s l) = ln_dwell l" "ln_count (step_ambient R s l) = ln_count l"
  by (simp_all add: step_ambient_def case_prod_beta Let_def)

lemma step_temp_keeps [simp]:
  "ln_state (step_temp E R s l) = ln_state l" "ln_dwell (step_temp E R s l) = ln_dwell l" "ln_count (step_temp E R s l) = ln_count l"
  by (simp_all add: step_temp_def case_prod_beta Let_def)

lemma step_vib_keeps [simp]:
  "ln_state (step_vib E R s l) = ln_state l" "ln_dwell (step_vib E R s l) = ln_dwell l" "ln_count (step_vib E R s l) = ln_count l"
  by (simp_all add: step_vib_def case_prod_beta Let_def)

lemma step_pressure_keeps [simp]:
  "ln_state (step_pressure R l) = ln_state l" "ln_dwell (step_pressure R l) = ln_dwell l" "ln_count (step_pressure R l) = ln_count l"
  by (simp_all add: step_pressure_def case_prod_beta Let_def)

lemma step_count_keeps [simp]:
  "ln_state (step_count s l) = ln_state l" "ln_dwell (step_count s l) = ln_dwell l"
  by (simp_all add: step_count_def Let_def)

lemma step_count_bounded: "\<not> fl_less MaxUint32 (ln_count l) \<Longrightarrow> \<not> fl_less MaxUint32 (ln_count (step_count s l))"
  by (auto simp: step_count_def Let_def MaxUint32_def)

lemma lit_spread:
  assumes "0 \<le> x" "x \<le> 1 / 2"
  shows "0 \<le> fl_val (lit x)" "fl_val (lit x) \<le> 51 / 100" "fl_finite (lit x)"
proof -
  have small: "\<bar>x\<bar> \<le> 10" using assms by linarith
  have n: "near (lit x) x" using assms by (intro near_round64 lt_pow) simp
  from near_small [OF n small] assms
  show "fl_val (lit x) \<le> 51 / 100" "fl_finite (lit x)" by (linarith, simp)
  show "0 \<le> fl_val (lit x)"
    using assms by (auto simp: round64_def fl_round_def Let_def round_half_even_def zero_le_mult_iff)
qed

lemma jitter_lit:
  assumes "rand_ok R" "0 \<le> x" "x \<le> 1 / 2" "4 \<le> d" "d \<le> seconds 90"
  shows "0 < fst (jitter R d (lit x) l) \<and> fst (jitter R d (lit x) l) \<le> seconds 138"
  using jitter_bounds [OF assms(1) lit_spread [OF assms(2,3)] assms(4,5)] by blast

lemma transition_enters:
  assumes "ln_state l \<in> set [Stopped, Starting, Running, Starved, Faulted, Changeover]"
  obtains st d x g where "transition R l = enter R st d (lit x) (l\<lparr>ln_rng := g\<rparr>)"
    "(ln_state l, st) \<in> set line_edges" "4 \<le> d" "d \<le> seconds 90" "0 \<le> x" "x \<le> 1 / 2"
proof -
  obtain r g where rg: "rand_Float64 R (ln_rng l) = (r, g)" by fastforce
  have "\<exists>st d x. transition R l = enter R st d (lit x) (l\<lparr>ln_rng := g\<rparr>) \<and>
      (ln_state l, st) \<in> set line_edges \<and> 4 \<le> d \<and> d \<le> seconds 90 \<and> 0 \<le> x \<and> x \<le> 1 / 2"
  proof (cases "ln_state l = Stopped \<or> ln_state l = Changeover")
    case True
    then show ?thesis
      by (intro exI [of _ Starting] exI [of _ "seconds 8"] exI [of _ "3 / 10"])
        (auto simp: transition_def rg Let_def line_edges_def)
  next
    case False
    then consider "ln_state l = Starting" | "ln_state l = Starved" | "ln_state l = Faulted" | "ln_state l = Running"
      using assms by auto
    then show ?thesis
    proof cases
      case 1
      then show ?thesis
        by (intro exI [of _ Running] exI [of _ "seconds 90"] exI [of _ "5 / 10"])
          (auto simp: transition_def rg Let_def line_edges_def line_state_defs)
    next
      case 2
      then show ?thesis
        by (intro exI [of _ Running] exI [of _ "seconds 90"] exI [of _ "5 / 10"])
          (auto simp: transition_def rg Let_def line_edges_def line_state_defs)
    next
      case 3
      then show ?thesis
        by (intro exI [of _ Stopped] exI [of _ "seconds 10"] exI [of _ "4 / 10"])
          (auto simp: transition_def rg Let_def line_edges_def line_state_defs)
    next
      case 4
      let ?P = "\<lambda>st d x. transition R l = enter R st d (lit x) (l\<lparr>ln_rng := g\<rparr>)"
      have "?P Faulted (seconds 20) (5 / 10) \<or> ?P Starved (seconds 15) (5 / 10) \<or>
          ?P Changeover (seconds 40) (3 / 10) \<or> ?P Running (seconds 90) (5 / 10)"
        using 4 False by (simp add: transition_def rg Let_def line_state_defs)
      moreover have "(ln_state l, st) \<in> set line_edges" if "st \<in> {Faulted, Starved, Changeover, Running}" for st
        using that 4 by (auto simp: line_edges_def)
      ultimately show ?thesis
        by (elim disjE) (force)+
    qed
  qed
  then show ?thesis using that by blast
qed

lemma transition_edge:
  assumes "rand_ok R" "ln_state l \<in> set [Stopped, Starting, Running, Starved, Faulted, Changeover]"
  shows "(ln_state l, ln_state (transition R l)) \<in> set line_edges"
    and "0 < ln_dwell (transition R l) \<and> ln_dwell (transition R l) \<le> seconds 138"
    and "ln_count (transition R l) = ln_count l"
proof -
  obtain st d x g where T: "transition R l = enter R st d (lit x) (l\<lparr>ln_rng := g\<rparr>)"
    "(ln_state l, st) \<in> set line_edges" "4 \<le> d" "d \<le> seconds 90" "0 \<le> x" "x \<le> 1 / 2"
    using transition_enters [OF assms(2)] by metis
  show "(ln_state l, ln_state (transition R l)) \<in> set line_edges" using T by simp
  show "0 < ln_dwell (transition R l) \<and> ln_dwell (transition R l) \<le> seconds 138"
    unfolding T(1) enter_simps using T by (intro jitter_lit [OF assms(1)])
  show "ln_count (transition R l) = ln_count l" using T by simp
qed

lemma line_Step_cases:
  fixes E :: "float64 \<Rightarrow> float64"
  assumes "rand_ok R" "line_ok l" "0 < dt" "dt \<le> max_duration"
  defines "l' \<equiv> line_Step E R dt l"
  shows "line_ok l'"
    and "dt < ln_dwell l \<Longrightarrow> ln_state l' = ln_state l \<and> ln_dwell l' = ln_dwell l - dt"
    and "ln_dwell l \<le> dt \<Longrightarrow> (ln_state l, ln_state l') \<in> set line_edges"
proof -
  define l1 where "l1 = l\<lparr>ln_elapsed := wrap64 (ln_elapsed l + dt), ln_dwell := ln_dwell l - dt\<rparr>"
  define l2 where "l2 = (if ln_dwell l1 \<le> 0 then transition R l1 else l1)"
  have "wrap64 (ln_dwell l - dt) = ln_dwell l - dt"
    using assms(2-4) by (intro wrap64_id) (auto simp: line_ok_def max_duration_def)
  then have "l' = (let s = dur_Seconds dt in step_count s (step_pressure R (step_vib E R s (step_temp E R s
                (step_ambient R s (step_speed E R s l2))))))"
    using assms(3) by (simp add: l'_def line_Step_def Let_def l2_def l1_def)
  then have l': "ln_state l' = ln_state l2" "ln_dwell l' = ln_dwell l2"
    "\<not> fl_less MaxUint32 (ln_count l2) \<Longrightarrow> \<not> fl_less MaxUint32 (ln_count l')"
    by (simp_all add: Let_def step_count_bounded)
  have l1: "ln_state l1 = ln_state l" "ln_dwell l1 = ln_dwell l - dt" "ln_count l1 = ln_count l"
    by (simp_all add: l1_def)
  have st: "ln_state l1 \<in> set [Stopped, Starting, Running, Starved, Faulted, Changeover]"
    using assms(2) l1 unfolding line_ok_def by simp
  note T = transition_edge [OF assms(1) st]
  show "dt < ln_dwell l \<Longrightarrow> ln_state l' = ln_state l \<and> ln_dwell l' = ln_dwell l - dt"
    using l' l1 by (simp add: l2_def)
  show edge: "ln_dwell l \<le> dt \<Longrightarrow> (ln_state l, ln_state l') \<in> set line_edges"
    using l' l1 T by (simp add: l2_def)
  have "ln_state l2 \<in> set [Stopped, Starting, Running, Starved, Faulted, Changeover]"
    using T(1) st by (auto simp: l2_def line_edges_def)
  moreover have "0 < ln_dwell l2 \<and> ln_dwell l2 \<le> seconds 138"
    using T(2) l1 assms(2,3) by (auto simp: l2_def line_ok_def)
  moreover have "ln_count l2 = ln_count l" using T(3) l1 by (simp add: l2_def)
  ultimately show "line_ok l'" using l' assms(2) unfolding line_ok_def by simp
qed

lemma NewLine_ok: "line_ok (NewLine ns seed)"
  by (simp add: line_ok_def NewLine_def MaxUint32_def)

lemma line_run_ok:
  assumes "rand_ok R" "\<forall>dt \<in> set dts. dt \<le> max_duration" "line_ok l"
  shows "line_ok (fold (line_Step E R) dts l)"
  using assms(2,3)
proof (induction dts arbitrary: l)
  case (Cons dt dts)
  have "line_ok (line_Step E R dt l)"
    using line_Step_cases(1) [OF assms(1) Cons.prems(2), of dt E] Cons.prems
    by (cases "0 < dt") (auto simp: line_Step_def)
  then show ?case using Cons by simp
qed simp

section \<open>Properties\<close>

text \<open>
  C23: the packaging-line state machine. With a generator whose \<^verbatim>\<open>Float64\<close> is in \<open>[0, 1)\<close>,
  whatever the sizes of the steps, the noise and the exponential function: the line is
  always in one of the six states with between zero and 138 seconds left in it, its bottle
  counter never exceeds the range of \<^verbatim>\<open>uint32\<close>, and a step either uses up dwell time and stays,
  or moves along an edge of the state graph. A fault therefore leads to STOPPED and
  STARTING before the line runs again.
\<close>

theorem line_state_machine:
  assumes "rand_ok R" "\<forall>dt \<in> set dts. dt \<le> max_duration" "0 < dt" "dt \<le> max_duration"
  shows "let l = fold (line_Step E R) dts (NewLine ns seed); l' = line_Step E R dt l
    in ln_state l \<in> set [Stopped, Starting, Running, Starved, Faulted, Changeover] \<and>
       0 < ln_dwell l \<and> ln_dwell l \<le> seconds 138 \<and> \<not> fl_less MaxUint32 (ln_count l) \<and>
       (if dt < ln_dwell l then ln_state l' = ln_state l \<and> ln_dwell l' = ln_dwell l - dt
        else (ln_state l, ln_state l') \<in> set line_edges)"
  using line_run_ok [OF assms(1,2) NewLine_ok] line_Step_cases [OF assms(1) line_run_ok [OF assms(1,2) NewLine_ok] assms(3,4)]
  unfolding Let_def line_ok_def by (simp add: not_less)

text \<open>A generator that repeats one number.\<close>

definition const_rand :: "unit rand_ops" where
  "const_rand = \<lparr>rand_Float64 = (\<lambda>g. (Fin (1 / 2), g)), rand_NormFloat64 = (\<lambda>g. (Fin 0, g))\<rparr>"

theorem line_state_machine_witness:
  "(Stopped, ln_state (line_Step (\<lambda>x. Fin 1) const_rand (seconds 4) (NewLine (\<lambda>_. ()) 1))) \<in> set line_edges"
proof -
  have "rand_ok const_rand"
    unfolding rand_ok_def const_rand_def by (intro allI exI [of _ "1 / 2"]) simp
  from line_state_machine [OF this, of "[]" "seconds 4" "\<lambda>x. Fin 1" "\<lambda>_. ()" 1] show ?thesis
    by (simp add: NewLine_def max_duration_def)
qed

end
