(* ===== verification/Asset_Model.thy ===== *)
theory Asset_Model
  imports Uns_Topic Modbus_Frame Modbus_Regs Line_Sim Uns_Payload
begin

text \<open>
  The plant definition, \<^verbatim>\<open>internal/domain/asset/model.go\<close> and \<^verbatim>\<open>load.go\<close>: the ISA-95
  hierarchy, sources and tags as records, the defaults, the validation that reports every
  problem, the effective quality settings and the lookup tables. The YAML decoder is a
  parameter. \<^verbatim>\<open>Validate\<close> is shown equivalent to a declarative description of a usable plant,
  and the lookup tables of a validated plant are shown complete and unambiguous.

  A pointer into the plant is the element it points to: nothing changes the plant after
  the defaults were applied.
\<close>

section \<open>The model\<close>

datatype source_type = SourceModbus | SourceSim | SourceCSV | OtherSource string

record quality_defaults =
  qd_StaleAfter :: duration
  qd_FlatlineAfter :: duration
  qd_FlatlineMinSamples :: int

record modbus_config =
  mc_Address :: string
  mc_UnitID :: byte
  mc_Timeout :: duration
  mc_MaxGap :: int

record sim_config =
  sm_Seed :: int

record csv_config =
  cv_Path :: string
  cv_Loop :: bool

record source_def =
  so_Name :: string
  so_Type :: source_type
  so_PollInterval :: duration
  so_Modbus :: "modbus_config option"
  so_Sim :: "sim_config option"
  so_CSV :: "csv_config option"

record eng_range =
  rg_Min :: float64
  rg_Max :: float64

record scale =
  sc_Factor :: float64
  sc_Offset :: float64

definition scale_Apply :: "scale option \<Rightarrow> float64 \<Rightarrow> float64" where
  "scale_Apply s raw =
     (case s of None \<Rightarrow> raw | Some c \<Rightarrow> fl_add (fl_mul raw (sc_Factor c)) (sc_Offset c))"

record modbus_address =
  ma_Function :: string
  ma_Register :: uint16
  ma_Type :: mb_type
  ma_ByteOrder :: byte_order

definition FunctionCode :: "modbus_address \<Rightarrow> byte" where
  "FunctionCode m = (if ma_Function m = ''input'' then FuncReadInputRegisters else FuncReadHoldingRegisters)"

record sim_address =
  sa_Signal :: string

record csv_address =
  ca_Column :: string

record tag =
  tg_Name :: string
  tg_Description :: string
  tg_Unit :: string
  tg_DataType :: string
  tg_Range :: "eng_range option"
  tg_Scale :: "scale option"
  tg_Quality :: "quality_defaults option"
  tg_Modbus :: "modbus_address option"
  tg_Sim :: "sim_address option"
  tg_CSV :: "csv_address option"

record asset =
  as_ID :: string
  as_Class :: string
  as_Description :: string
  as_Source :: string
  as_Tags :: "tag list"

record cell =
  ce_Name :: string
  ce_Assets :: "asset list"

record pline =
  li_Name :: string
  li_Cells :: "cell list"

record area =
  ae_Name :: string
  ae_Lines :: "pline list"

record plant =
  pt_Enterprise :: string
  pt_Site :: string
  pt_Quality :: quality_defaults
  pt_Sources :: "source_def list"
  pt_Areas :: "area list"

section \<open>Defaults\<close>

definition DefaultPollInterval :: duration where "DefaultPollInterval = seconds 1"

definition DefaultModbusTimeout :: duration where "DefaultModbusTimeout = seconds 2"

definition DefaultModbusMaxGap :: int where "DefaultModbusMaxGap = 8"

definition DefaultFlatlineMinSamples :: int where "DefaultFlatlineMinSamples = 5"

definition staleMultiplier :: int where "staleMultiplier = 3"

fun unsTypeFor :: "mb_type \<Rightarrow> string" where
  "unsTypeFor Int16 = ''Int16''"
| "unsTypeFor UInt16 = ''UInt16''"
| "unsTypeFor Int32 = ''Int32''"
| "unsTypeFor UInt32 = ''UInt32''"
| "unsTypeFor _ = ''Float''"

definition default_source :: "source_def \<Rightarrow> source_def" where
  "default_source s0 =
     (let s = (if so_PollInterval s0 \<le> 0 then s0\<lparr>so_PollInterval := DefaultPollInterval\<rparr> else s0)
      in case so_Modbus s of
           None \<Rightarrow> s
         | Some m0 \<Rightarrow>
             let m1 = (if mc_Timeout m0 \<le> 0 then m0\<lparr>mc_Timeout := DefaultModbusTimeout\<rparr> else m0);
                 m2 = (if mc_MaxGap m1 \<le> 0 then m1\<lparr>mc_MaxGap := DefaultModbusMaxGap\<rparr> else m1);
                 m3 = (if mc_UnitID m2 = 0 then m2\<lparr>mc_UnitID := 1\<rparr> else m2)
             in s\<lparr>so_Modbus := Some m3\<rparr>)"

definition default_tag :: "tag \<Rightarrow> tag" where
  "default_tag t0 =
     (let t1 = (case tg_Modbus t0 of
                  None \<Rightarrow> t0
                | Some m0 \<Rightarrow>
                    let m1 = (if ma_Function m0 = [] then m0\<lparr>ma_Function := ''holding''\<rparr> else m0);
                        m2 = (if ma_ByteOrder m1 = OtherOrder [] then m1\<lparr>ma_ByteOrder := ABCD\<rparr> else m1);
                        t = t0\<lparr>tg_Modbus := Some m2\<rparr>
                    in if tg_DataType t = [] then t\<lparr>tg_DataType := unsTypeFor (ma_Type m2)\<rparr> else t);
          t2 = (if tg_DataType t1 = [] then t1\<lparr>tg_DataType := ''Float''\<rparr> else t1);
          t3 = (case tg_CSV t2 of
                  None \<Rightarrow> t2
                | Some c \<Rightarrow> if ca_Column c = [] then t2\<lparr>tg_CSV := Some (c\<lparr>ca_Column := tg_Name t2\<rparr>)\<rparr> else t2)
      in case tg_Sim t3 of
           None \<Rightarrow> t3
         | Some c \<Rightarrow> if sa_Signal c = [] then t3\<lparr>tg_Sim := Some (c\<lparr>sa_Signal := tg_Name t3\<rparr>)\<rparr> else t3)"

text \<open>The loop over \<^verbatim>\<open>p.assets()\<close> changes every asset of the plant in place.\<close>

definition map_assets :: "(asset \<Rightarrow> asset) \<Rightarrow> plant \<Rightarrow> plant" where
  "map_assets f p = p\<lparr>pt_Areas :=
     map (\<lambda>ar. ar\<lparr>ae_Lines :=
       map (\<lambda>lne. lne\<lparr>li_Cells :=
         map (\<lambda>c. c\<lparr>ce_Assets := map f (ce_Assets c)\<rparr>) (li_Cells lne)\<rparr>) (ae_Lines ar)\<rparr>) (pt_Areas p)\<rparr>"

definition applyDefaults :: "plant \<Rightarrow> plant" where
  "applyDefaults p0 =
     (let p1 = (if qd_FlatlineMinSamples (pt_Quality p0) \<le> 0
                then p0\<lparr>pt_Quality := (pt_Quality p0)\<lparr>qd_FlatlineMinSamples := DefaultFlatlineMinSamples\<rparr>\<rparr>
                else p0);
          p2 = p1\<lparr>pt_Sources := map default_source (pt_Sources p1)\<rparr>
      in map_assets (\<lambda>a. a\<lparr>as_Tags := map default_tag (as_Tags a)\<rparr>) p2)"

definition plant_assets :: "plant \<Rightarrow> asset list" where
  "plant_assets p = concat (map (\<lambda>ar. concat (map (\<lambda>lne. concat (map ce_Assets (li_Cells lne))) (ae_Lines ar))) (pt_Areas p))"

section \<open>Validation\<close>

datatype tag_problem =
    BadDataType string | BadRange float64 float64 | ZeroFactor | NegativeTagQuality
  | TagModbusMissing | BadFunction string | BadModbusType regs_error | RegisterOverflow
  | BadByteOrder regs_error | BadSimSignal string | CSVColumnMissing

datatype plant_problem =
    EnterpriseSegment seg_error | SiteSegment seg_error | NegativeQuality
  | NoSources | SourceNameMissing nat | SourceSegment string seg_error | DuplicateSource string
  | ModbusBlockMissing string | ModbusAddressMissing string | UnitIDTooLarge string
  | CSVPathMissing string | SourceTypeMissing string | UnsupportedSource string string
  | NoAreas | AreaSegment seg_error | LineSegment string seg_error | CellSegment string seg_error
  | AssetIDMissing string | DuplicateAsset string | ClassMissing string | UnknownSource string string
  | NoTags string | DuplicateTag string string | TagTopic string string "string \<times> seg_error"
  | TopicUsed string string string string | TagProblem string string tag_problem | NoAsset

text \<open>\<^verbatim>\<open>if cond { fail(...) }\<close> and \<^verbatim>\<open>if err := ...; err != nil { fail(...) }\<close>.\<close>

abbreviation fail_if :: "bool \<Rightarrow> 'e \<Rightarrow> 'e list" where
  "fail_if c e \<equiv> (if c then [e] else [])"

definition fail_some :: "('x \<Rightarrow> 'e) \<Rightarrow> 'x option \<Rightarrow> 'e list" where
  "fail_some f x = (case x of None \<Rightarrow> [] | Some e \<Rightarrow> [f e])"

lemma fail_some_Nil [simp]: "fail_some f x = [] \<longleftrightarrow> x = None"
  by (auto simp: fail_some_def split: option.splits)

definition validate_modbus_tag :: "modbus_address \<Rightarrow> tag_problem list" where
  "validate_modbus_tag m =
     fail_if (ma_Function m \<noteq> ''holding'' \<and> ma_Function m \<noteq> ''input'') (BadFunction (ma_Function m)) @
     (case ParseDataType (ma_Type m) of
        Inl e \<Rightarrow> [BadModbusType e]
      | Inr dt \<Rightarrow> fail_if (unat (ma_Register m) + unat (Words dt) > 65536) RegisterOverflow) @
     (case ParseByteOrder (ma_ByteOrder m) of Inl e \<Rightarrow> [BadByteOrder e] | Inr _ \<Rightarrow> [])"

definition validateTag :: "tag \<Rightarrow> source_def option \<Rightarrow> tag_problem list" where
  "validateTag t src =
     (case uns_ParseDataType (tg_DataType t) of Inl e \<Rightarrow> [BadDataType e] | Inr _ \<Rightarrow> []) @
     (case tg_Range t of None \<Rightarrow> []
      | Some r \<Rightarrow> fail_if (fl_le (rg_Max r) (rg_Min r)) (BadRange (rg_Min r) (rg_Max r))) @
     (case tg_Scale t of None \<Rightarrow> [] | Some c \<Rightarrow> fail_if (fl_eq (sc_Factor c) (Fin 0)) ZeroFactor) @
     (case tg_Quality t of None \<Rightarrow> []
      | Some q \<Rightarrow> fail_if (qd_StaleAfter q < 0 \<or> qd_FlatlineAfter q < 0) NegativeTagQuality) @
     (case src of
        None \<Rightarrow> []
      | Some s \<Rightarrow>
          (case so_Type s of
             SourceModbus \<Rightarrow>
               (case tg_Modbus t of None \<Rightarrow> [TagModbusMissing] | Some m \<Rightarrow> validate_modbus_tag m)
           | SourceSim \<Rightarrow>
               (case tg_Sim t of None \<Rightarrow> [BadSimSignal []]
                | Some c \<Rightarrow> fail_if (\<not> IsSignal (sa_Signal c)) (BadSimSignal (sa_Signal c)))
           | SourceCSV \<Rightarrow>
               (case tg_CSV t of None \<Rightarrow> [CSVColumnMissing]
                | Some c \<Rightarrow> fail_if (ca_Column c = []) CSVColumnMissing)
           | OtherSource _ \<Rightarrow> []))"

definition validate_source :: "source_def \<Rightarrow> plant_problem list" where
  "validate_source s =
     (case so_Type s of
        SourceModbus \<Rightarrow>
          (case so_Modbus s of
             None \<Rightarrow> [ModbusBlockMissing (so_Name s)]
           | Some m \<Rightarrow> fail_if (mc_Address m = []) (ModbusAddressMissing (so_Name s)) @
                       fail_if (mc_UnitID m > 247) (UnitIDTooLarge (so_Name s)))
      | SourceSim \<Rightarrow> []
      | SourceCSV \<Rightarrow>
          (case so_CSV s of
             None \<Rightarrow> [CSVPathMissing (so_Name s)]
           | Some c \<Rightarrow> fail_if (cv_Path c = []) (CSVPathMissing (so_Name s)))
      | OtherSource ty \<Rightarrow> if ty = [] then [SourceTypeMissing (so_Name s)] else [UnsupportedSource (so_Name s) ty])"

text \<open>The loop over the sources: problems so far are those returned, \<open>m\<close> is the map \<^verbatim>\<open>sources\<close>.\<close>

fun validate_sources ::
  "nat \<Rightarrow> source_def list \<Rightarrow> (string \<rightharpoonup> source_def) \<Rightarrow> plant_problem list \<times> (string \<rightharpoonup> source_def)" where
  "validate_sources i [] m = ([], m)"
| "validate_sources i (s # ss) m =
     (if so_Name s = []
      then (case validate_sources (i + 1) ss m of (es, m') \<Rightarrow> (SourceNameMissing i # es, m'))
      else let e1 = fail_some (SourceSegment (so_Name s)) (ValidateSegment (so_Name s));
               e2 = fail_if (m (so_Name s) \<noteq> None) (DuplicateSource (so_Name s));
               e3 = validate_source s
           in case validate_sources (i + 1) ss (m(so_Name s \<mapsto> s)) of (es, m') \<Rightarrow> (e1 @ e2 @ e3 @ es, m'))"

text \<open>The maps \<^verbatim>\<open>assetIDs\<close> and \<^verbatim>\<open>topics\<close> and the flag \<^verbatim>\<open>anyAsset\<close> of the walk.\<close>

record walk =
  wk_assetIDs :: "string set"
  wk_topics :: "string \<rightharpoonup> string"
  wk_anyAsset :: bool

text \<open>\<open>mk\<close> builds the topic of a tag name at this place of the hierarchy.\<close>

fun validate_tags ::
  "(string \<Rightarrow> topic) \<Rightarrow> string \<Rightarrow> source_def option \<Rightarrow> tag list \<Rightarrow> string set \<Rightarrow> walk \<Rightarrow> plant_problem list \<times> walk" where
  "validate_tags mk aid src [] names w = ([], w)"
| "validate_tags mk aid src (t # ts) names w =
     (let e1 = fail_if (tg_Name t \<in> names) (DuplicateTag aid (tg_Name t));
          tp = mk (tg_Name t);
          (e2, w1) =
            (case topic_Validate tp of
               Some e \<Rightarrow> ([TagTopic aid (tg_Name t) e], w)
             | None \<Rightarrow>
                 (case wk_topics w (topic_String tp) of
                    Some other \<Rightarrow> ([TopicUsed aid (tg_Name t) (topic_String tp) other], w)
                  | None \<Rightarrow> ([], w\<lparr>wk_topics := (wk_topics w)(topic_String tp \<mapsto> aid)\<rparr>)));
          e3 = map (TagProblem aid (tg_Name t)) (validateTag t src);
          (es, w2) = validate_tags mk aid src ts (insert (tg_Name t) names) w1
      in (e1 @ e2 @ e3 @ es, w2))"

definition validate_asset ::
  "(string \<rightharpoonup> source_def) \<Rightarrow> (string \<Rightarrow> topic) \<Rightarrow> string \<Rightarrow> asset \<Rightarrow> walk \<Rightarrow> plant_problem list \<times> walk" where
  "validate_asset sources mk cellname a w0 =
     (let w = w0\<lparr>wk_anyAsset := True\<rparr>
      in if as_ID a = [] then ([AssetIDMissing cellname], w)
         else let e1 = fail_if (as_ID a \<in> wk_assetIDs w) (DuplicateAsset (as_ID a));
                  w1 = w\<lparr>wk_assetIDs := insert (as_ID a) (wk_assetIDs w)\<rparr>;
                  e2 = fail_if (as_Class a = []) (ClassMissing (as_ID a));
                  src = sources (as_Source a);
                  e3 = fail_if (src = None) (UnknownSource (as_ID a) (as_Source a));
                  e4 = fail_if (as_Tags a = []) (NoTags (as_ID a));
                  (es, w2) = validate_tags mk (as_ID a) src (as_Tags a) {} w1
              in (e1 @ e2 @ e3 @ e4 @ es, w2))"

text \<open>A loop whose body returns problems and threads the walk.\<close>

fun each :: "('x \<Rightarrow> walk \<Rightarrow> plant_problem list \<times> walk) \<Rightarrow> 'x list \<Rightarrow> walk \<Rightarrow> plant_problem list \<times> walk" where
  "each f [] w = ([], w)"
| "each f (x # xs) w = (case f x w of (e, w1) \<Rightarrow> case each f xs w1 of (es, w2) \<Rightarrow> (e @ es, w2))"

definition validate_cell ::
  "(string \<rightharpoonup> source_def) \<Rightarrow> (string \<Rightarrow> string \<Rightarrow> topic) \<Rightarrow> string \<Rightarrow> cell \<Rightarrow> walk \<Rightarrow> plant_problem list \<times> walk" where
  "validate_cell sources mk linename c w =
     (case each (validate_asset sources (mk (ce_Name c)) (ce_Name c)) (ce_Assets c) w of (es, w') \<Rightarrow>
        (fail_some (CellSegment linename) (ValidateSegment (ce_Name c)) @ es, w'))"

definition validate_line ::
  "(string \<rightharpoonup> source_def) \<Rightarrow> (string \<Rightarrow> string \<Rightarrow> string \<Rightarrow> topic) \<Rightarrow> string \<Rightarrow> pline \<Rightarrow> walk \<Rightarrow> plant_problem list \<times> walk" where
  "validate_line sources mk areaname lne w =
     (case each (validate_cell sources (mk (li_Name lne)) (li_Name lne)) (li_Cells lne) w of (es, w') \<Rightarrow>
        (fail_some (LineSegment areaname) (ValidateSegment (li_Name lne)) @ es, w'))"

definition validate_area ::
  "(string \<rightharpoonup> source_def) \<Rightarrow> (string \<Rightarrow> string \<Rightarrow> string \<Rightarrow> string \<Rightarrow> topic) \<Rightarrow> area \<Rightarrow> walk \<Rightarrow> plant_problem list \<times> walk" where
  "validate_area sources mk ar w =
     (case each (validate_line sources (mk (ae_Name ar)) (ae_Name ar)) (ae_Lines ar) w of (es, w') \<Rightarrow>
        (fail_some AreaSegment (ValidateSegment (ae_Name ar)) @ es, w'))"

definition plant_topic :: "plant \<Rightarrow> string \<Rightarrow> string \<Rightarrow> string \<Rightarrow> string \<Rightarrow> topic" where
  "plant_topic p a l c t = \<lparr>t_enterprise = pt_Enterprise p, t_site = pt_Site p, t_area = a, t_line = l, t_cell = c, t_tag = t\<rparr>"

definition plant_Validate :: "plant \<Rightarrow> plant_problem list" where
  "plant_Validate p =
     (let (es, sources) = validate_sources 0 (pt_Sources p) Map.empty;
          (ea, w) = each (validate_area sources (plant_topic p)) (pt_Areas p)
                      \<lparr>wk_assetIDs = {}, wk_topics = Map.empty, wk_anyAsset = False\<rparr>
      in fail_some EnterpriseSegment (ValidateSegment (pt_Enterprise p)) @
         fail_some SiteSegment (ValidateSegment (pt_Site p)) @
         fail_if (qd_StaleAfter (pt_Quality p) < 0 \<or> qd_FlatlineAfter (pt_Quality p) < 0) NegativeQuality @
         fail_if (pt_Sources p = []) NoSources @ es @
         fail_if (pt_Areas p = []) NoAreas @ ea @
         fail_if (\<not> wk_anyAsset w) NoAsset)"

datatype parse_error = DecodePlant string | InvalidPlant "plant_problem list"

text \<open>\<open>yaml\<close> stands for the decoder of \<^verbatim>\<open>gopkg.in/yaml.v3\<close> with known fields only.\<close>

definition asset_Parse :: "(byte list \<Rightarrow> string + plant) \<Rightarrow> byte list \<Rightarrow> parse_error + plant" where
  "asset_Parse yaml b =
     (case yaml b of
        Inl e \<Rightarrow> Inl (DecodePlant e)
      | Inr p0 \<Rightarrow>
          let p = applyDefaults p0; es = plant_Validate p
          in if es = [] then Inr p else Inl (InvalidPlant es))"

definition EffectiveQuality :: "plant \<Rightarrow> tag \<Rightarrow> duration \<Rightarrow> quality_defaults" where
  "EffectiveQuality p t pollInterval =
     (let q0 = pt_Quality p;
          q1 = (case tg_Quality t of
                  None \<Rightarrow> q0
                | Some c \<Rightarrow>
                    let a = (if qd_StaleAfter c > 0 then q0\<lparr>qd_StaleAfter := qd_StaleAfter c\<rparr> else q0);
                        b = (if qd_FlatlineAfter c > 0 then a\<lparr>qd_FlatlineAfter := qd_FlatlineAfter c\<rparr> else a)
                    in if qd_FlatlineMinSamples c > 0
                       then b\<lparr>qd_FlatlineMinSamples := qd_FlatlineMinSamples c\<rparr> else b);
          q2 = (if qd_StaleAfter q1 \<le> 0 then q1\<lparr>qd_StaleAfter := wrap64 (staleMultiplier * pollInterval)\<rparr> else q1)
      in if qd_FlatlineMinSamples q2 \<le> 0
         then q2\<lparr>qd_FlatlineMinSamples := DefaultFlatlineMinSamples\<rparr> else q2)"

section \<open>The lookup tables\<close>

record asset_ref =
  ar_Asset :: asset
  ar_Area :: string
  ar_Line :: string
  ar_Cell :: string
  ar_Source :: "source_def option"

record tag_ref =
  tr_Ref :: asset_ref
  tr_Tag :: tag
  tr_Topic :: topic

record plant_index =
  ix_plant :: plant
  ix_assets :: "string \<rightharpoonup> asset_ref"
  ix_sources :: "string \<rightharpoonup> source_def"
  ix_bySource :: "string \<rightharpoonup> tag_ref list"
  ix_byTopic :: "string \<rightharpoonup> tag_ref"
  ix_ordered :: "asset_ref list"
  ix_topics :: "string list"

definition index_tag :: "plant \<Rightarrow> asset_ref \<Rightarrow> tag \<Rightarrow> plant_index \<Rightarrow> plant_index" where
  "index_tag p ref t ix =
     (let tr = \<lparr>tr_Ref = ref, tr_Tag = t,
                tr_Topic = plant_topic p (ar_Area ref) (ar_Line ref) (ar_Cell ref) (tg_Name t)\<rparr>;
          src = as_Source (ar_Asset ref); key = topic_String (tr_Topic tr);
          old = (case ix_bySource ix src of None \<Rightarrow> [] | Some xs \<Rightarrow> xs)
      in ix\<lparr>ix_bySource := (ix_bySource ix)(src \<mapsto> old @ [tr]),
            ix_byTopic := (ix_byTopic ix)(key \<mapsto> tr),
            ix_topics := ix_topics ix @ [key]\<rparr>)"

definition index_asset :: "plant \<Rightarrow> string \<Rightarrow> string \<Rightarrow> string \<Rightarrow> asset \<Rightarrow> plant_index \<Rightarrow> plant_index" where
  "index_asset p ar lne ce a ix =
     (let ref = \<lparr>ar_Asset = a, ar_Area = ar, ar_Line = lne, ar_Cell = ce, ar_Source = ix_sources ix (as_Source a)\<rparr>;
          ix1 = ix\<lparr>ix_assets := (ix_assets ix)(as_ID a \<mapsto> ref), ix_ordered := ix_ordered ix @ [ref]\<rparr>
      in fold (index_tag p ref) (as_Tags a) ix1)"

definition index_walk :: "plant \<Rightarrow> plant_index \<Rightarrow> plant_index" where
  "index_walk p =
     fold (\<lambda>ar. fold (\<lambda>lne. fold (\<lambda>c. fold (index_asset p (ae_Name ar) (li_Name lne) (ce_Name c))
       (ce_Assets c)) (li_Cells lne)) (ae_Lines ar)) (pt_Areas p)"

text \<open>
  The two sorts at the end. \<^verbatim>\<open>sort.Slice\<close> may reorder assets of equal id; a validated plant has
  none.
\<close>

definition plant_Index :: "plant \<Rightarrow> plant_index" where
  "plant_Index p =
     (let sources = fold (\<lambda>s m. m(so_Name s \<mapsto> s)) (pt_Sources p) Map.empty;
          ix = index_walk p \<lparr>ix_plant = p, ix_assets = Map.empty, ix_sources = sources, ix_bySource = Map.empty,
                 ix_byTopic = Map.empty, ix_ordered = [], ix_topics = []\<rparr>
      in ix\<lparr>ix_ordered := sort_key (\<lambda>r. as_ID (ar_Asset r)) (ix_ordered ix), ix_topics := sort (ix_topics ix)\<rparr>)"

definition index_Assets :: "plant_index \<Rightarrow> asset_ref list" where
  "index_Assets i = ix_ordered i"

definition index_Asset :: "plant_index \<Rightarrow> string \<Rightarrow> asset_ref option" where
  "index_Asset i k = ix_assets i k"

definition index_Source :: "plant_index \<Rightarrow> string \<Rightarrow> source_def option" where
  "index_Source i name = ix_sources i name"

definition TagsForSource :: "plant_index \<Rightarrow> string \<Rightarrow> tag_ref list" where
  "TagsForSource i name = (case ix_bySource i name of None \<Rightarrow> [] | Some xs \<Rightarrow> xs)"

definition TagByTopic :: "plant_index \<Rightarrow> string \<Rightarrow> tag_ref option" where
  "TagByTopic i tp = ix_byTopic i tp"

definition index_Topics :: "plant_index \<Rightarrow> string list" where
  "index_Topics i = ix_topics i"

definition TagCount :: "plant_index \<Rightarrow> int" where
  "TagCount i = int (length (ix_topics i))"

section \<open>A usable plant, declaratively\<close>

text \<open>The assets with their place (area, line, cell), in the order of the file.\<close>

type_synonym entry = "(string \<times> string \<times> string) \<times> asset"

definition cell_entries :: "string \<Rightarrow> string \<Rightarrow> cell \<Rightarrow> entry list" where
  "cell_entries ar li c = map (\<lambda>a. ((ar, li, ce_Name c), a)) (ce_Assets c)"

definition line_entries :: "string \<Rightarrow> pline \<Rightarrow> entry list" where
  "line_entries ar l = concat (map (cell_entries ar (li_Name l)) (li_Cells l))"

definition area_entries :: "area \<Rightarrow> entry list" where
  "area_entries ar = concat (map (line_entries (ae_Name ar)) (ae_Lines ar))"

definition plant_entries :: "plant \<Rightarrow> entry list" where
  "plant_entries p = concat (map area_entries (pt_Areas p))"

abbreviation entry_id :: "entry \<Rightarrow> string" where
  "entry_id e \<equiv> as_ID (snd e)"

definition entry_topic :: "plant \<Rightarrow> entry \<Rightarrow> tag \<Rightarrow> topic" where
  "entry_topic p e t = (case fst e of (ar, li, ce) \<Rightarrow> plant_topic p ar li ce (tg_Name t))"

definition entry_keys :: "plant \<Rightarrow> entry \<Rightarrow> string list" where
  "entry_keys p e = map (\<lambda>t. topic_String (entry_topic p e t)) (as_Tags (snd e))"

abbreviation segment_ok :: "string \<Rightarrow> bool" where
  "segment_ok s \<equiv> ValidateSegment s = None"

fun address_ok :: "source_type \<Rightarrow> tag \<Rightarrow> bool" where
  "address_ok SourceModbus t =
     (\<exists>m. tg_Modbus t = Some m \<and> (ma_Function m = ''holding'' \<or> ma_Function m = ''input'') \<and>
        ma_Type m \<in> {Int16, UInt16, Int32, UInt32, Float32} \<and>
        unat (ma_Register m) + unat (Words (ma_Type m)) \<le> 65536 \<and>
        ma_ByteOrder m \<in> {ABCD, DCBA, BADC, CDAB, OtherOrder []})"
| "address_ok SourceSim t = (\<exists>c. tg_Sim t = Some c \<and> IsSignal (sa_Signal c))"
| "address_ok SourceCSV t = (\<exists>c. tg_CSV t = Some c \<and> ca_Column c \<noteq> [])"
| "address_ok (OtherSource _) t = True"

definition tag_ok :: "source_def \<Rightarrow> tag \<Rightarrow> bool" where
  "tag_ok s t \<longleftrightarrow>
     tg_DataType t \<in> {[], ''Int16'', ''UInt16'', ''Int32'', ''UInt32'', ''Float'', ''Double'', ''Boolean'', ''String''} \<and>
     (\<forall>r. tg_Range t = Some r \<longrightarrow> \<not> fl_le (rg_Max r) (rg_Min r)) \<and>
     (\<forall>c. tg_Scale t = Some c \<longrightarrow> \<not> fl_eq (sc_Factor c) (Fin 0)) \<and>
     (\<forall>q. tg_Quality t = Some q \<longrightarrow> 0 \<le> qd_StaleAfter q \<and> 0 \<le> qd_FlatlineAfter q) \<and>
     address_ok (so_Type s) t"

definition source_ok :: "source_def \<Rightarrow> bool" where
  "source_ok s \<longleftrightarrow> segment_ok (so_Name s) \<and>
     (case so_Type s of
        SourceModbus \<Rightarrow> \<exists>m. so_Modbus s = Some m \<and> mc_Address m \<noteq> [] \<and> mc_UnitID m \<le> 247
      | SourceSim \<Rightarrow> True
      | SourceCSV \<Rightarrow> \<exists>c. so_CSV s = Some c \<and> cv_Path c \<noteq> []
      | OtherSource _ \<Rightarrow> False)"

definition entry_ok :: "plant \<Rightarrow> (string \<rightharpoonup> source_def) \<Rightarrow> entry \<Rightarrow> bool" where
  "entry_ok p sources e \<longleftrightarrow>
     entry_id e \<noteq> [] \<and> as_Class (snd e) \<noteq> [] \<and> as_Tags (snd e) \<noteq> [] \<and> distinct (map tg_Name (as_Tags (snd e))) \<and>
     (\<exists>s. sources (as_Source (snd e)) = Some s \<and>
        (\<forall>t \<in> set (as_Tags (snd e)). topic_Validate (entry_topic p e t) = None \<and> tag_ok s t))"

definition hierarchy_ok :: "plant \<Rightarrow> bool" where
  "hierarchy_ok p \<longleftrightarrow> segment_ok (pt_Enterprise p) \<and> segment_ok (pt_Site p) \<and>
     (\<forall>ar \<in> set (pt_Areas p). segment_ok (ae_Name ar) \<and>
        (\<forall>l \<in> set (ae_Lines ar). segment_ok (li_Name l) \<and> (\<forall>c \<in> set (li_Cells l). segment_ok (ce_Name c))))"

definition named_source :: "plant \<Rightarrow> string \<rightharpoonup> source_def" where
  "named_source p = map_of (map (\<lambda>s. (so_Name s, s)) (pt_Sources p))"

definition plant_ok :: "plant \<Rightarrow> bool" where
  "plant_ok p \<longleftrightarrow> hierarchy_ok p \<and>
     0 \<le> qd_StaleAfter (pt_Quality p) \<and> 0 \<le> qd_FlatlineAfter (pt_Quality p) \<and>
     pt_Sources p \<noteq> [] \<and> distinct (map so_Name (pt_Sources p)) \<and> (\<forall>s \<in> set (pt_Sources p). source_ok s) \<and>
     plant_entries p \<noteq> [] \<and> distinct (map entry_id (plant_entries p)) \<and>
     distinct (concat (map (entry_keys p) (plant_entries p))) \<and>
     (\<forall>e \<in> set (plant_entries p). entry_ok p (named_source p) e)"

section \<open>Validate decides it\<close>

lemma uns_ParseDataType_ok:
  "(case uns_ParseDataType d of Inl e \<Rightarrow> [f e] | Inr _ \<Rightarrow> []) = [] \<longleftrightarrow>
   d \<in> {[], ''Int16'', ''UInt16'', ''Int32'', ''UInt32'', ''Float'', ''Double'', ''Boolean'', ''String''}"
  by (auto simp: uns_ParseDataType_def)

lemma validate_modbus_tag_ok:
  "validate_modbus_tag m = [] \<longleftrightarrow> (ma_Function m = ''holding'' \<or> ma_Function m = ''input'') \<and>
     ma_Type m \<in> {Int16, UInt16, Int32, UInt32, Float32} \<and>
     unat (ma_Register m) + unat (Words (ma_Type m)) \<le> 65536 \<and>
     ma_ByteOrder m \<in> {ABCD, DCBA, BADC, CDAB, OtherOrder []}"
  by (cases "ma_Type m"; cases "ma_ByteOrder m") (auto simp: validate_modbus_tag_def)

lemma validateTag_ok: "validateTag t (Some s) = [] \<longleftrightarrow> tag_ok s t"
  unfolding validateTag_def tag_ok_def append_is_Nil_conv uns_ParseDataType_ok
  by (cases "so_Type s") (auto simp: validate_modbus_tag_ok split: option.splits)

lemma validate_source_ok: "segment_ok (so_Name s) \<and> validate_source s = [] \<longleftrightarrow> source_ok s"
  by (cases "so_Type s") (auto simp: validate_source_def source_ok_def split: option.splits)

lemma segment_ok_ne: "segment_ok s \<Longrightarrow> s \<noteq> []"
  by (auto simp: ValidateSegment_def)

lemma validate_sources_ok:
  "fst (validate_sources i ss m) = [] \<longleftrightarrow>
     distinct (map so_Name ss) \<and> set (map so_Name ss) \<inter> dom m = {} \<and> (\<forall>s \<in> set ss. source_ok s)"
proof (induction ss arbitrary: i m)
  case (Cons s ss)
  show ?case
  proof (cases "so_Name s = []")
    case True
    then have "\<not> source_ok s" using segment_ok_ne unfolding source_ok_def by blast
    then show ?thesis using True by (simp split: prod.splits)
  next
    case False
    have "fst (validate_sources i (s # ss) m) = [] \<longleftrightarrow>
        source_ok s \<and> m (so_Name s) = None \<and> fst (validate_sources (i + 1) ss (m(so_Name s \<mapsto> s))) = []"
      using False validate_source_ok [of s] by (auto simp: Let_def split: prod.splits)
    then show ?thesis unfolding Cons.IH by auto
  qed
qed simp

lemma validate_sources_map:
  assumes "distinct (map so_Name ss)" "\<forall>s \<in> set ss. so_Name s \<noteq> []"
  shows "snd (validate_sources i ss m) = m ++ map_of (map (\<lambda>s. (so_Name s, s)) ss)"
  using assms
proof (induction ss arbitrary: i m)
  case (Cons s ss)
  have "snd (validate_sources i (s # ss) m) = m(so_Name s \<mapsto> s) ++ map_of (map (\<lambda>s. (so_Name s, s)) ss)"
    using Cons.IH [of "Suc i" "m(so_Name s \<mapsto> s)"] Cons.prems
    by (simp add: Let_def case_prod_beta del: fun_upd_apply)
  moreover have "so_Name s \<notin> dom (map_of (map (\<lambda>s. (so_Name s, s)) ss))"
    using Cons.prems by (simp add: dom_map_of_conv_image_fst image_image)
  ultimately show ?case by (simp add: map_add_upd_left del: validate_sources.simps fun_upd_apply)
qed simp

lemma validate_tags_ok:
  defines "keys mk ts \<equiv> map (\<lambda>t. topic_String (mk (tg_Name t))) ts"
  shows "fst (validate_tags mk aid (Some s) ts names w) = [] \<longleftrightarrow>
      distinct (map tg_Name ts) \<and> set (map tg_Name ts) \<inter> names = {} \<and>
      distinct (keys mk ts) \<and> set (keys mk ts) \<inter> dom (wk_topics w) = {} \<and>
      (\<forall>t \<in> set ts. topic_Validate (mk (tg_Name t)) = None \<and> tag_ok s t)" (is "?A ts names w \<longleftrightarrow> ?B ts names w")
    and "fst (validate_tags mk aid (Some s) ts names w) = [] \<Longrightarrow>
      dom (wk_topics (snd (validate_tags mk aid (Some s) ts names w))) = dom (wk_topics w) \<union> set (keys mk ts)"
proof (induction ts arbitrary: names w)
  case Nil
  { case 1 then show ?case by (simp add: keys_def) }
  { case 2 then show ?case by (simp add: keys_def) }
next
  case (Cons t ts)
  let ?k = "topic_String (mk (tg_Name t))"
  let ?w = "\<lambda>w :: walk. w\<lparr>wk_topics := (wk_topics w)(?k \<mapsto> aid)\<rparr>"
  have step: "?A (t # ts) names w \<longleftrightarrow> tg_Name t \<notin> names \<and> topic_Validate (mk (tg_Name t)) = None \<and>
      ?k \<notin> dom (wk_topics w) \<and> tag_ok s t \<and> ?A ts (insert (tg_Name t) names) (?w w)" for names w
    by (auto simp: Let_def validateTag_ok split: prod.splits option.splits)
  have IH: "?A ts (insert (tg_Name t) names) (?w w) \<longleftrightarrow>
      distinct (map tg_Name ts) \<and> set (map tg_Name ts) \<inter> insert (tg_Name t) names = {} \<and>
      distinct (keys mk ts) \<and> set (keys mk ts) \<inter> insert ?k (dom (wk_topics w)) = {} \<and>
      (\<forall>t \<in> set ts. topic_Validate (mk (tg_Name t)) = None \<and> tag_ok s t)" for names w
    using Cons.IH(1) [of "insert (tg_Name t) names" "?w w"] by (simp del: fun_upd_apply)
  { case 1 show ?case unfolding step IH by (auto simp: keys_def) }
  { case 2
    then have "?A ts (insert (tg_Name t) names) (?w w)" "topic_Validate (mk (tg_Name t)) = None" "wk_topics w ?k = None"
      using step by (auto simp del: validate_tags.simps)
    with Cons.IH(2) [of "insert (tg_Name t) names" "?w w"] show ?case
      by (simp add: Let_def keys_def case_prod_beta del: fun_upd_apply) }
qed

lemma validate_tags_keeps:
  "wk_assetIDs (snd (validate_tags mk aid src ts names w)) = wk_assetIDs w \<and>
   wk_anyAsset (snd (validate_tags mk aid src ts names w)) = wk_anyAsset w"
  by (induction ts arbitrary: names w) (simp_all add: Let_def case_prod_beta split: option.splits)

text \<open>
  What the walk remembers, what a list of entries adds to it, and when the entries do not
  clash with it or among themselves.
\<close>

definition view :: "walk \<Rightarrow> string set \<times> string set" where
  "view w = (wk_assetIDs w, dom (wk_topics w))"

definition ids_of :: "entry list \<Rightarrow> string list" where
  "ids_of es = map entry_id es"

definition keys_of :: "plant \<Rightarrow> entry list \<Rightarrow> string list" where
  "keys_of p es = concat (map (entry_keys p) es)"

definition extend :: "plant \<Rightarrow> string set \<times> string set \<Rightarrow> entry list \<Rightarrow> string set \<times> string set" where
  "extend p v es = (fst v \<union> set (ids_of es), snd v \<union> set (keys_of p es))"

definition fresh :: "plant \<Rightarrow> string set \<times> string set \<Rightarrow> entry list \<Rightarrow> bool" where
  "fresh p v es \<longleftrightarrow> distinct (ids_of es) \<and> set (ids_of es) \<inter> fst v = {} \<and>
     distinct (keys_of p es) \<and> set (keys_of p es) \<inter> snd v = {}"

lemma ids_of_append [simp]: "ids_of (xs @ ys) = ids_of xs @ ids_of ys" "ids_of [] = []"
  and keys_of_append [simp]: "keys_of p (xs @ ys) = keys_of p xs @ keys_of p ys" "keys_of p [] = []"
  by (simp_all add: ids_of_def keys_of_def)

lemma extend_append: "extend p v (xs @ ys) = extend p (extend p v xs) ys"
  by (simp add: extend_def Un_assoc)

lemma fresh_append: "fresh p v (xs @ ys) \<longleftrightarrow> fresh p v xs \<and> fresh p (extend p v xs) ys"
  unfolding fresh_def extend_def by auto

text \<open>
  A part of the walk that reports no problem exactly when the names in \<open>x\<close> are good and its
  entries are fresh and good, and that then remembers them.
\<close>

definition checks ::
  "plant \<Rightarrow> (string \<rightharpoonup> source_def) \<Rightarrow> ('x \<Rightarrow> walk \<Rightarrow> plant_problem list \<times> walk) \<Rightarrow> ('x \<Rightarrow> bool) \<Rightarrow> ('x \<Rightarrow> entry list) \<Rightarrow> bool" where
  "checks p sources f good entries \<longleftrightarrow> (\<forall>x w.
     (fst (f x w) = [] \<longleftrightarrow> good x \<and> fresh p (view w) (entries x) \<and> (\<forall>e \<in> set (entries x). entry_ok p sources e)) \<and>
     (fst (f x w) = [] \<longrightarrow> view (snd (f x w)) = extend p (view w) (entries x)) \<and>
     (wk_anyAsset (snd (f x w)) \<longleftrightarrow> wk_anyAsset w \<or> entries x \<noteq> []))"

lemma each_checks:
  assumes "checks p sources f good entries"
  shows "checks p sources (each f) (\<lambda>xs. \<forall>x \<in> set xs. good x) (\<lambda>xs. concat (map entries xs))"
  unfolding checks_def
proof (intro allI)
  fix xs w
  let ?P = "\<lambda>xs w. (fst (each f xs w) = [] \<longleftrightarrow> (\<forall>x \<in> set xs. good x) \<and> fresh p (view w) (concat (map entries xs)) \<and>
       (\<forall>e \<in> set (concat (map entries xs)). entry_ok p sources e)) \<and>
     (fst (each f xs w) = [] \<longrightarrow> view (snd (each f xs w)) = extend p (view w) (concat (map entries xs))) \<and>
     (wk_anyAsset (snd (each f xs w)) \<longleftrightarrow> wk_anyAsset w \<or> concat (map entries xs) \<noteq> [])"
  show "?P xs w"
  proof (induction xs arbitrary: w)
    case Nil
    show ?case by (simp add: fresh_def extend_def view_def)
  next
    case (Cons x xs)
    obtain e w1 where f: "f x w = (e, w1)" by fastforce
    obtain es w2 where g: "each f xs w1 = (es, w2)" by fastforce
    have F: "e = [] \<longleftrightarrow> good x \<and> fresh p (view w) (entries x) \<and> (\<forall>e \<in> set (entries x). entry_ok p sources e)"
      "e = [] \<Longrightarrow> view w1 = extend p (view w) (entries x)"
      "wk_anyAsset w1 \<longleftrightarrow> wk_anyAsset w \<or> entries x \<noteq> []"
      using assms f unfolding checks_def by (metis fst_conv, metis fst_conv snd_conv, metis snd_conv)
    have G: "each f (x # xs) w = (e @ es, w2)" by (simp add: f g)
    show ?case
    proof (cases "e = []")
      case True
      with F(1) have ok: "good x" "fresh p (view w) (entries x)" "\<forall>e \<in> set (entries x). entry_ok p sources e" by auto
      show ?thesis
        using Cons.IH [of w1] True ok F(3) unfolding G g F(2) [OF True]
        by (simp only: fst_conv snd_conv append_Nil list.map concat.simps fresh_append extend_append) auto
    next
      case False
      with F(1) have "\<not> (good x \<and> fresh p (view w) (entries x) \<and> (\<forall>e \<in> set (entries x). entry_ok p sources e))"
        by blast
      then show ?thesis
        using Cons.IH [of w1] False F(3) unfolding G g
        by (simp only: fst_conv snd_conv append_is_Nil_conv list.map concat.simps fresh_append) auto
    qed
  qed
qed

lemma validate_asset_checks:
  "checks p sources (validate_asset sources (plant_topic p ar li ce) cn) (\<lambda>_. True) (\<lambda>a. [((ar, li, ce), a)])"
  unfolding checks_def
proof (intro allI)
  fix a :: asset and w
  let ?mk = "plant_topic p ar li ce" and ?e = "((ar, li, ce), a)"
  let ?r = "validate_asset sources ?mk cn a w"
  show "(fst ?r = [] \<longleftrightarrow> True \<and> fresh p (view w) [?e] \<and> (\<forall>e \<in> set [?e]. entry_ok p sources e)) \<and>
     (fst ?r = [] \<longrightarrow> view (snd ?r) = extend p (view w) [?e]) \<and>
     (wk_anyAsset (snd ?r) \<longleftrightarrow> wk_anyAsset w \<or> [?e] \<noteq> [])"
  proof (cases "as_ID a = [] \<or> sources (as_Source a) = None")
    case True
    then have "fst ?r \<noteq> []" "wk_anyAsset (snd ?r)"
      using validate_tags_keeps by (auto simp: validate_asset_def Let_def case_prod_beta)
    moreover have "\<not> entry_ok p sources ?e" using True by (auto simp: entry_ok_def)
    ultimately show ?thesis by simp
  next
    case False
    then obtain s where s: "sources (as_Source a) = Some s" and i: "as_ID a \<noteq> []" by auto
    define w1 where "w1 = w\<lparr>wk_anyAsset := True, wk_assetIDs := insert (as_ID a) (wk_assetIDs w)\<rparr>"
    define r where "r = validate_tags ?mk (as_ID a) (Some s) (as_Tags a) {} w1"
    have R: "?r = (fail_if (as_ID a \<in> wk_assetIDs w) (DuplicateAsset (as_ID a)) @
        fail_if (as_Class a = []) (ClassMissing (as_ID a)) @ fail_if (as_Tags a = []) (NoTags (as_ID a)) @ fst r, snd r)"
      using s i by (simp add: validate_asset_def Let_def r_def w1_def case_prod_beta)
    have keys: "keys_of p [?e] = map (\<lambda>t. topic_String (?mk (tg_Name t))) (as_Tags a)" "ids_of [?e] = [as_ID a]"
      by (simp_all add: keys_of_def entry_keys_def entry_topic_def ids_of_def)
    have w1: "wk_topics w1 = wk_topics w" "wk_assetIDs w1 = insert (as_ID a) (wk_assetIDs w)" "wk_anyAsset w1"
      by (simp_all add: w1_def)
    note T = validate_tags_ok [of ?mk "as_ID a" s "as_Tags a" "{}" w1, folded r_def, unfolded w1]
    have K: "wk_assetIDs (snd r) = insert (as_ID a) (wk_assetIDs w)" "wk_anyAsset (snd r)"
      using validate_tags_keeps [of ?mk "as_ID a" "Some s" "as_Tags a" "{}" w1] w1 by (simp_all add: r_def)
    have "entry_ok p sources ?e \<longleftrightarrow> as_Class a \<noteq> [] \<and> as_Tags a \<noteq> [] \<and> distinct (map tg_Name (as_Tags a)) \<and>
        (\<forall>t \<in> set (as_Tags a). topic_Validate (?mk (tg_Name t)) = None \<and> tag_ok s t)"
      using s i by (simp add: entry_ok_def entry_topic_def)
    then have "fst ?r = [] \<longleftrightarrow> fresh p (view w) [?e] \<and> entry_ok p sources ?e"
      unfolding R fresh_def keys view_def by (auto simp: T(1))
    moreover have "view (snd ?r) = extend p (view w) [?e]" if "fst ?r = []"
      using that T(2) unfolding R extend_def keys view_def by (auto simp: K)
    ultimately show ?thesis using K by (simp add: R)
  qed
qed

lemma validate_cell_checks:
  "checks p sources (validate_cell sources (plant_topic p ar li) li) (\<lambda>c. segment_ok (ce_Name c)) (cell_entries ar li)"
  unfolding checks_def
proof (intro allI, goal_cases)
  case (1 c w)
  from each_checks [OF validate_asset_checks [of p sources ar li "ce_Name c" "ce_Name c"], unfolded checks_def, rule_format, of "ce_Assets c" w]
  show ?case by (simp add: validate_cell_def cell_entries_def case_prod_beta concat_map_singleton)
qed

lemma validate_line_checks:
  "checks p sources (validate_line sources (plant_topic p ar) ar)
     (\<lambda>l. segment_ok (li_Name l) \<and> (\<forall>c \<in> set (li_Cells l). segment_ok (ce_Name c))) (line_entries ar)"
  unfolding checks_def
proof (intro allI, goal_cases)
  case (1 l w)
  from each_checks [OF validate_cell_checks [of p sources ar "li_Name l"], unfolded checks_def, rule_format, of "li_Cells l" w]
  show ?case by (simp add: validate_line_def line_entries_def case_prod_beta)
qed

lemma validate_area_checks:
  "checks p sources (validate_area sources (plant_topic p))
     (\<lambda>a. segment_ok (ae_Name a) \<and> (\<forall>l \<in> set (ae_Lines a). segment_ok (li_Name l) \<and>
        (\<forall>c \<in> set (li_Cells l). segment_ok (ce_Name c)))) area_entries"
  unfolding checks_def
proof (intro allI, goal_cases)
  case (1 a w)
  from each_checks [OF validate_line_checks [of p sources "ae_Name a"], unfolded checks_def, rule_format, of "ae_Lines a" w]
  show ?case by (simp add: validate_area_def area_entries_def case_prod_beta)
qed

lemma plant_Validate_ok: "plant_Validate p = [] \<longleftrightarrow> plant_ok p"
proof -
  let ?w0 = "\<lparr>wk_assetIDs = {}, wk_topics = Map.empty, wk_anyAsset = False\<rparr>"
  define es sources where "es = fst (validate_sources 0 (pt_Sources p) Map.empty)"
    and "sources = snd (validate_sources 0 (pt_Sources p) Map.empty)"
  define r where "r = each (validate_area sources (plant_topic p)) (pt_Areas p) ?w0"
  have V: "plant_Validate p = [] \<longleftrightarrow> segment_ok (pt_Enterprise p) \<and> segment_ok (pt_Site p) \<and>
      0 \<le> qd_StaleAfter (pt_Quality p) \<and> 0 \<le> qd_FlatlineAfter (pt_Quality p) \<and> pt_Sources p \<noteq> [] \<and> es = [] \<and>
      pt_Areas p \<noteq> [] \<and> fst r = [] \<and> wk_anyAsset (snd r)"
    unfolding plant_Validate_def es_def sources_def r_def by (auto simp: Let_def case_prod_beta)
  have E: "es = [] \<longleftrightarrow> distinct (map so_Name (pt_Sources p)) \<and> (\<forall>s \<in> set (pt_Sources p). source_ok s)"
    unfolding es_def validate_sources_ok by simp
  have S: "sources = named_source p" if "es = []"
  proof -
    have "\<forall>s \<in> set (pt_Sources p). so_Name s \<noteq> []"
      using that E segment_ok_ne unfolding source_ok_def by blast
    with that E validate_sources_map [of "pt_Sources p" 0 Map.empty] show ?thesis
      by (simp add: sources_def named_source_def)
  qed
  note C = each_checks [OF validate_area_checks [of p sources], unfolded checks_def, rule_format, of "pt_Areas p" ?w0,
      folded r_def plant_entries_def]
  have any: "wk_anyAsset (snd r) \<longleftrightarrow> plant_entries p \<noteq> []" using C by simp
  have F: "fst r = [] \<longleftrightarrow> (\<forall>a \<in> set (pt_Areas p). segment_ok (ae_Name a) \<and> (\<forall>l \<in> set (ae_Lines a). segment_ok (li_Name l) \<and>
        (\<forall>c \<in> set (li_Cells l). segment_ok (ce_Name c)))) \<and>
      distinct (map entry_id (plant_entries p)) \<and> distinct (concat (map (entry_keys p) (plant_entries p))) \<and>
      (\<forall>e \<in> set (plant_entries p). entry_ok p sources e)"
    using C by (simp add: fresh_def view_def ids_of_def keys_of_def)
  have "plant_entries p \<noteq> [] \<Longrightarrow> pt_Areas p \<noteq> []" by (auto simp: plant_entries_def)
  then show ?thesis
    unfolding V any E F plant_ok_def hierarchy_ok_def using S E by (auto simp only: simp_thms)
qed

section \<open>The lookup tables of a validated plant\<close>

definition entry_ref :: "plant \<Rightarrow> entry \<Rightarrow> asset_ref" where
  "entry_ref p e = (case e of ((ar, li, ce), a) \<Rightarrow>
     \<lparr>ar_Asset = a, ar_Area = ar, ar_Line = li, ar_Cell = ce, ar_Source = named_source p (as_Source a)\<rparr>)"

definition entry_tag_refs :: "plant \<Rightarrow> entry \<Rightarrow> tag_ref list" where
  "entry_tag_refs p e =
     map (\<lambda>t. \<lparr>tr_Ref = entry_ref p e, tr_Tag = t, tr_Topic = entry_topic p e t\<rparr>) (as_Tags (snd e))"

definition plant_tag_refs :: "plant \<Rightarrow> tag_ref list" where
  "plant_tag_refs p = concat (map (entry_tag_refs p) (plant_entries p))"

abbreviation tr_key :: "tag_ref \<Rightarrow> string" where
  "tr_key tr \<equiv> topic_String (tr_Topic tr)"

abbreviation tr_source :: "tag_ref \<Rightarrow> string" where
  "tr_source tr \<equiv> as_Source (ar_Asset (tr_Ref tr))"

lemma plant_tag_refs_keys: "map tr_key (plant_tag_refs p) = concat (map (entry_keys p) (plant_entries p))"
  by (simp add: plant_tag_refs_def map_concat comp_def entry_tag_refs_def [abs_def] entry_keys_def [abs_def])

lemma fold_concat_map: "fold f (concat (map g xs)) = fold (\<lambda>x. fold f (g x)) xs"
  by (induction xs) simp_all

lemma index_walk_entries:
  "index_walk p ix = fold (\<lambda>((ar, li, ce), a). index_asset p ar li ce a) (plant_entries p) ix"
  by (simp add: index_walk_def plant_entries_def area_entries_def [abs_def] line_entries_def [abs_def]
      cell_entries_def [abs_def]      fold_concat_map fold_map comp_def)

text \<open>One tag, one asset and the whole walk, as updates of the tables.\<close>

definition add_tags :: "tag_ref list \<Rightarrow> plant_index \<Rightarrow> plant_index" where
  "add_tags trs = fold (\<lambda>tr ix.
     ix\<lparr>ix_bySource := (ix_bySource ix)(tr_source tr \<mapsto> TagsForSource ix (tr_source tr) @ [tr]),
        ix_byTopic := (ix_byTopic ix)(tr_key tr \<mapsto> tr),
        ix_topics := ix_topics ix @ [tr_key tr]\<rparr>) trs"

lemma index_asset_adds:
  assumes "ix_sources ix = named_source p"
  shows "index_asset p ar li ce a ix =
    add_tags (entry_tag_refs p ((ar, li, ce), a))
      (ix\<lparr>ix_assets := (ix_assets ix)(as_ID a \<mapsto> entry_ref p ((ar, li, ce), a)),
         ix_ordered := ix_ordered ix @ [entry_ref p ((ar, li, ce), a)]\<rparr>)"
  using assms
  by (simp add: index_asset_def add_tags_def entry_tag_refs_def fold_map comp_def index_tag_def [abs_def] Let_def
      entry_ref_def entry_topic_def TagsForSource_def)

lemma add_tags_keeps [simp]:
  "ix_sources (add_tags trs ix) = ix_sources ix" "ix_assets (add_tags trs ix) = ix_assets ix"
  "ix_ordered (add_tags trs ix) = ix_ordered ix" "ix_plant (add_tags trs ix) = ix_plant ix"
  by (induction trs arbitrary: ix) (simp_all add: add_tags_def)

lemma add_tags_effect:
  "ix_byTopic (add_tags trs ix) = ix_byTopic ix ++ map_of (rev (map (\<lambda>tr. (tr_key tr, tr)) trs))"
  "ix_topics (add_tags trs ix) = ix_topics ix @ map tr_key trs"
  "TagsForSource (add_tags trs ix) src = TagsForSource ix src @ filter (\<lambda>tr. tr_source tr = src) trs"
  by (induction trs arbitrary: ix) (simp_all add: add_tags_def TagsForSource_def)

lemma index_walk_effect:
  assumes "ix_sources ix = named_source p"
    and "ix' = fold (\<lambda>((ar, li, ce), a). index_asset p ar li ce a) es ix"
    and "trs = concat (map (entry_tag_refs p) es)"
  shows "ix_sources ix' = named_source p \<and> ix_plant ix' = ix_plant ix \<and>
    ix_byTopic ix' = ix_byTopic ix ++ map_of (rev (map (\<lambda>tr. (tr_key tr, tr)) trs)) \<and>
    ix_topics ix' = ix_topics ix @ map tr_key trs \<and>
    TagsForSource ix' src = TagsForSource ix src @ filter (\<lambda>tr. tr_source tr = src) trs \<and>
    ix_assets ix' = ix_assets ix ++ map_of (rev (map (\<lambda>e. (entry_id e, entry_ref p e)) es)) \<and>
    ix_ordered ix' = ix_ordered ix @ map (entry_ref p) es"
  using assms
proof (induction es arbitrary: ix trs)
  case (Cons e es)
  obtain ar li ce a where e: "e = ((ar, li, ce), a)" by (metis prod.collapse)
  let ?ix = "index_asset p ar li ce a ix"
  note S = index_asset_adds [OF Cons.prems(1)]
  have T: "TagsForSource (ix\<lparr>ix_assets := x, ix_ordered := y\<rparr>) src = TagsForSource ix src" for x y
    by (simp add: TagsForSource_def)
  have "ix_sources ?ix = named_source p" using Cons.prems(1) by (simp add: S)
  from Cons.IH [OF this _ refl] show ?case
    using Cons.prems(2,3) by (simp add: e S add_tags_effect T del: fun_upd_apply)
qed simp

lemma fold_sources:
  assumes "distinct (map so_Name ss)"
  shows "fold (\<lambda>s m. m(so_Name s \<mapsto> s)) ss m = m ++ map_of (map (\<lambda>s. (so_Name s, s)) ss)"
  using assms
proof (induction ss arbitrary: m)
  case (Cons s ss)
  moreover have "so_Name s \<notin> dom (map_of (map (\<lambda>s. (so_Name s, s)) ss))"
    using Cons.prems by (simp add: dom_map_of_conv_image_fst image_image)
  ultimately show ?case by (simp add: map_add_upd_left del: fun_upd_apply)
qed simp

lemma plant_Index_effect:
  assumes "plant_ok p"
  defines "ix \<equiv> plant_Index p"
  shows "ix_sources ix = named_source p" "ix_plant ix = p"
    "ix_byTopic ix = map_of (rev (map (\<lambda>tr. (tr_key tr, tr)) (plant_tag_refs p)))"
    "ix_topics ix = sort (map tr_key (plant_tag_refs p))"
    "TagsForSource ix src = filter (\<lambda>tr. tr_source tr = src) (plant_tag_refs p)"
    "ix_assets ix = map_of (rev (map (\<lambda>e. (entry_id e, entry_ref p e)) (plant_entries p)))"
    "ix_ordered ix = sort_key (\<lambda>r. as_ID (ar_Asset r)) (map (entry_ref p) (plant_entries p))"
proof -
  define sources where "sources = fold (\<lambda>s m. m(so_Name s \<mapsto> s)) (pt_Sources p) Map.empty"
  define ix0 where "ix0 = \<lparr>ix_plant = p, ix_assets = Map.empty, ix_sources = sources, ix_bySource = Map.empty,
                 ix_byTopic = Map.empty, ix_ordered = [], ix_topics = []\<rparr>"
  have "sources = named_source p"
    using assms(1) fold_sources [of "pt_Sources p" Map.empty] by (simp add: plant_ok_def sources_def named_source_def)
  then have s: "ix_sources ix0 = named_source p" by (simp add: ix0_def)
  define ix1 where "ix1 = index_walk p ix0"
  have ix: "ix = ix1\<lparr>ix_ordered := sort_key (\<lambda>r. as_ID (ar_Asset r)) (ix_ordered ix1), ix_topics := sort (ix_topics ix1)\<rparr>"
    by (simp add: ix_def plant_Index_def Let_def ix1_def ix0_def sources_def)
  have W0: "ix1 = fold (\<lambda>((ar, li, ce), a). index_asset p ar li ce a) (plant_entries p) ix0"
    unfolding ix1_def by (rule index_walk_entries)
  note W = index_walk_effect [OF s W0 plant_tag_refs_def, of src]
  have T: "TagsForSource ix0 src = []" "TagsForSource ix src = TagsForSource ix1 src"
    by (simp_all add: TagsForSource_def ix ix0_def)
  show "ix_sources ix = named_source p" using W by (simp add: ix)
  show "ix_plant ix = p" using W by (simp add: ix ix0_def)
  show "ix_byTopic ix = map_of (rev (map (\<lambda>tr. (tr_key tr, tr)) (plant_tag_refs p)))" using W by (simp add: ix ix0_def)
  show "ix_topics ix = sort (map tr_key (plant_tag_refs p))" using W by (simp add: ix ix0_def)
  show "TagsForSource ix src = filter (\<lambda>tr. tr_source tr = src) (plant_tag_refs p)" using W T by simp
  show "ix_assets ix = map_of (rev (map (\<lambda>e. (entry_id e, entry_ref p e)) (plant_entries p)))" using W by (simp add: ix ix0_def)
  show "ix_ordered ix = sort_key (\<lambda>r. as_ID (ar_Asset r)) (map (entry_ref p) (plant_entries p))" using W by (simp add: ix ix0_def)
qed

lemma map_of_rev_distinct:
  assumes "distinct (map f xs)" "x \<in> set xs"
  shows "map_of (rev (map (\<lambda>x. (f x, g x)) xs)) (f x) = Some (g x)"
proof (rule map_of_is_SomeI)
  show "distinct (map fst (rev (map (\<lambda>x. (f x, g x)) xs)))"
    using assms(1) by (simp add: rev_map comp_def distinct_map)
qed (use assms(2) in auto)

lemma map_of_rev_iff:
  assumes "distinct (map f xs)"
  shows "map_of (rev (map (\<lambda>x. (f x, g x)) xs)) k = Some y \<longleftrightarrow> (\<exists>x \<in> set xs. f x = k \<and> g x = y)"
proof
  assume "map_of (rev (map (\<lambda>x. (f x, g x)) xs)) k = Some y"
  then have "(k, y) \<in> set (rev (map (\<lambda>x. (f x, g x)) xs))" by (rule map_of_SomeD)
  then show "\<exists>x \<in> set xs. f x = k \<and> g x = y" by auto
qed (use map_of_rev_distinct [OF assms] in auto)

lemma asset_Parse_ok: "asset_Parse yaml b = Inr p \<Longrightarrow> plant_ok p \<and> (\<exists>p0. p = applyDefaults p0)"
  by (auto simp: asset_Parse_def Let_def plant_Validate_ok split: sum.splits if_splits)

lemma named_source_iff:
  "distinct (map so_Name (pt_Sources p)) \<Longrightarrow> named_source p n = Some s \<longleftrightarrow> s \<in> set (pt_Sources p) \<and> so_Name s = n"
  by (auto simp: named_source_def comp_def dest: map_of_SomeD intro!: map_of_is_SomeI)

lemma plant_tag_refs_sourced:
  assumes "plant_ok p" "tr \<in> set (plant_tag_refs p)"
  shows "\<exists>s \<in> set (pt_Sources p). ar_Source (tr_Ref tr) = Some s \<and> so_Name s = tr_source tr \<and>
    tag_ok s (tr_Tag tr) \<and> source_ok s \<and> topic_Validate (tr_Topic tr) = None"
proof -
  obtain e t where e: "e \<in> set (plant_entries p)" "t \<in> set (as_Tags (snd e))"
    and tr: "tr = \<lparr>tr_Ref = entry_ref p e, tr_Tag = t, tr_Topic = entry_topic p e t\<rparr>"
    using assms(2) by (auto simp: plant_tag_refs_def entry_tag_refs_def)
  obtain s where s: "named_source p (as_Source (snd e)) = Some s" "tag_ok s t" "topic_Validate (entry_topic p e t) = None"
    using assms(1) e unfolding plant_ok_def entry_ok_def by blast
  with assms(1) have "s \<in> set (pt_Sources p)" "so_Name s = as_Source (snd e)" "source_ok s"
    using named_source_iff unfolding plant_ok_def by blast+
  with s show ?thesis by (intro bexI [of _ s]) (auto simp: tr entry_ref_def split: prod.splits)
qed

section \<open>Properties\<close>

text \<open>
  C19: the validation is sound and complete. \<^verbatim>\<open>Validate\<close> reports no problem exactly for the plants
  in which: all names are usable as topic segments, durations are not negative, there is a
  source, source names are distinct and each source has what its type needs; there is an
  asset, asset ids are distinct, each asset has a class, a known source and tags with
  distinct names; every tag has a known data type, a proper range, a scale factor that is not
  zero and an address that fits its source (for Modbus one inside the 65536 registers); and no
  two tags of the plant share a topic.
\<close>

theorem Validate_iff: "plant_Validate p = [] \<longleftrightarrow> plant_ok p"
  by (rule plant_Validate_ok)

text \<open>
  C20: the tables of a parsed plant. Looking up a topic finds a tag exactly when the tag has that
  topic, looking up an id finds the asset with that id; the tags of a source are those of its
  assets in the order of the file; the topics are listed sorted without duplicates, and so
  many as there are tags; every tag refers to the source its asset names, which has what the
  collector of that source needs.
\<close>

theorem index_complete:
  assumes "asset_Parse yaml b = Inr p"
  shows "(TagByTopic (plant_Index p) k = Some tr \<longleftrightarrow> tr \<in> set (plant_tag_refs p) \<and> tr_key tr = k) \<and>
    (index_Asset (plant_Index p) i = Some r \<longleftrightarrow> r \<in> entry_ref p ` set (plant_entries p) \<and> as_ID (ar_Asset r) = i) \<and>
    TagsForSource (plant_Index p) src = filter (\<lambda>tr. tr_source tr = src) (plant_tag_refs p) \<and>
    sorted_wrt (<) (index_Topics (plant_Index p)) \<and>
    set (index_Topics (plant_Index p)) = tr_key ` set (plant_tag_refs p) \<and>
    TagCount (plant_Index p) = int (length (plant_tag_refs p)) \<and>
    (tr \<in> set (plant_tag_refs p) \<longrightarrow>
       (\<exists>s. ar_Source (tr_Ref tr) = Some s \<and> index_Source (plant_Index p) (tr_source tr) = Some s \<and> tag_ok s (tr_Tag tr)))"
proof -
  have ok: "plant_ok p" using asset_Parse_ok [OF assms] by blast
  note E = plant_Index_effect [OF ok]
  have dk: "distinct (map tr_key (plant_tag_refs p))"
    using ok unfolding plant_tag_refs_keys plant_ok_def by blast
  have di: "distinct (map entry_id (plant_entries p))" and ds: "distinct (map so_Name (pt_Sources p))"
    using ok unfolding plant_ok_def by blast+
  have "as_ID (ar_Asset (entry_ref p e)) = entry_id e" for e
    by (simp add: entry_ref_def split: prod.splits)
  then have a: "index_Asset (plant_Index p) i = Some r \<longleftrightarrow> r \<in> entry_ref p ` set (plant_entries p) \<and> as_ID (ar_Asset r) = i"
    unfolding index_Asset_def E map_of_rev_iff [OF di] by (metis (no_types, lifting) image_iff)
  have "TagByTopic (plant_Index p) k = Some tr \<longleftrightarrow> tr \<in> set (plant_tag_refs p) \<and> tr_key tr = k"
    unfolding TagByTopic_def E map_of_rev_iff [OF dk] by auto
  moreover have "sorted_wrt (<) (index_Topics (plant_Index p))"
    unfolding index_Topics_def E strict_sorted_iff using dk by simp
  moreover have "set (index_Topics (plant_Index p)) = tr_key ` set (plant_tag_refs p)"
    "TagCount (plant_Index p) = int (length (plant_tag_refs p))"
    unfolding index_Topics_def TagCount_def E by simp_all
  moreover have "\<exists>s. ar_Source (tr_Ref tr) = Some s \<and> index_Source (plant_Index p) (tr_source tr) = Some s \<and> tag_ok s (tr_Tag tr)"
    if "tr \<in> set (plant_tag_refs p)"
    using plant_tag_refs_sourced [OF ok that] named_source_iff [OF ds] unfolding index_Source_def E by blast
  ultimately show ?thesis using a E(5) by blast
qed

definition sample_tag :: tag where
  "sample_tag = \<lparr>tg_Name = ''speed'', tg_Description = [], tg_Unit = ''bpm'', tg_DataType = ''Float'', tg_Range = None,
     tg_Scale = None, tg_Quality = None, tg_Modbus = None, tg_Sim = Some \<lparr>sa_Signal = ''speed''\<rparr>, tg_CSV = None\<rparr>"

definition sample_asset :: asset where
  "sample_asset = \<lparr>as_ID = ''F1'', as_Class = ''filler'', as_Description = [], as_Source = ''line1'', as_Tags = [sample_tag]\<rparr>"

definition sample_plant :: plant where
  "sample_plant = \<lparr>pt_Enterprise = ''acme'', pt_Site = ''pune'',
     pt_Quality = \<lparr>qd_StaleAfter = 0, qd_FlatlineAfter = 0, qd_FlatlineMinSamples = 5\<rparr>,
     pt_Sources = [\<lparr>so_Name = ''line1'', so_Type = SourceSim, so_PollInterval = seconds 1, so_Modbus = None,
       so_Sim = None, so_CSV = None\<rparr>],
     pt_Areas = [\<lparr>ae_Name = ''pack'', ae_Lines = [\<lparr>li_Name = ''l1'', li_Cells = [\<lparr>ce_Name = ''c1'',
       ce_Assets = [sample_asset]\<rparr>]\<rparr>]\<rparr>]\<rparr>"

lemma sample_plant_parses: "asset_Parse (\<lambda>_. Inr sample_plant) [] = Inr sample_plant"
proof -
  have "applyDefaults sample_plant = sample_plant"
    by (simp add: applyDefaults_def sample_plant_def sample_asset_def sample_tag_def map_assets_def default_source_def
        default_tag_def Let_def)
  moreover have "plant_Validate sample_plant = []"
    by (simp add: plant_Validate_def sample_plant_def sample_asset_def sample_tag_def validate_area_def validate_line_def
        validate_cell_def validate_asset_def validateTag_def validate_source_def ValidateSegment_def contains_any_def
        reserved_chars_def has_prefix_def fail_some_def plant_topic_def topic_Validate_def topic_segments_def
        uns_ParseDataType_def IsSignal_def Signals_def is_signal_in_iff)
  ultimately show ?thesis by (simp add: asset_Parse_def Let_def)
qed

theorem index_complete_witness:
  "sorted_wrt (<) (index_Topics (plant_Index sample_plant)) \<and>
   TagCount (plant_Index sample_plant) = int (length (plant_tag_refs sample_plant))"
  using index_complete [OF sample_plant_parses] by blast

text \<open>
  The effective settings of a tag of a parsed plant are usable by the quality rules: staleness
  detection is on, as long as three poll intervals fit a duration, the flatline limit is not
  negative and the minimal number of samples is positive; and a positive setting of the tag
  wins over the plant's.
\<close>

theorem effective_quality_usable:
  assumes "asset_Parse yaml b = Inr p" "s \<in> set (pt_Sources p)" "3 * so_PollInterval s < 2 ^ 63"
  shows "let q = EffectiveQuality p t (so_PollInterval s)
    in 0 < qd_StaleAfter q \<and> 0 \<le> qd_FlatlineAfter q \<and> 0 < qd_FlatlineMinSamples q \<and>
       (\<forall>c. tg_Quality t = Some c \<longrightarrow>
          (0 < qd_StaleAfter c \<longrightarrow> qd_StaleAfter q = qd_StaleAfter c) \<and>
          (0 < qd_FlatlineAfter c \<longrightarrow> qd_FlatlineAfter q = qd_FlatlineAfter c) \<and>
          (0 < qd_FlatlineMinSamples c \<longrightarrow> qd_FlatlineMinSamples q = qd_FlatlineMinSamples c))"
proof -
  obtain p0 where p0: "p = applyDefaults p0" and ok: "plant_ok p" using asset_Parse_ok [OF assms(1)] by blast
  then obtain s0 where "s = default_source s0"
    using assms(2) by (auto simp: applyDefaults_def map_assets_def Let_def split: if_splits)
  then have poll: "0 < so_PollInterval s"
    by (simp add: default_source_def Let_def DefaultPollInterval_def split: option.splits)
  then have w: "wrap64 (staleMultiplier * so_PollInterval s) = 3 * so_PollInterval s"
    using assms(3) by (simp add: staleMultiplier_def wrap64_id)
  have "0 \<le> qd_FlatlineAfter (pt_Quality p)" using ok by (simp add: plant_ok_def)
  then show ?thesis using poll
    by (cases "tg_Quality t") (auto simp: EffectiveQuality_def Let_def w DefaultFlatlineMinSamples_def)
qed

theorem effective_quality_usable_witness:
  "0 < qd_StaleAfter (EffectiveQuality sample_plant sample_tag (seconds 1))"
  using effective_quality_usable [OF sample_plant_parses, of "hd (pt_Sources sample_plant)" sample_tag]
  by (simp add: sample_plant_def Let_def)

end
