(* ===== verification/Modbus_Source.thy ===== *)
theory Modbus_Source
  imports Asset_Model Modbus_Link "HOL-Library.Multiset"
begin

text \<open>
  The Modbus collector, \<^verbatim>\<open>internal/collectors/modbus.go\<close>: the read planner that groups tags
  into requests, the construction of a source and its poll cycle. The connection is an
  interface (a record of operations with a contract as a locale), interpreted on the client
  and server of the Modbus theories. \<^verbatim>\<open>sort.Slice\<close> leaves the order of equal elements open and
  is a parameter \<open>sorter\<close>; all that is used of it is that it returns a sorted permutation.
\<close>

record modbus_tag =
  mt_name :: string
  mt_fn :: byte
  mt_start :: uint16
  mt_words :: uint16
  mt_typ :: mb_type
  mt_order :: byte_order

record block =
  bl_Function :: byte
  bl_Start :: uint16
  bl_Count :: uint16
  bl_tags :: "modbus_tag list"

definition tag_less :: "modbus_tag \<Rightarrow> modbus_tag \<Rightarrow> bool" where
  "tag_less a b = (if mt_fn a \<noteq> mt_fn b then mt_fn a < mt_fn b else mt_start a < mt_start b)"

definition new_block :: "modbus_tag \<Rightarrow> block" where
  "new_block t = \<lparr>bl_Function = mt_fn t, bl_Start = mt_start t, bl_Count = mt_words t, bl_tags = [t]\<rparr>"

fun plan_loop :: "int \<Rightarrow> block \<Rightarrow> modbus_tag list \<Rightarrow> block list" where
  "plan_loop maxGap cur [] = [cur]"
| "plan_loop maxGap cur (t # ts) =
     (let endd = uint (bl_Start cur) + uint (bl_Count cur);
          tEnd = uint (mt_start t) + uint (mt_words t);
          gap = uint (mt_start t) - endd;
          newCount = max tEnd endd - uint (bl_Start cur)
      in if mt_fn t = bl_Function cur \<and> gap \<le> maxGap \<and> newCount \<le> uint MaxRegistersPerRead
         then plan_loop maxGap (cur\<lparr>bl_Count := word_of_int newCount, bl_tags := bl_tags cur @ [t]\<rparr>) ts
         else cur # plan_loop maxGap (new_block t) ts)"

definition Plan :: "(modbus_tag list \<Rightarrow> modbus_tag list) \<Rightarrow> modbus_tag list \<Rightarrow> int \<Rightarrow> block list" where
  "Plan sorter tags maxGap =
     (if tags = [] then []
      else case sorter tags of [] \<Rightarrow> [] | t # ts \<Rightarrow> plan_loop maxGap (new_block t) ts)"

definition block_Tags :: "block \<Rightarrow> string list" where
  "block_Tags b = map mt_name (bl_tags b)"

section \<open>The source\<close>

text \<open>The interface \<^verbatim>\<open>modbusConn\<close>; \<^verbatim>\<open>Close\<close> returns the error text, if any.\<close>

record 'c conn_ops =
  co_ReadRegisters :: "'c \<Rightarrow> byte \<Rightarrow> byte \<Rightarrow> uint16 \<Rightarrow> uint16 \<Rightarrow> (mb_error + uint16 list) \<times> 'c"
  co_Close :: "'c \<Rightarrow> string option"

record 'c modbus_source =
  md_name :: string
  md_addr :: string
  md_unit :: byte
  md_timeout :: duration
  md_blocks :: "block list"
  md_conn :: "'c option"

record reading =
  re_Tag :: string
  re_Value :: float64
  re_At :: gotime

datatype collect_error =
    MissingConfig string | NoModbusAddress string | BadTagType string regs_error
  | ConnectFailed string string | ReadFailed byte uint16 uint16 mb_error | DecodeFailed string regs_error

text \<open>How a poll cycle ends; an index outside a slice panics.\<close>

datatype read_outcome = Got "reading list" | Failed collect_error | Panicked

definition modbus_tag_of :: "tag \<Rightarrow> collect_error + modbus_tag" where
  "modbus_tag_of t =
     (case tg_Modbus t of
        None \<Rightarrow> Inl (NoModbusAddress (tg_Name t))
      | Some m \<Rightarrow>
          (case ParseDataType (ma_Type m) of
             Inl e \<Rightarrow> Inl (BadTagType (tg_Name t) e)
           | Inr typ \<Rightarrow>
               (case ParseByteOrder (ma_ByteOrder m) of
                  Inl e \<Rightarrow> Inl (BadTagType (tg_Name t) e)
                | Inr ord \<Rightarrow>
                    Inr \<lparr>mt_name = tg_Name t, mt_fn = FunctionCode m, mt_start = ma_Register m,
                         mt_words = Words typ, mt_typ = typ, mt_order = ord\<rparr>)))"

fun modbus_tags :: "tag_ref list \<Rightarrow> collect_error + modbus_tag list" where
  "modbus_tags [] = Inr []"
| "modbus_tags (t # ts) =
     (case modbus_tag_of (tr_Tag t) of
        Inl e \<Rightarrow> Inl e
      | Inr m \<Rightarrow> (case modbus_tags ts of Inl e \<Rightarrow> Inl e | Inr ms \<Rightarrow> Inr (m # ms)))"

definition NewModbusSource ::
  "(modbus_tag list \<Rightarrow> modbus_tag list) \<Rightarrow> source_def \<Rightarrow> tag_ref list \<Rightarrow> collect_error + 'c modbus_source" where
  "NewModbusSource sorter src tags =
     (case so_Modbus src of
        None \<Rightarrow> Inl (MissingConfig (so_Name src))
      | Some m \<Rightarrow>
          (case modbus_tags tags of
             Inl e \<Rightarrow> Inl e
           | Inr mtags \<Rightarrow>
               Inr \<lparr>md_name = so_Name src, md_addr = mc_Address m, md_unit = mc_UnitID m, md_timeout = mc_Timeout m,
                    md_blocks = Plan sorter mtags (mc_MaxGap m), md_conn = None\<rparr>))"

text \<open>The inner loop over the tags of a block; the registers of a response fill their slice.\<close>

fun read_tags :: "gotime \<Rightarrow> block \<Rightarrow> uint16 list \<Rightarrow> modbus_tag list \<Rightarrow> read_outcome" where
  "read_tags at0 b regs [] = Got []"
| "read_tags at0 b regs (t # ts) =
     (let off = unat (mt_start t - bl_Start b); hi = off + unat (mt_words t)
      in if hi > length regs then Panicked
         else case Decode (mt_typ t) (mt_order t) (take (unat (mt_words t)) (drop off regs)) of
                Inl e \<Rightarrow> Failed (DecodeFailed (mt_name t) e)
              | Inr v \<Rightarrow>
                  (case read_tags at0 b regs ts of
                     Got rs \<Rightarrow> Got (\<lparr>re_Tag = mt_name t, re_Value = v, re_At = at0\<rparr> # rs)
                   | r \<Rightarrow> r))"

text \<open>The loop over the blocks; the connection is dropped after any error but an exception response.\<close>

fun is_exception :: "mb_error \<Rightarrow> bool" where
  "is_exception (ExceptionError _ _) = True"
| "is_exception _ = False"

fun read_blocks ::
  "'c conn_ops \<Rightarrow> byte \<Rightarrow> gotime \<Rightarrow> block list \<Rightarrow> 'c \<Rightarrow> read_outcome \<times> 'c option" where
  "read_blocks O1 unit at0 [] c = (Got [], Some c)"
| "read_blocks O1 unit at0 (b # bs) c =
     (case co_ReadRegisters O1 c (bl_Function b) unit (bl_Start b) (bl_Count b) of
        (Inl e, c1) \<Rightarrow>
          (Failed (ReadFailed (bl_Function b) (bl_Start b) (bl_Count b) e), if is_exception e then Some c1 else None)
      | (Inr regs, c1) \<Rightarrow>
          (case read_tags at0 b regs (bl_tags b) of
             Got rs \<Rightarrow>
               (case read_blocks O1 unit at0 bs c1 of
                  (Got rs', c2) \<Rightarrow> (Got (rs @ rs'), c2)
                | (r, c2) \<Rightarrow> (r, c2))
           | r \<Rightarrow> (r, Some c1)))"

text \<open>\<open>dialed\<close> is what the dialer would return now, \<open>at0\<close> the clock.\<close>

definition modbus_Read ::
  "'c conn_ops \<Rightarrow> string + 'c \<Rightarrow> gotime \<Rightarrow> 'c modbus_source \<Rightarrow> read_outcome \<times> 'c modbus_source" where
  "modbus_Read O1 dialed at0 s =
     (let go = (\<lambda>c. case read_blocks O1 (md_unit s) at0 (md_blocks s) c of (r, c') \<Rightarrow> (r, s\<lparr>md_conn := c'\<rparr>))
      in case md_conn s of
           Some c \<Rightarrow> go c
         | None \<Rightarrow> (case dialed of Inl e \<Rightarrow> (Failed (ConnectFailed (md_addr s) e), s) | Inr c \<Rightarrow> go c))"

definition modbus_Close :: "'c conn_ops \<Rightarrow> 'c modbus_source \<Rightarrow> string option \<times> 'c modbus_source" where
  "modbus_Close O1 s =
     (case md_conn s of None \<Rightarrow> (None, s) | Some c \<Rightarrow> (co_Close O1 c, s\<lparr>md_conn := None\<rparr>))"

section \<open>The plan\<close>

definition sorter_ok :: "(modbus_tag list \<Rightarrow> modbus_tag list) \<Rightarrow> bool" where
  "sorter_ok sorter \<longleftrightarrow> (\<forall>xs. mset (sorter xs) = mset xs \<and> sorted_wrt (\<lambda>a b. \<not> tag_less b a) (sorter xs))"

definition tag_fits :: "modbus_tag \<Rightarrow> bool" where
  "tag_fits t \<longleftrightarrow> mt_words t = Words (mt_typ t) \<and> unat (mt_start t) + unat (mt_words t) \<le> 65536 \<and>
     (mt_fn t = FuncReadHoldingRegisters \<or> mt_fn t = FuncReadInputRegisters)"

definition covers :: "block \<Rightarrow> modbus_tag \<Rightarrow> bool" where
  "covers b t \<longleftrightarrow> mt_fn t = bl_Function b \<and> unat (bl_Start b) \<le> unat (mt_start t) \<and>
     unat (mt_start t) + unat (mt_words t) \<le> unat (bl_Start b) + unat (bl_Count b)"

definition block_ok :: "block \<Rightarrow> bool" where
  "block_ok b \<longleftrightarrow> 1 \<le> unat (bl_Count b) \<and> unat (bl_Count b) \<le> 125 \<and>
     unat (bl_Start b) + unat (bl_Count b) \<le> 65536 \<and>
     (bl_Function b = FuncReadHoldingRegisters \<or> bl_Function b = FuncReadInputRegisters) \<and>
     (\<forall>t \<in> set (bl_tags b). covers b t)"

lemma Words_range: "1 \<le> unat (Words t) \<and> unat (Words t) \<le> 2"
  by (cases t) simp_all

lemma new_block_ok: "tag_fits t \<Longrightarrow> block_ok (new_block t)"
  using Words_range [of "mt_typ t"] by (auto simp: tag_fits_def block_ok_def new_block_def covers_def)

lemma extend_block_ok:
  assumes "block_ok b" "tag_fits t" "mt_fn t = bl_Function b" "unat (bl_Start b) \<le> unat (mt_start t)"
    and "n = max (uint (mt_start t) + uint (mt_words t)) (uint (bl_Start b) + uint (bl_Count b)) - uint (bl_Start b)"
    and "n \<le> uint MaxRegistersPerRead"
  shows "block_ok (b\<lparr>bl_Count := word_of_int n, bl_tags := bl_tags b @ [t]\<rparr>)"
proof -
  let ?e = "max (unat (mt_start t) + unat (mt_words t)) (unat (bl_Start b) + unat (bl_Count b))"
  have n: "n = int (?e - unat (bl_Start b))"
    unfolding assms(5) uint_nat of_nat_add [symmetric] of_nat_max [symmetric] by (rule of_nat_diff [symmetric]) simp
  have le: "n \<le> 125" using assms(6) by (simp add: MaxRegistersPerRead_def)
  have c: "unat (word_of_int n :: uint16) = ?e - unat (bl_Start b)"
    using le unfolding n of_int_of_nat_eq by (intro unat_of_nat_uint16) linarith
  have c125: "?e - unat (bl_Start b) \<le> 125" using le n by linarith
  have s: "unat (bl_Start b) \<le> ?e" by simp
  show ?thesis
    unfolding block_ok_def
  proof (intro conjI ballI)
    have "1 \<le> unat (bl_Count b)" using assms(1) by (simp add: block_ok_def)
    then show "1 \<le> unat (bl_Count (b\<lparr>bl_Count := word_of_int n, bl_tags := bl_tags b @ [t]\<rparr>))"
      by (simp add: c max_def) linarith
    show "unat (bl_Count (b\<lparr>bl_Count := word_of_int n, bl_tags := bl_tags b @ [t]\<rparr>)) \<le> 125"
      using c125 by (simp add: c)
    have "?e \<le> 65536" using assms(1,2) by (auto simp: block_ok_def tag_fits_def)
    then show "unat (bl_Start (b\<lparr>bl_Count := word_of_int n, bl_tags := bl_tags b @ [t]\<rparr>)) +
        unat (bl_Count (b\<lparr>bl_Count := word_of_int n, bl_tags := bl_tags b @ [t]\<rparr>)) \<le> 65536"
      using s by (simp add: c)
  next
    fix x assume "x \<in> set (bl_tags (b\<lparr>bl_Count := word_of_int n, bl_tags := bl_tags b @ [t]\<rparr>))"
    then have "x = t \<or> covers b x" using assms(1) by (auto simp: block_ok_def)
    then show "covers (b\<lparr>bl_Count := word_of_int n, bl_tags := bl_tags b @ [t]\<rparr>) x"
      using assms(3,4) s by (auto simp: covers_def c)
  qed (use assms(1) in \<open>simp add: block_ok_def\<close>)
qed

text \<open>
  The loop keeps every tag exactly once and makes good blocks, as long as the rest is not
  before the current block.
\<close>

lemma sorted_after:
  assumes "sorted_wrt (\<lambda>a b. \<not> tag_less b a) (t # ts)"
  shows "\<forall>u \<in> set ts. mt_fn u = bl_Function (new_block t) \<longrightarrow> unat (bl_Start (new_block t)) \<le> unat (mt_start u)"
  using assms by (auto simp: new_block_def tag_less_def word_less_nat_alt not_less)

lemma plan_loop_ok:
  assumes "block_ok cur" "\<forall>t \<in> set ts. tag_fits t" "sorted_wrt (\<lambda>a b. \<not> tag_less b a) ts"
    and "\<forall>t \<in> set ts. mt_fn t = bl_Function cur \<longrightarrow> unat (bl_Start cur) \<le> unat (mt_start t)"
  shows "concat (map bl_tags (plan_loop maxGap cur ts)) = bl_tags cur @ ts \<and> (\<forall>b \<in> set (plan_loop maxGap cur ts). block_ok b)"
  using assms
proof (induction maxGap cur ts rule: plan_loop.induct)
  case (2 maxGap cur t ts)
  define n where "n = max (uint (mt_start t) + uint (mt_words t)) (uint (bl_Start cur) + uint (bl_Count cur)) - uint (bl_Start cur)"
  define cur' where "cur' = cur\<lparr>bl_Count := word_of_int n, bl_tags := bl_tags cur @ [t]\<rparr>"
  let ?join = "mt_fn t = bl_Function cur \<and> uint (mt_start t) - (uint (bl_Start cur) + uint (bl_Count cur)) \<le> maxGap \<and>
    n \<le> uint MaxRegistersPerRead"
  have step: "plan_loop maxGap cur (t # ts) =
      (if ?join then plan_loop maxGap cur' ts else cur # plan_loop maxGap (new_block t) ts)"
    by (simp add: Let_def n_def cur'_def)
  show ?case
  proof (cases ?join)
    case True
    have ok: "block_ok cur'"
      unfolding cur'_def using 2(3-6) True by (intro extend_block_ok [OF _ _ _ _ n_def]) auto
    have "bl_Start cur' = bl_Start cur" "bl_Function cur' = bl_Function cur" "bl_tags cur' = bl_tags cur @ [t]"
      by (simp_all add: cur'_def)
    with 2(1) [OF refl refl refl refl] True ok 2(4-6) show ?thesis
      unfolding step by (simp add: cur'_def n_def)
  next
    case False
    have t: "tag_fits t" using 2(4) by simp
    from sorted_after [OF 2(5)] have "concat (map bl_tags (plan_loop maxGap (new_block t) ts)) = [t] @ ts \<and>
        (\<forall>b \<in> set (plan_loop maxGap (new_block t) ts). block_ok b)"
      using 2(2) [OF refl refl refl refl] False new_block_ok [OF t] 2(4,5) by (simp add: n_def new_block_def)
    with False 2(3) show ?thesis unfolding step by auto
  qed
qed simp

lemma Plan_ok:
  assumes "sorter_ok sorter" "\<forall>t \<in> set tags. tag_fits t"
  shows "mset (concat (map bl_tags (Plan sorter tags maxGap))) = mset tags \<and> (\<forall>b \<in> set (Plan sorter tags maxGap). block_ok b)"
proof (cases "sorter tags")
  case Nil
  then have "tags = []" using assms(1) unfolding sorter_ok_def by (metis mset_zero_iff)
  then show ?thesis by (simp add: Plan_def)
next
  case (Cons t ts)
  have m: "mset (t # ts) = mset tags" and s: "sorted_wrt (\<lambda>a b. \<not> tag_less b a) (t # ts)"
    using assms(1) Cons unfolding sorter_ok_def by metis+
  have f: "\<forall>u \<in> set (t # ts). tag_fits u" using assms(2) m by (metis set_mset_mset)
  from sorted_after [OF s] have "concat (map bl_tags (plan_loop maxGap (new_block t) ts)) = bl_tags (new_block t) @ ts \<and>
      (\<forall>b \<in> set (plan_loop maxGap (new_block t) ts). block_ok b)"
    using f s by (intro plan_loop_ok new_block_ok) auto
  moreover have "tags \<noteq> []" using m by auto
  ultimately show ?thesis using Cons m by (auto simp: Plan_def new_block_def)
qed

section \<open>A poll cycle\<close>

text \<open>
  The contract of a connection to a device with the register tables \<open>tab\<close>: a request that
  can be built and lies inside the table is answered with the registers.
\<close>

locale register_conn =
  fixes O1 :: "'c conn_ops" and conn_ok :: "'c \<Rightarrow> bool" and tab :: "byte \<Rightarrow> uint16 list"
  assumes read_ok: "conn_ok c \<Longrightarrow> ReadRegistersRequest fn a q = Inr req \<Longrightarrow> unat a + unat q \<le> length (tab fn) \<Longrightarrow>
    \<exists>c'. co_ReadRegisters O1 c fn u a q = (Inr (take (unat q) (drop (unat a) (tab fn))), c') \<and> conn_ok c'"
begin

definition tag_value :: "modbus_tag \<Rightarrow> regs_error + float64" where
  "tag_value t = Decode (mt_typ t) (mt_order t) (take (unat (mt_words t)) (drop (unat (mt_start t)) (tab (mt_fn t))))"

definition tag_reading :: "gotime \<Rightarrow> modbus_tag \<Rightarrow> reading" where
  "tag_reading at0 t = \<lparr>re_Tag = mt_name t, re_Value = (case tag_value t of Inr v \<Rightarrow> v | Inl _ \<Rightarrow> NaN), re_At = at0\<rparr>"

lemma covered_slice:
  assumes "covers b t" "unat (bl_Start b) + unat (bl_Count b) \<le> length xs"
  defines "regs \<equiv> take (unat (bl_Count b)) (drop (unat (bl_Start b)) xs)"
    and "off \<equiv> unat (mt_start t - bl_Start b)"
  shows "off + unat (mt_words t) \<le> length regs"
    and "take (unat (mt_words t)) (drop off regs) = take (unat (mt_words t)) (drop (unat (mt_start t)) xs)"
proof -
  have off: "off = unat (mt_start t) - unat (bl_Start b)"
    unfolding off_def using assms(1) by (intro unat_sub) (simp add: covers_def word_le_nat_alt)
  show "off + unat (mt_words t) \<le> length regs"
    using assms(1,2) by (simp add: regs_def covers_def off) linarith
  show "take (unat (mt_words t)) (drop off regs) = take (unat (mt_words t)) (drop (unat (mt_start t)) xs)"
    using assms(1) by (simp add: regs_def covers_def off drop_take min_def) linarith
qed

lemma read_tags_values:
  assumes "\<forall>t \<in> set ts. covers b t \<and> (\<exists>v. tag_value t = Inr v)"
    and "unat (bl_Start b) + unat (bl_Count b) \<le> length (tab (bl_Function b))"
  shows "read_tags at0 b (take (unat (bl_Count b)) (drop (unat (bl_Start b)) (tab (bl_Function b)))) ts = Got (map (tag_reading at0) ts)"
  using assms(1)
proof (induction ts)
  case (Cons t ts)
  then have c: "covers b t" by simp
  then have fn: "mt_fn t = bl_Function b" by (simp add: covers_def)
  note S = covered_slice [OF c assms(2)]
  obtain v where v: "tag_value t = Inr v" using Cons.prems by auto
  show ?case
    using Cons v S fn by (simp add: Let_def tag_value_def tag_reading_def not_less [symmetric])
qed simp

lemma block_request:
  assumes "block_ok b"
  obtains req where "ReadRegistersRequest (bl_Function b) (bl_Start b) (bl_Count b) = Inr req"
  using assms that by (auto simp: block_ok_def ReadRegistersRequest_Inr)

lemma read_blocks_values:
  assumes "conn_ok c" "\<forall>b \<in> set bs. block_ok b \<and> unat (bl_Start b) + unat (bl_Count b) \<le> length (tab (bl_Function b)) \<and>
      (\<forall>t \<in> set (bl_tags b). \<exists>v. tag_value t = Inr v)"
  shows "\<exists>c'. read_blocks O1 u at0 bs c = (Got (map (tag_reading at0) (concat (map bl_tags bs))), Some c') \<and> conn_ok c'"
  using assms
proof (induction bs arbitrary: c)
  case (Cons b bs)
  have b: "block_ok b" and len: "unat (bl_Start b) + unat (bl_Count b) \<le> length (tab (bl_Function b))"
    and dec: "\<forall>t \<in> set (bl_tags b). covers b t \<and> (\<exists>v. tag_value t = Inr v)"
    using Cons.prems(2) by (auto simp: block_ok_def)
  obtain req where "ReadRegistersRequest (bl_Function b) (bl_Start b) (bl_Count b) = Inr req"
    using block_request [OF b] by blast
  from read_ok [OF Cons.prems(1) this len, of u] obtain c1 where
    c1: "co_ReadRegisters O1 c (bl_Function b) u (bl_Start b) (bl_Count b) =
      (Inr (take (unat (bl_Count b)) (drop (unat (bl_Start b)) (tab (bl_Function b)))), c1)" "conn_ok c1" by blast
  from Cons.IH [OF c1(2)] Cons.prems(2) obtain c2 where
    c2: "read_blocks O1 u at0 bs c1 = (Got (map (tag_reading at0) (concat (map bl_tags bs))), Some c2)" "conn_ok c2" by auto
  show ?case
    using c1 c2 read_tags_values [OF dec len, of at0] by simp
qed simp

lemma Decode_tag_ok:
  assumes "mt_words t = Words (mt_typ t)" "mt_typ t \<in> {Int16, UInt16, Int32, UInt32, Float32}"
    and "unat (mt_start t) + unat (mt_words t) \<le> length (tab (mt_fn t))"
  shows "\<exists>v. tag_value t = Inr v"
  using assms by (auto simp: tag_value_def Decode_def Let_def)

end

text \<open>The client connected to a server with a memory bank.\<close>

definition client_ops :: "memory_bank \<Rightarrow> client conn_ops" where
  "client_ops b = \<lparr>co_ReadRegisters = (\<lambda>cl fn u a q. readRegisters (server_peer b) False cl fn u a q), co_Close = (\<lambda>_. None)\<rparr>"

definition client_idle :: "client \<Rightarrow> bool" where
  "client_idle cl \<longleftrightarrow> c_faults (cl_conn cl) = [] \<and> rd_avail (c_rd (cl_conn cl)) = []"

interpretation tcp: register_conn "client_ops b" client_idle "\<lambda>fn. mem_bank.table fn b" for b
proof
  fix c fn a q req u
  assume idle: "client_idle c" and req: "ReadRegistersRequest fn a q = Inr req"
    and len: "unat a + unat q \<le> length (mem_bank.table fn b)"
  obtain cl' where T: "transact (server_peer b) False c u req = (Inr (dispatch memory_bank_ops b u req), cl')"
    "rd_avail (c_rd (cl_conn cl')) = []" "c_faults (cl_conn cl') = []"
    using transact_server [OF ReadRegistersRequest_fits [OF req], of c "[]" b u] idle by (auto simp: client_idle_def)
  then show "\<exists>c'. co_ReadRegisters (client_ops b) c fn u a q = (Inr (take (unat q) (drop (unat a) (mem_bank.table fn b))), c') \<and> client_idle c'"
    using req len parse_dispatch [OF req, of b u]
    by (auto simp: client_ops_def readRegisters_def bank_slice_def client_idle_def)
qed

section \<open>From the plant file to the readings\<close>

text \<open>What the device holds for a tag.\<close>

definition device_reading :: "memory_bank \<Rightarrow> gotime \<Rightarrow> tag \<Rightarrow> reading option" where
  "device_reading b at0 t =
     (case tg_Modbus t of
        None \<Rightarrow> None
      | Some m \<Rightarrow>
          let tab = (if ma_Function m = ''input'' then input b else holding b);
              ord = (if ma_ByteOrder m = OtherOrder [] then ABCD else ma_ByteOrder m)
          in (case Decode (ma_Type m) ord (take (unat (Words (ma_Type m))) (drop (unat (ma_Register m)) tab)) of
                Inl _ \<Rightarrow> None
              | Inr v \<Rightarrow> Some \<lparr>re_Tag = tg_Name t, re_Value = v, re_At = at0\<rparr>))"

lemma modbus_tag_of_ok:
  assumes "address_ok SourceModbus t"
  shows "\<exists>x m. tg_Modbus t = Some m \<and> modbus_tag_of t = Inr x \<and> tag_fits x \<and> mt_typ x \<in> {Int16, UInt16, Int32, UInt32, Float32} \<and>
    x = \<lparr>mt_name = tg_Name t, mt_fn = FunctionCode m, mt_start = ma_Register m, mt_words = Words (ma_Type m),
         mt_typ = ma_Type m, mt_order = (if ma_ByteOrder m = OtherOrder [] then ABCD else ma_ByteOrder m)\<rparr>"
proof -
  obtain m where m: "tg_Modbus t = Some m" "ma_Type m \<in> {Int16, UInt16, Int32, UInt32, Float32}"
    "unat (ma_Register m) + unat (Words (ma_Type m)) \<le> 65536" "ma_ByteOrder m \<in> {ABCD, DCBA, BADC, CDAB, OtherOrder []}"
    using assms by auto
  have p: "ParseDataType (ma_Type m) = Inr (ma_Type m)" using m(2) by auto
  have o1: "ParseByteOrder (ma_ByteOrder m) = Inr (if ma_ByteOrder m = OtherOrder [] then ABCD else ma_ByteOrder m)"
    using m(4) by auto
  show ?thesis
    by (intro exI [of _ "the (case modbus_tag_of t of Inr x \<Rightarrow> Some x | Inl _ \<Rightarrow> None)"] exI [of _ m])
      (use m(1-3) in \<open>simp add: modbus_tag_of_def p o1 tag_fits_def FunctionCode_def\<close>)
qed

lemma modbus_tags_ok:
  assumes "\<forall>tr \<in> set trs. address_ok SourceModbus (tr_Tag tr)"
  shows "\<exists>xs. modbus_tags trs = Inr xs \<and> list_all2 (\<lambda>tr x. modbus_tag_of (tr_Tag tr) = Inr x) trs xs"
  using assms
proof (induction trs)
  case (Cons tr trs)
  then obtain xs x where "modbus_tags trs = Inr xs" "list_all2 (\<lambda>tr x. modbus_tag_of (tr_Tag tr) = Inr x) trs xs"
    "modbus_tag_of (tr_Tag tr) = Inr x"
    using modbus_tag_of_ok [of "tr_Tag tr"] by auto
  then show ?case by auto
qed simp

lemma tag_reading_device:
  assumes "address_ok SourceModbus t" "modbus_tag_of t = Inr x" "length (holding b) = 65536" "length (input b) = 65536"
  shows "tag_fits x" "\<exists>v. tcp.tag_value b x = Inr v" "device_reading b at0 t = Some (tcp.tag_reading b at0 x)"
proof -
  obtain m where m: "tg_Modbus t = Some m" "tag_fits x" "mt_typ x \<in> {Int16, UInt16, Int32, UInt32, Float32}"
    "x = \<lparr>mt_name = tg_Name t, mt_fn = FunctionCode m, mt_start = ma_Register m, mt_words = Words (ma_Type m),
         mt_typ = ma_Type m, mt_order = (if ma_ByteOrder m = OtherOrder [] then ABCD else ma_ByteOrder m)\<rparr>"
    using modbus_tag_of_ok [OF assms(1)] assms(2) by auto
  show fits: "tag_fits x" by (rule m(2))
  have len: "length (mem_bank.table fn b) = 65536" for fn using assms(3,4) by (simp add: mem_bank.table_def)
  show v: "\<exists>v. tcp.tag_value b x = Inr v"
    using fits m(3) by (intro tcp.Decode_tag_ok) (auto simp: tag_fits_def len)
  have tab: "mem_bank.table (FunctionCode m) b = (if ma_Function m = ''input'' then input b else holding b)"
    by (simp add: mem_bank.table_def FunctionCode_def modbus_consts)
  have "tcp.tag_value b x = Decode (ma_Type m) (if ma_ByteOrder m = OtherOrder [] then ABCD else ma_ByteOrder m)
      (take (unat (Words (ma_Type m))) (drop (unat (ma_Register m)) (if ma_Function m = ''input'' then input b else holding b)))"
    unfolding tcp.tag_value_def tab [symmetric] by (simp add: m(4))
  with v show "device_reading b at0 t = Some (tcp.tag_reading b at0 x)"
    unfolding device_reading_def tcp.tag_reading_def by (auto simp: m(1) Let_def) (simp_all add: m(4))
qed

section \<open>Properties\<close>

text \<open>
  C25: the read plan. Every tag lands in exactly one request; each request can be built (FC 3 or 4,
  between 1 and 125 registers, inside the address space), and the registers of each of its
  tags lie inside it, so that cutting them out of the response cannot go out of range.
\<close>

theorem plan_covers_tags:
  assumes "sorter_ok sorter" "\<forall>t \<in> set tags. tag_fits t"
  shows "mset (concat (map bl_tags (Plan sorter tags maxGap))) = mset tags \<and>
    (\<forall>b \<in> set (Plan sorter tags maxGap).
       (\<exists>req. ReadRegistersRequest (bl_Function b) (bl_Start b) (bl_Count b) = Inr req) \<and>
       (\<forall>t \<in> set (bl_tags b). mt_fn t = bl_Function b \<and> unat (bl_Start b) \<le> unat (mt_start t) \<and>
          unat (mt_start t) + unat (mt_words t) \<le> unat (bl_Start b) + unat (bl_Count b)))"
  using Plan_ok [OF assms] tcp.block_request by (auto simp: block_ok_def covers_def ReadRegistersRequest_Inr)

text \<open>Insertion sort as an instance of the sorting function.\<close>

fun insort_tag :: "modbus_tag \<Rightarrow> modbus_tag list \<Rightarrow> modbus_tag list" where
  "insort_tag t [] = [t]"
| "insort_tag t (u # us) = (if tag_less u t then u # insort_tag t us else t # u # us)"

fun sort_tags :: "modbus_tag list \<Rightarrow> modbus_tag list" where
  "sort_tags [] = []"
| "sort_tags (t # ts) = insort_tag t (sort_tags ts)"

lemma tag_less_trans: "\<not> tag_less b a \<Longrightarrow> \<not> tag_less c b \<Longrightarrow> \<not> tag_less c a"
  by (auto simp: tag_less_def split: if_splits)

lemma tag_less_asym: "tag_less a b \<Longrightarrow> \<not> tag_less b a"
  by (auto simp: tag_less_def split: if_splits)

lemma mset_insort_tag: "mset (insort_tag t us) = add_mset t (mset us)"
  by (induction us) auto

lemma insort_tag_sorted:
  "sorted_wrt (\<lambda>a b. \<not> tag_less b a) us \<Longrightarrow> sorted_wrt (\<lambda>a b. \<not> tag_less b a) (insort_tag t us)"
proof (induction us)
  case (Cons u us)
  have "set (insort_tag t us) = insert t (set us)" using mset_insort_tag by (metis set_mset_add_mset_insert set_mset_mset)
  moreover have "\<not> tag_less u t \<Longrightarrow> \<not> tag_less x u \<Longrightarrow> \<not> tag_less x t" for x by (rule tag_less_trans)
  moreover have "tag_less u t \<Longrightarrow> \<not> tag_less t u" by (rule tag_less_asym)
  ultimately show ?case using Cons by simp
qed simp

lemma sort_tags_ok: "sorter_ok sort_tags"
proof -
  have "mset (sort_tags xs) = mset xs \<and> sorted_wrt (\<lambda>a b. \<not> tag_less b a) (sort_tags xs)" for xs
    by (induction xs) (auto simp: mset_insort_tag insort_tag_sorted)
  then show ?thesis by (simp add: sorter_ok_def)
qed

definition sample_mtags :: "modbus_tag list" where
  "sample_mtags = [\<lparr>mt_name = ''b'', mt_fn = 3, mt_start = 10, mt_words = 1, mt_typ = Int16, mt_order = ABCD\<rparr>,
     \<lparr>mt_name = ''a'', mt_fn = 3, mt_start = 0, mt_words = 2, mt_typ = Float32, mt_order = ABCD\<rparr>]"

theorem plan_covers_tags_witness:
  "mset (concat (map bl_tags (Plan sort_tags sample_mtags 8))) = mset sample_mtags \<and>
   block_Tags (hd (Plan sort_tags sample_mtags 8)) = [''a'', ''b'']"
proof -
  have "\<forall>t \<in> set sample_mtags. tag_fits t" by (simp add: sample_mtags_def tag_fits_def modbus_consts)
  from plan_covers_tags [OF sort_tags_ok this, of 8] show ?thesis
    by (simp add: sample_mtags_def Plan_def tag_less_def new_block_def Let_def MaxRegistersPerRead_def block_Tags_def)
qed

text \<open>
  C24: a poll reads the device. For every Modbus source of a parsed plant the collector can be
  built, and a poll over a fresh connection to a device with full register tables returns,
  without panic or error, exactly one reading per tag of the source, with the value its
  registers hold on the device.
\<close>

theorem modbus_poll_reads_device:
  assumes "asset_Parse yaml y = Inr p" "s \<in> set (pt_Sources p)" "so_Type s = SourceModbus" "sorter_ok sorter"
    and "length (holding b) = 65536" "length (input b) = 65536" "client_idle cl"
  shows "\<exists>ms rs. NewModbusSource sorter s (TagsForSource (plant_Index p) (so_Name s)) = Inr ms \<and>
    fst (modbus_Read (client_ops b) (Inr cl) at0 ms) = Got rs \<and>
    image_mset Some (mset rs) = image_mset (\<lambda>tr. device_reading b at0 (tr_Tag tr)) (mset (TagsForSource (plant_Index p) (so_Name s)))"
proof -
  let ?trs = "TagsForSource (plant_Index p) (so_Name s)"
  have ok: "plant_ok p" using asset_Parse_ok [OF assms(1)] by blast
  have adr: "address_ok SourceModbus (tr_Tag tr)" if "tr \<in> set ?trs" for tr
  proof -
    have "tr \<in> set (plant_tag_refs p)" "tr_source tr = so_Name s"
      using that unfolding plant_Index_effect(5) [OF ok] by auto
    then obtain s' where s': "s' \<in> set (pt_Sources p)" "so_Name s' = so_Name s" "tag_ok s' (tr_Tag tr)"
      using plant_tag_refs_sourced [OF ok] by metis
    have "distinct (map so_Name (pt_Sources p))" using ok by (simp add: plant_ok_def)
    then have "s' = s" using s' assms(2) by (metis distinct_map inj_onD)
    then show ?thesis using s'(3) assms(3) by (simp add: tag_ok_def)
  qed
  obtain xs where xs: "modbus_tags ?trs = Inr xs" and all: "list_all2 (\<lambda>tr x. modbus_tag_of (tr_Tag tr) = Inr x) ?trs xs"
    using modbus_tags_ok [of ?trs] adr by blast
  have each: "tag_fits x \<and> (\<exists>v. tcp.tag_value b x = Inr v)" if x: "x \<in> set xs" for x
  proof -
    obtain i where "i < length xs" "x = xs ! i" using x by (auto simp: in_set_conv_nth)
    then have "?trs ! i \<in> set ?trs" "modbus_tag_of (tr_Tag (?trs ! i)) = Inr x"
      using all by (simp_all add: list_all2_conv_all_nth)
    then show ?thesis using adr tag_reading_device(1,2) [OF _ _ assms(5,6)] by blast
  qed
  have "source_ok s" using ok assms(2) by (simp add: plant_ok_def)
  then obtain m where m: "so_Modbus s = Some m" using assms(3) by (auto simp: source_ok_def)
  define ms :: "client modbus_source" where "ms = \<lparr>md_name = so_Name s, md_addr = mc_Address m, md_unit = mc_UnitID m,
     md_timeout = mc_Timeout m, md_blocks = Plan sorter xs (mc_MaxGap m), md_conn = None\<rparr>"
  have P: "mset (concat (map bl_tags (md_blocks ms))) = mset xs" "\<forall>b \<in> set (md_blocks ms). block_ok b"
    using Plan_ok [OF assms(4), of xs] each by (auto simp: ms_def)
  have len: "length (mem_bank.table fn b) = 65536" for fn using assms(5,6) by (simp add: mem_bank.table_def)
  have "\<forall>bl \<in> set (md_blocks ms). block_ok bl \<and> unat (bl_Start bl) + unat (bl_Count bl) \<le> length (mem_bank.table (bl_Function bl) b) \<and>
      (\<forall>t \<in> set (bl_tags bl). \<exists>v. tcp.tag_value b t = Inr v)"
  proof
    fix bl assume bl: "bl \<in> set (md_blocks ms)"
    have "set (concat (map bl_tags (md_blocks ms))) = set xs" using P(1) by (metis set_mset_mset)
    then have "set (bl_tags bl) \<subseteq> set xs" using bl by auto
    then show "block_ok bl \<and> unat (bl_Start bl) + unat (bl_Count bl) \<le> length (mem_bank.table (bl_Function bl) b) \<and>
      (\<forall>t \<in> set (bl_tags bl). \<exists>v. tcp.tag_value b t = Inr v)"
      using bl P(2) each by (auto simp: block_ok_def len)
  qed
  then obtain c' where rd: "read_blocks (client_ops b) (md_unit ms) at0 (md_blocks ms) cl =
      (Got (map (tcp.tag_reading b at0) (concat (map bl_tags (md_blocks ms)))), Some c')"
    using tcp.read_blocks_values [OF assms(7)] by metis
  have "NewModbusSource sorter s ?trs = Inr ms" by (simp add: NewModbusSource_def m xs ms_def)
  moreover have "fst (modbus_Read (client_ops b) (Inr cl) at0 ms) = Got (map (tcp.tag_reading b at0) (concat (map bl_tags (md_blocks ms))))"
    using rd by (simp add: modbus_Read_def ms_def)
  moreover have "map (\<lambda>tr. device_reading b at0 (tr_Tag tr)) ?trs = map (\<lambda>x. Some (tcp.tag_reading b at0 x)) xs"
    using all adr tag_reading_device(3) [OF _ _ assms(5,6)]
    by (intro nth_equalityI) (auto simp: list_all2_conv_all_nth)
  then have "image_mset (\<lambda>tr. device_reading b at0 (tr_Tag tr)) (mset ?trs) = image_mset (\<lambda>x. Some (tcp.tag_reading b at0 x)) (mset xs)"
    by (metis mset_map)
  then have "image_mset Some (mset (map (tcp.tag_reading b at0) (concat (map bl_tags (md_blocks ms))))) =
      image_mset (\<lambda>tr. device_reading b at0 (tr_Tag tr)) (mset ?trs)"
    by (simp only: mset_map P(1) image_mset.compositionality comp_def)
  ultimately show ?thesis by blast
qed

definition modbus_plant :: plant where
  "modbus_plant = sample_plant\<lparr>
     pt_Sources := [\<lparr>so_Name = ''line1'', so_Type = SourceModbus, so_PollInterval = seconds 1,
       so_Modbus = Some \<lparr>mc_Address = ''plc:502'', mc_UnitID = 1, mc_Timeout = seconds 2, mc_MaxGap = 8\<rparr>,
       so_Sim = None, so_CSV = None\<rparr>],
     pt_Areas := [\<lparr>ae_Name = ''pack'', ae_Lines = [\<lparr>li_Name = ''l1'', li_Cells = [\<lparr>ce_Name = ''c1'',
       ce_Assets = [sample_asset\<lparr>as_Tags := [sample_tag\<lparr>tg_Modbus := Some \<lparr>ma_Function = ''input'', ma_Register = 7,
         ma_Type = UInt16, ma_ByteOrder = ABCD\<rparr>\<rparr>]\<rparr>]\<rparr>]\<rparr>]\<rparr>]\<rparr>"

lemma modbus_plant_parses: "asset_Parse (\<lambda>_. Inr modbus_plant) [] = Inr modbus_plant"
proof -
  have "applyDefaults modbus_plant = modbus_plant"
    by (simp add: applyDefaults_def modbus_plant_def sample_plant_def sample_asset_def sample_tag_def map_assets_def
        default_source_def default_tag_def Let_def)
  moreover have "plant_Validate modbus_plant = []"
    by (simp add: plant_Validate_def modbus_plant_def sample_plant_def sample_asset_def sample_tag_def validate_area_def
        validate_line_def validate_cell_def validate_asset_def validateTag_def validate_modbus_tag_def validate_source_def
        ValidateSegment_def contains_any_def reserved_chars_def has_prefix_def fail_some_def plant_topic_def
        topic_Validate_def topic_segments_def uns_ParseDataType_def)
  ultimately show ?thesis by (simp add: asset_Parse_def Let_def)
qed

definition full_bank :: memory_bank where
  "full_bank = NewMemoryBank 65536 65536"

definition fresh_client :: client where
  "fresh_client = NewClient \<lparr>c_rd = \<lparr>rd_avail = [], rd_end = Timeout\<rparr>, c_out = [], c_faults = []\<rparr>"

theorem modbus_poll_reads_device_witness:
  "\<exists>ms rs. NewModbusSource sort_tags (hd (pt_Sources modbus_plant)) (TagsForSource (plant_Index modbus_plant) ''line1'') = Inr ms \<and>
    fst (modbus_Read (client_ops full_bank) (Inr fresh_client) 0 ms) = Got rs \<and>
    image_mset Some (mset rs) =
      image_mset (\<lambda>tr. device_reading full_bank 0 (tr_Tag tr)) (mset (TagsForSource (plant_Index modbus_plant) ''line1''))"
proof -
  have s: "hd (pt_Sources modbus_plant) \<in> set (pt_Sources modbus_plant)" "so_Type (hd (pt_Sources modbus_plant)) = SourceModbus"
    "so_Name (hd (pt_Sources modbus_plant)) = ''line1''"
    by (simp_all add: modbus_plant_def)
  have b: "length (holding full_bank) = 65536" "length (input full_bank) = 65536"
    by (simp_all add: full_bank_def NewMemoryBank_def)
  have c: "client_idle fresh_client" by (simp add: client_idle_def fresh_client_def NewClient_def)
  show ?thesis
    using modbus_poll_reads_device [OF modbus_plant_parses s(1,2) sort_tags_ok b c, of 0] unfolding s(3) .
qed

end
