(* ===== verification/Collectors.thy ===== *)
theory Collectors
  imports Modbus_Source
begin

text \<open>
  The collectors around the device drivers, \<^verbatim>\<open>internal/collectors/source.go\<close> and
  \<^verbatim>\<open>sim_csv.go\<close>: the health registry, one cycle of the poller, the simulator source and the
  CSV replay source. The order in which Go ranges over a map is an argument of the
  operations that do; the CSV decoder and \<^verbatim>\<open>strconv.ParseFloat\<close> are parameters. The counters
  of the registry are unbounded here (64 bits in the code).
\<close>

section \<open>Health\<close>

record status =
  st_Name :: string
  st_Type :: string
  st_Up :: bool
  st_Polls :: int
  st_Failures :: int
  st_ConsecutiveFailures :: int
  st_LastSuccess :: "gotime option"
  st_LastError :: string
  st_LastErrorAt :: "gotime option"
  st_LastLatency :: duration
  st_LastLatencyMS :: float64
  st_Readings :: int

record health =
  he_status :: "string \<rightharpoonup> status"
  he_order :: "string list"

definition NewHealth :: health where
  "NewHealth = \<lparr>he_status = Map.empty, he_order = []\<rparr>"

definition new_status :: "string \<Rightarrow> string \<Rightarrow> status" where
  "new_status name typ =
     \<lparr>st_Name = name, st_Type = typ, st_Up = False, st_Polls = 0, st_Failures = 0, st_ConsecutiveFailures = 0,
      st_LastSuccess = None, st_LastError = [], st_LastErrorAt = None, st_LastLatency = 0,
      st_LastLatencyMS = Fin 0, st_Readings = 0\<rparr>"

definition health_Register :: "string \<Rightarrow> string \<Rightarrow> health \<Rightarrow> health" where
  "health_Register name typ h =
     (let h1 = (if he_status h name = None then h\<lparr>he_order := he_order h @ [name]\<rparr> else h)
      in h1\<lparr>he_status := (he_status h1)(name \<mapsto> new_status name typ)\<rparr>)"

text \<open>\<^verbatim>\<open>float64(latency.Microseconds()) / 1000\<close>\<close>

definition latency_ms :: "duration \<Rightarrow> float64" where
  "latency_ms d = fl_div (fl_of_int (sgn d * (\<bar>d\<bar> div 1000))) (Fin 1000)"

definition health_success :: "string \<Rightarrow> gotime \<Rightarrow> duration \<Rightarrow> int \<Rightarrow> health \<Rightarrow> health" where
  "health_success name at0 latency n h =
     (case he_status h name of
        None \<Rightarrow> h
      | Some s \<Rightarrow>
          h\<lparr>he_status := (he_status h)(name \<mapsto>
             s\<lparr>st_Up := True, st_Polls := st_Polls s + 1, st_ConsecutiveFailures := 0, st_LastSuccess := Some at0,
               st_LastLatency := latency, st_LastLatencyMS := latency_ms latency, st_Readings := st_Readings s + n\<rparr>)\<rparr>)"

definition health_failure :: "string \<Rightarrow> gotime \<Rightarrow> duration \<Rightarrow> string \<Rightarrow> health \<Rightarrow> health" where
  "health_failure name at0 latency err h =
     (case he_status h name of
        None \<Rightarrow> h
      | Some s \<Rightarrow>
          h\<lparr>he_status := (he_status h)(name \<mapsto>
             s\<lparr>st_Up := False, st_Polls := st_Polls s + 1, st_Failures := st_Failures s + 1,
               st_ConsecutiveFailures := st_ConsecutiveFailures s + 1, st_LastError := err, st_LastErrorAt := Some at0,
               st_LastLatency := latency, st_LastLatencyMS := latency_ms latency\<rparr>)\<rparr>)"

text \<open>\<open>None\<close> would be the panic of a nil status.\<close>

definition health_Snapshot :: "health \<Rightarrow> status list option" where
  "health_Snapshot h = those (map (he_status h) (he_order h))"

definition health_Get :: "health \<Rightarrow> string \<Rightarrow> status option" where
  "health_Get h name = he_status h name"

text \<open>The keys of the map are the names in \<open>he_order\<close>.\<close>

definition AllUp :: "health \<Rightarrow> bool" where
  "AllUp h = list_all (\<lambda>n. case he_status h n of None \<Rightarrow> True | Some s \<Rightarrow> st_Up s) (he_order h)"

section \<open>The poller\<close>

text \<open>The call of the observer that a cycle makes.\<close>

datatype poll_event = OnReadings string "reading list" | OnError string string

record poll_result =
  pr_start :: gotime
  pr_end :: gotime
  pr_result :: "string + reading list"
  pr_cancelled_before :: bool
  pr_cancelled_after :: bool

definition pollOnce :: "string \<Rightarrow> poll_result \<Rightarrow> health \<Rightarrow> health \<times> poll_event list" where
  "pollOnce name r h =
     (if pr_cancelled_before r then (h, [])
      else let latency = time_sub (pr_end r) (pr_start r)
           in case pr_result r of
                Inl err \<Rightarrow>
                  if pr_cancelled_after r then (h, [])
                  else (health_failure name (pr_start r) latency err h, [OnError name err])
              | Inr readings \<Rightarrow>
                  (health_success name (pr_start r) latency (int (length readings)) h, [OnReadings name readings]))"

section \<open>The simulator source\<close>

record 'r sim_source =
  ss_name :: string
  ss_tags :: "string \<rightharpoonup> string"
  ss_line :: "'r sim_line"
  ss_last :: gotime

definition maxSimStep :: duration where
  "maxSimStep = seconds 5"

fun sim_tags :: "tag_ref list \<Rightarrow> (string \<rightharpoonup> string) \<Rightarrow> string + (string \<rightharpoonup> string)" where
  "sim_tags [] m = Inr m"
| "sim_tags (t # ts) m =
     (case tg_Sim (tr_Tag t) of
        None \<Rightarrow> Inl (tg_Name (tr_Tag t))
      | Some c \<Rightarrow>
          if \<not> IsSignal (sa_Signal c) then Inl (tg_Name (tr_Tag t))
          else sim_tags ts (m(tg_Name (tr_Tag t) \<mapsto> sa_Signal c)))"

definition sim_seed :: "source_def \<Rightarrow> int" where
  "sim_seed src =
     (case so_Sim src of None \<Rightarrow> 1 | Some c \<Rightarrow> if sm_Seed c \<noteq> 0 then sm_Seed c else 1)"

definition NewSimSource :: "(int \<Rightarrow> 'r) \<Rightarrow> source_def \<Rightarrow> tag_ref list \<Rightarrow> string + 'r sim_source" where
  "NewSimSource new_source src tags =
     (case sim_tags tags Map.empty of
        Inl e \<Rightarrow> Inl e
      | Inr m \<Rightarrow> Inr \<lparr>ss_name = so_Name src, ss_tags = m, ss_line = NewLine new_source (sim_seed src), ss_last = zero_time\<rparr>)"

definition sim_Read ::
  "(float64 \<Rightarrow> float64) \<Rightarrow> 'r rand_ops \<Rightarrow> string list \<Rightarrow> gotime \<Rightarrow> 'r sim_source \<Rightarrow> reading list \<times> 'r sim_source" where
  "sim_Read E R keys now s =
     (let l = (if ss_last s \<noteq> zero_time
               then let dt = time_sub now (ss_last s)
                    in line_Step E R (if dt > maxSimStep then maxSimStep else dt) (ss_line s)
               else ss_line s);
          snap = line_Snapshot l
      in (map (\<lambda>tag. \<lparr>re_Tag = tag,
                re_Value = fst (snapshot_Get snap (case ss_tags s tag of None \<Rightarrow> [] | Some sig \<Rightarrow> sig)),
                re_At = now\<rparr>) keys,
          s\<lparr>ss_line := l, ss_last := now\<rparr>))"

section \<open>The CSV replay source\<close>

text \<open>
  An opened CSV file is the list of what \<^verbatim>\<open>Reader.Read\<close> returns until the end of the file: a
  record, or an error text.
\<close>

type_synonym csv_rows = "(string + string list) list"

record csv_source =
  cs_name :: string
  cs_path :: string
  cs_loop :: bool
  cs_columns :: "string \<rightharpoonup> string"
  cs_reader :: "csv_rows option"
  cs_index :: "string \<rightharpoonup> nat"
  cs_done :: bool

definition csv_column :: "tag \<Rightarrow> string" where
  "csv_column t = (case tg_CSV t of None \<Rightarrow> tg_Name t | Some c \<Rightarrow> if ca_Column c \<noteq> [] then ca_Column c else tg_Name t)"

definition NewCSVSource :: "source_def \<Rightarrow> tag_ref list \<Rightarrow> string + csv_source" where
  "NewCSVSource src tags =
     (case so_CSV src of
        None \<Rightarrow> Inl (so_Name src)
      | Some c \<Rightarrow>
          if cv_Path c = [] then Inl (so_Name src)
          else Inr \<lparr>cs_name = so_Name src, cs_path = cv_Path c, cs_loop = cv_Loop c,
                    cs_columns = fold (\<lambda>t m. m(tg_Name (tr_Tag t) \<mapsto> csv_column (tr_Tag t))) tags Map.empty,
                    cs_reader = None, cs_index = Map.empty, cs_done = False\<rparr>)"

datatype csv_error =
    CsvOpen string | CsvHeader string | NoColumn string string | CsvRow string | NoRows
  | ShortRow nat string nat | NotANumber string

definition header_index :: "string list \<Rightarrow> string \<rightharpoonup> nat" where
  "header_index header = fold (\<lambda>(i, h) m. m(TrimSpace h \<mapsto> i)) (enumerate 0 header) Map.empty"

fun missing_column :: "(string \<rightharpoonup> string) \<Rightarrow> (string \<rightharpoonup> nat) \<Rightarrow> string list \<Rightarrow> (string \<times> string) option" where
  "missing_column cols idx [] = None"
| "missing_column cols idx (tag # keys) =
     (case cols tag of
        None \<Rightarrow> missing_column cols idx keys
      | Some col \<Rightarrow> if idx col = None then Some (col, tag) else missing_column cols idx keys)"

text \<open>\<open>file\<close> is what opening the file now would give; \<open>keys\<close> is the order of the map.\<close>

definition csv_open :: "string + csv_rows \<Rightarrow> string list \<Rightarrow> csv_source \<Rightarrow> csv_error option \<times> csv_source" where
  "csv_open file keys s =
     (case file of
        Inl e \<Rightarrow> (Some (CsvOpen e), s)
      | Inr rows \<Rightarrow>
          (case rows of
             [] \<Rightarrow> (Some (CsvHeader ''EOF''), s)
           | Inl e # _ \<Rightarrow> (Some (CsvHeader e), s)
           | Inr header # rest \<Rightarrow>
               (case missing_column (cs_columns s) (header_index header) keys of
                  Some (col, tag) \<Rightarrow> (Some (NoColumn col tag), s)
                | None \<Rightarrow> (None, s\<lparr>cs_reader := Some rest, cs_index := header_index header\<rparr>))))"

text \<open>The readings of a row; a column that is not in the index reads position 0, as a Go map does.\<close>

fun row_readings ::
  "(string \<Rightarrow> float64 option) \<Rightarrow> gotime \<Rightarrow> csv_source \<Rightarrow> string list \<Rightarrow> string list \<Rightarrow> csv_error + reading list" where
  "row_readings pf now s row [] = Inr []"
| "row_readings pf now s row (tag # keys) =
     (let col = (case cs_columns s tag of None \<Rightarrow> [] | Some c \<Rightarrow> c);
          i = (case cs_index s col of None \<Rightarrow> 0 | Some i \<Rightarrow> i)
      in if i \<ge> length row then Inl (ShortRow (length row) col (i + 1))
         else case pf (TrimSpace (row ! i)) of
                None \<Rightarrow> Inl (NotANumber col)
              | Some v \<Rightarrow>
                  (case row_readings pf now s row keys of
                     Inl e \<Rightarrow> Inl e
                   | Inr rs \<Rightarrow> Inr (\<lparr>re_Tag = tag, re_Value = v, re_At = now\<rparr> # rs)))"

text \<open>The part of \<^verbatim>\<open>Read\<close> behind the lazy opening.\<close>

definition csv_next ::
  "(string \<Rightarrow> float64 option) \<Rightarrow> string + csv_rows \<Rightarrow> string list \<Rightarrow> gotime \<Rightarrow> csv_source \<Rightarrow> csv_rows \<Rightarrow> (csv_error + reading list) \<times> csv_source" where
  "csv_next pf file keys now s rows =
     (case rows of
        Inr row # rest \<Rightarrow> (row_readings pf now s row keys, s\<lparr>cs_reader := Some rest\<rparr>)
      | Inl e # rest \<Rightarrow> (Inl (CsvRow e), s\<lparr>cs_reader := Some rest\<rparr>)
      | [] \<Rightarrow>
          let s1 = s\<lparr>cs_reader := None\<rparr>
          in if \<not> cs_loop s then (Inr [], s1\<lparr>cs_done := True\<rparr>)
             else (case csv_open file keys s1 of
                     (Some e, s2) \<Rightarrow> (Inl e, s2)
                   | (None, s2) \<Rightarrow>
                       (case cs_reader s2 of
                          Some (Inr row # rest) \<Rightarrow>
                            (row_readings pf now s2 row keys, s2\<lparr>cs_reader := Some rest\<rparr>)
                        | Some (Inl e # rest) \<Rightarrow> (Inl NoRows, s2\<lparr>cs_reader := Some rest\<rparr>)
                        | _ \<Rightarrow> (Inl NoRows, s2))))"

definition csv_Read ::
  "(string \<Rightarrow> float64 option) \<Rightarrow> string + csv_rows \<Rightarrow> string list \<Rightarrow> gotime \<Rightarrow> csv_source \<Rightarrow> (csv_error + reading list) \<times> csv_source" where
  "csv_Read pf file keys now s =
     (if cs_done s then (Inr [], s)
      else case cs_reader s of
             Some rows \<Rightarrow> csv_next pf file keys now s rows
           | None \<Rightarrow>
               (case csv_open file keys s of
                  (Some e, s1) \<Rightarrow> (Inl e, s1)
                | (None, s1) \<Rightarrow>
                    (case cs_reader s1 of
                       Some rows \<Rightarrow> csv_next pf file keys now s1 rows
                     | None \<Rightarrow> (Inr [], s1))))"

definition csv_Close :: "csv_source \<Rightarrow> csv_source" where
  "csv_Close s = s\<lparr>cs_reader := None\<rparr>"

section \<open>Building a source\<close>

datatype 'r collector = ModbusC "client modbus_source" | SimC "'r sim_source" | CSVC csv_source

datatype new_error = SourceWithoutTags string | BadModbus collect_error | BadSim string | BadCSV string | UnsupportedCollector string

definition collectors_New ::
  "(modbus_tag list \<Rightarrow> modbus_tag list) \<Rightarrow> (int \<Rightarrow> 'r) \<Rightarrow> source_def \<Rightarrow> tag_ref list \<Rightarrow> new_error + 'r collector" where
  "collectors_New sorter new_source src tags =
     (if tags = [] then Inl (SourceWithoutTags (so_Name src))
      else case so_Type src of
             SourceModbus \<Rightarrow> (case NewModbusSource sorter src tags of Inl e \<Rightarrow> Inl (BadModbus e) | Inr c \<Rightarrow> Inr (ModbusC c))
           | SourceSim \<Rightarrow> (case NewSimSource new_source src tags of Inl e \<Rightarrow> Inl (BadSim e) | Inr c \<Rightarrow> Inr (SimC c))
           | SourceCSV \<Rightarrow> (case NewCSVSource src tags of Inl e \<Rightarrow> Inl (BadCSV e) | Inr c \<Rightarrow> Inr (CSVC c))
           | OtherSource ty \<Rightarrow> Inl (UnsupportedCollector ty))"

section \<open>Histories\<close>

text \<open>A cycle that the registry counts: one that was not cut off by the end of the context.\<close>

definition counted :: "poll_result \<Rightarrow> bool" where
  "counted r \<longleftrightarrow> \<not> pr_cancelled_before r \<and> (isl (pr_result r) \<longrightarrow> \<not> pr_cancelled_after r)"

definition poll_many :: "string \<Rightarrow> poll_result list \<Rightarrow> health \<Rightarrow> health" where
  "poll_many name rs h = fold (\<lambda>r h. fst (pollOnce name r h)) rs h"

definition readings_of :: "poll_result \<Rightarrow> nat" where
  "readings_of r = (case pr_result r of Inl _ \<Rightarrow> 0 | Inr xs \<Rightarrow> length xs)"

text \<open>The status that a list of counted cycles describes.\<close>

definition summarizes :: "status \<Rightarrow> poll_result list \<Rightarrow> bool" where
  "summarizes s rs \<longleftrightarrow>
     st_Polls s = int (length rs) \<and>
     st_Failures s = int (length (filter (\<lambda>r. isl (pr_result r)) rs)) \<and>
     st_ConsecutiveFailures s = int (length (takeWhile (\<lambda>r. isl (pr_result r)) (rev rs))) \<and>
     (st_Up s \<longleftrightarrow> rs \<noteq> [] \<and> \<not> isl (pr_result (last rs))) \<and>
     st_Readings s = int (sum_list (map readings_of rs))"

lemma pollOnce_other: "n \<noteq> name \<Longrightarrow> he_status (fst (pollOnce name r h)) n = he_status h n"
  by (auto simp: pollOnce_def health_failure_def health_success_def Let_def split: sum.splits option.splits)

lemma pollOnce_order: "he_order (fst (pollOnce name r h)) = he_order h"
  by (auto simp: pollOnce_def health_failure_def health_success_def Let_def split: sum.splits option.splits)

lemma pollOnce_uncounted: "\<not> counted r \<Longrightarrow> pollOnce name r h = (h, [])"
  by (auto simp: pollOnce_def counted_def Let_def split: sum.splits)

lemma pollOnce_summarizes:
  assumes "he_status h name = Some s" "summarizes s rs" "counted r"
  shows "\<exists>s'. he_status (fst (pollOnce name r h)) name = Some s' \<and> summarizes s' (rs @ [r])"
proof (cases "pr_result r")
  case (Inl e)
  then show ?thesis using assms
    by (auto simp: pollOnce_def counted_def health_failure_def summarizes_def readings_of_def Let_def)
next
  case (Inr xs)
  then show ?thesis using assms
    by (auto simp: pollOnce_def counted_def health_success_def summarizes_def readings_of_def Let_def)
qed

lemma poll_many_summarizes:
  assumes "he_status h name = Some s" "summarizes s os"
  shows "\<exists>s'. he_status (poll_many name rs h) name = Some s' \<and> summarizes s' (os @ filter counted rs)"
  using assms
proof (induction rs arbitrary: h s os)
  case (Cons r rs)
  show ?case
  proof (cases "counted r")
    case True
    from pollOnce_summarizes [OF Cons.prems True] obtain s1
      where "he_status (fst (pollOnce name r h)) name = Some s1" "summarizes s1 (os @ [r])" by blast
    from Cons.IH [OF this] True show ?thesis by (simp add: poll_many_def)
  next
    case False
    with Cons.IH [OF Cons.prems] show ?thesis by (simp add: poll_many_def pollOnce_uncounted)
  qed
qed (simp add: poll_many_def)

lemma poll_many_other: "n \<noteq> name \<Longrightarrow> he_status (poll_many name rs h) n = he_status h n"
  by (induction rs arbitrary: h) (simp_all add: poll_many_def pollOnce_other)

fun csv_polls ::
  "(string \<Rightarrow> float64 option) \<Rightarrow> string + csv_rows \<Rightarrow> string list \<Rightarrow> gotime list \<Rightarrow> csv_source \<Rightarrow> (csv_error + reading list) list" where
  "csv_polls pf file keys [] s = []"
| "csv_polls pf file keys (t # ts) s =
     (case csv_Read pf file keys t s of (r, s') \<Rightarrow> r # csv_polls pf file keys ts s')"

lemma csv_polls_done: "cs_done s \<Longrightarrow> csv_polls pf file keys ts s = replicate (length ts) (Inr [])"
  by (induction ts) (simp_all add: csv_Read_def)

lemma row_readings_cong:
  "cs_columns s = cs_columns s' \<Longrightarrow> cs_index s = cs_index s' \<Longrightarrow> row_readings pf t s row keys = row_readings pf t s' row keys"
  by (induction keys) (simp_all add: Let_def cong: option.case_cong)

lemma map_upt_Suc_hd: "map f [0..<Suc n] = f 0 # map (\<lambda>k. f (Suc k)) [0..<n]"
  by (simp add: upt_conv_Cons map_Suc_upt [symmetric] comp_def del: upt_Suc)

text \<open>A source inside the file, \<open>j\<close> rows behind the header.\<close>

definition csv_at :: "(string \<rightharpoonup> string) \<Rightarrow> string list \<Rightarrow> string list list \<Rightarrow> nat \<Rightarrow> csv_source \<Rightarrow> bool" where
  "csv_at cols header rows j s \<longleftrightarrow> cs_columns s = cols \<and> cs_index s = header_index header \<and> \<not> cs_done s \<and>
     cs_reader s = Some (map Inr (drop j rows))"

lemma csv_Read_at:
  assumes "csv_at cols header rows j s" "rows \<noteq> []" "missing_column cols (header_index header) keys = None" "j \<le> length rows"
    and "cs_loop s \<or> j < length rows"
  shows "\<exists>s'. csv_Read pf (Inr (Inr header # map Inr rows)) keys t s = (row_readings pf t s (rows ! (j mod length rows)) keys, s') \<and>
    csv_at cols header rows (Suc (j mod length rows)) s' \<and> cs_loop s' = cs_loop s"
proof (cases "j < length rows")
  case True
  then have d: "drop j rows = rows ! j # drop (Suc j) rows" by (simp add: Cons_nth_drop_Suc)
  show ?thesis using assms(1) True by (simp add: csv_Read_def csv_next_def d csv_at_def)
next
  case False
  then have j: "j = length rows" and l: "cs_loop s" using assms(4,5) by simp_all
  obtain row rest where rows: "rows = row # rest" using assms(2) by (cases rows) auto
  have "row_readings pf t (s\<lparr>cs_reader := Some (map Inr (row # rest)), cs_index := header_index header\<rparr>) row keys = row_readings pf t s row keys"
    using assms(1) by (intro row_readings_cong) (simp_all add: csv_at_def)
  then show ?thesis
    using assms(1,3) l by (simp add: csv_Read_def csv_next_def csv_open_def csv_at_def j rows)
qed

lemma csv_polls_from:
  assumes "csv_at cols header rows j s" "rows \<noteq> []" "missing_column cols (header_index header) keys = None" "j \<le> length rows"
    and "cs_columns s0 = cols" "cs_index s0 = header_index header"
  shows "csv_polls pf (Inr (Inr header # map Inr rows)) keys ts s =
    map (\<lambda>k. if cs_loop s \<or> j + k < length rows then row_readings pf (ts ! k) s0 (rows ! ((j + k) mod length rows)) keys
             else Inr []) [0..<length ts]"
  using assms(1,4)
proof (induction ts arbitrary: s j)
  case (Cons t ts)
  let ?file = "Inr (Inr header # map Inr rows)" and ?n = "length rows"
  show ?case
  proof (cases "cs_loop s \<or> j < ?n")
    case True
    obtain s' where r: "csv_Read pf ?file keys t s = (row_readings pf t s (rows ! (j mod ?n)) keys, s')"
      and s': "csv_at cols header rows (Suc (j mod ?n)) s'" "cs_loop s' = cs_loop s"
      using csv_Read_at [OF Cons.prems(1) assms(2,3) Cons.prems(2) True] by blast
    have c: "row_readings pf t s row keys = row_readings pf t s0 row keys" for row
      using Cons.prems(1) assms(5,6) by (intro row_readings_cong) (simp_all add: csv_at_def)
    have lt: "j mod ?n < ?n" using assms(2) by simp
    have k1: "(cs_loop s \<or> Suc (j mod ?n) + k < ?n) = (cs_loop s \<or> j + Suc k < ?n)" for k
      using True by auto
    have k2: "(Suc (j mod ?n) + k) mod ?n = (j + Suc k) mod ?n" for k
      using mod_add_left_eq [of j ?n "Suc k"] by simp
    have "csv_polls pf ?file keys ts s' = map (\<lambda>k. if cs_loop s \<or> j + Suc k < ?n
        then row_readings pf (ts ! k) s0 (rows ! ((j + Suc k) mod ?n)) keys else Inr []) [0..<length ts]"
      using Cons.IH [OF s'(1)] lt unfolding s'(2) k1 k2 by simp
    then show ?thesis
      using True by (simp add: r c map_upt_Suc_hd del: upt_Suc)
  next
    case False
    then have "csv_Read pf ?file keys t s = (Inr [], s\<lparr>cs_reader := None, cs_done := True\<rparr>)"
      using Cons.prems by (simp add: csv_Read_def csv_next_def csv_at_def)
    then show ?thesis
      using False by (simp add: csv_polls_done map_replicate_const map_upt_Suc_hd del: upt_Suc)
  qed
qed simp

section \<open>Properties\<close>

text \<open>
  C28: the health registry reports the history. After any sequence of poll cycles of a registered
  source, its status counts the cycles that were not cut off by shutdown, the failures
  among them, the failures since the last success and the readings delivered, and it is
  up exactly when the last counted cycle succeeded; the other sources are untouched.
\<close>

theorem health_equals_history:
  "let h = poll_many name rs (health_Register name typ h0); os = filter counted rs
   in (\<exists>s. health_Get h name = Some s \<and>
         st_Polls s = int (length os) \<and>
         st_Failures s = int (length (filter (\<lambda>r. isl (pr_result r)) os)) \<and>
         st_ConsecutiveFailures s = int (length (takeWhile (\<lambda>r. isl (pr_result r)) (rev os))) \<and>
         (st_Up s \<longleftrightarrow> os \<noteq> [] \<and> \<not> isl (pr_result (last os))) \<and>
         st_Readings s = int (sum_list (map readings_of os))) \<and>
      (\<forall>n. n = name \<or> health_Get h n = health_Get h0 n)"
proof -
  have "he_status (health_Register name typ h0) name = Some (new_status name typ)"
    by (simp add: health_Register_def Let_def)
  moreover have "summarizes (new_status name typ) []" by (simp add: summarizes_def new_status_def)
  ultimately have "\<exists>s. he_status (poll_many name rs (health_Register name typ h0)) name = Some s \<and> summarizes s (filter counted rs)"
    using poll_many_summarizes [of _ name "new_status name typ" "[]" rs] by fastforce
  moreover have "he_status (poll_many name rs (health_Register name typ h0)) n = he_status h0 n" if "n \<noteq> name" for n
    using that by (simp add: poll_many_other health_Register_def Let_def)
  ultimately show ?thesis by (auto simp: Let_def health_Get_def summarizes_def)
qed

text \<open>
  Replay of a CSV file. A source that has not been read yet and whose columns are all in the
  header delivers row after row, one per poll; behind the last row a looping source starts
  again with the first, and one that does not loop delivers nothing any more, so that its tags
  go stale. A row that cannot be read is one failed poll and the next poll goes on behind it.
\<close>

theorem csv_replay_order:
  assumes "cs_reader s = None" "\<not> cs_done s" "rows \<noteq> []" "missing_column (cs_columns s) (header_index header) keys = None"
  shows "csv_polls pf (Inr (Inr header # map Inr rows)) keys ts s =
    map (\<lambda>k. if cs_loop s \<or> k < length rows
             then row_readings pf (ts ! k) (s\<lparr>cs_index := header_index header\<rparr>) (rows ! (k mod length rows)) keys
             else Inr []) [0..<length ts]"
proof -
  let ?s1 = "s\<lparr>cs_reader := Some (map Inr rows), cs_index := header_index header\<rparr>"
  let ?s0 = "\<lparr>cs_name = [], cs_path = [], cs_loop = False, cs_columns = cs_columns s, cs_reader = None,
     cs_index = header_index header, cs_done = False\<rparr>"
  have "csv_Read pf (Inr (Inr header # map Inr rows)) keys t s = csv_Read pf (Inr (Inr header # map Inr rows)) keys t ?s1" for t
    using assms by (simp add: csv_Read_def csv_open_def)
  then have "csv_polls pf (Inr (Inr header # map Inr rows)) keys ts s = csv_polls pf (Inr (Inr header # map Inr rows)) keys ts ?s1"
    by (cases ts) simp_all
  moreover have "row_readings pf t (s\<lparr>cs_index := header_index header\<rparr>) row keys = row_readings pf t ?s0 row keys" for t row
    by (intro row_readings_cong) simp_all
  ultimately show ?thesis
    using csv_polls_from [of "cs_columns s" header rows 0 ?s1 keys ?s0 pf ts] assms by (simp add: csv_at_def)
qed

definition sample_csv :: csv_source where
  "sample_csv = \<lparr>cs_name = ''replay'', cs_path = ''f.csv'', cs_loop = True, cs_columns = [''speed'' \<mapsto> ''v''],
     cs_reader = None, cs_index = Map.empty, cs_done = False\<rparr>"

definition parse_small :: "string \<Rightarrow> float64 option" where
  "parse_small s = (case ParseInt s of None \<Rightarrow> None | Some n \<Rightarrow> Some (Fin (of_int n)))"

theorem csv_replay_order_witness:
  "csv_polls parse_small (Inr [Inr [''t'', '' v''], Inr [''x'', ''1''], Inr [''y'', ''2 '']]) [''speed''] [10, 20, 30] sample_csv =
   [Inr [\<lparr>re_Tag = ''speed'', re_Value = Fin 1, re_At = 10\<rparr>], Inr [\<lparr>re_Tag = ''speed'', re_Value = Fin 2, re_At = 20\<rparr>],
    Inr [\<lparr>re_Tag = ''speed'', re_Value = Fin 1, re_At = 30\<rparr>]]"
proof -
  have h: "header_index [''t'', '' v''] = [''t'' \<mapsto> 0, ''v'' \<mapsto> 1]"
    by (simp add: header_index_def TrimSpace_def is_space_def)
  have n: "TrimSpace ''1'' = ''1''" "TrimSpace ''2 '' = ''2''" "parse_small ''1'' = Some (Fin 1)" "parse_small ''2'' = Some (Fin 2)"
    by (simp_all add: TrimSpace_def is_space_def parse_small_def ParseInt_def ParseUint_def digit_of_def Let_def)
  have "csv_polls parse_small (Inr (Inr [''t'', '' v''] # map Inr [[''x'', ''1''], [''y'', ''2 '']])) [''speed''] [10, 20, 30] sample_csv =
    map (\<lambda>k. if cs_loop sample_csv \<or> k < length [[''x'', ''1''], [''y'', ''2 '']]
             then row_readings parse_small ([10, 20, 30] ! k) (sample_csv\<lparr>cs_index := header_index [''t'', '' v'']\<rparr>)
               ([[''x'', ''1''], [''y'', ''2 '']] ! (k mod length [[''x'', ''1''], [''y'', ''2 '']])) [''speed'']
             else Inr []) [0..<length [10, 20, 30 :: gotime]]"
    by (rule csv_replay_order) (simp_all add: sample_csv_def h)
  then show ?thesis by (simp add: sample_csv_def h n upt_rec)
qed

end
