(* ===== verification/Edge_Latest.thy ===== *)
theory Edge_Latest
  imports Uns_Payload "HOL-Library.AList" "HOL-Library.List_Lexorder" "HOL-Library.Char_ord"
begin

text \<open>
  The last-value cache of the edge node, \<^verbatim>\<open>internal/edge/latest.go\<close>. The tags of one asset
  are an association list (in the code a map, whose order \<^verbatim>\<open>Asset\<close> replaces by sorting).
  The incremental counters per quality are shown to count the cached values.
\<close>

record latest =
  la_byAsset :: "string \<rightharpoonup> (string \<times> metric) list"
  la_byTopic :: "string \<rightharpoonup> metric"
  la_counts :: "quality \<Rightarrow> int"

definition NewLatest :: latest where
  "NewLatest = \<lparr>la_byAsset = Map.empty, la_byTopic = Map.empty, la_counts = (\<lambda>_. 0)\<rparr>"

text \<open>Returns the previous quality, if there was a value.\<close>

definition latest_Set :: "string \<Rightarrow> metric \<Rightarrow> latest \<Rightarrow> quality option \<times> latest" where
  "latest_Set aid m l =
     (let tags = (case la_byAsset l aid of None \<Rightarrow> [] | Some ts \<Rightarrow> ts);
          old = map_of tags (me_Name m);
          c = (case old of None \<Rightarrow> la_counts l
               | Some o1 \<Rightarrow> (la_counts l)(me_Quality o1 := la_counts l (me_Quality o1) - 1))
      in (map_option me_Quality old,
          \<lparr>la_byAsset = (la_byAsset l)(aid \<mapsto> AList.update (me_Name m) m tags),
           la_byTopic = (la_byTopic l)(me_Topic m \<mapsto> m),
           la_counts = c(me_Quality m := c (me_Quality m) + 1)\<rparr>))"

definition latest_Asset :: "latest \<Rightarrow> string \<Rightarrow> metric list option" where
  "latest_Asset l aid = map_option (\<lambda>ts. sort_key me_Name (map snd ts)) (la_byAsset l aid)"

definition latest_Topic :: "latest \<Rightarrow> string \<Rightarrow> metric option" where
  "latest_Topic l tp = la_byTopic l tp"

definition latest_Counts :: "latest \<Rightarrow> quality \<Rightarrow> int" where
  "latest_Counts l = la_counts l"

section \<open>The cache as a map from asset and tag\<close>

definition cached :: "latest \<Rightarrow> string \<times> string \<rightharpoonup> metric" where
  "cached l k = (case la_byAsset l (fst k) of None \<Rightarrow> None | Some ts \<Rightarrow> map_of ts (snd k))"

definition set_many :: "(string \<times> metric) list \<Rightarrow> latest \<Rightarrow> latest" where
  "set_many xs l = fold (\<lambda>(aid, m) l. snd (latest_Set aid m l)) xs l"

lemma cached_Set: "cached (snd (latest_Set aid m l)) = (cached l)((aid, me_Name m) \<mapsto> m)"
  by (rule ext) (auto simp: cached_def latest_Set_def Let_def update_conv' split: option.splits)

lemma prev_Set: "fst (latest_Set aid m l) = map_option me_Quality (cached l (aid, me_Name m))"
  by (auto simp: cached_def latest_Set_def Let_def split: option.splits)

definition cached_quality :: "latest \<Rightarrow> string \<times> string \<rightharpoonup> quality" where
  "cached_quality l k = map_option me_Quality (cached l k)"

definition counts_ok :: "latest \<Rightarrow> bool" where
  "counts_ok l \<longleftrightarrow> finite (dom (cached_quality l)) \<and> (\<forall>q. la_counts l q = int (card {k. cached_quality l k = Some q}))"

lemma card_upd:
  assumes "finite (dom f)"
  shows "int (card {k. (f(a \<mapsto> x)) k = Some q}) =
    int (card {k. f k = Some q}) - (if f a = Some q then 1 else 0) + (if x = q then 1 else 0)"
proof -
  have fin: "finite {k. f k = Some q}" using assms by (rule finite_subset [rotated]) auto
  have "{k. (f(a \<mapsto> x)) k = Some q} = (if x = q then insert a ({k. f k = Some q} - {a}) else {k. f k = Some q} - {a})"
    by auto
  then show ?thesis
    using fin card_Suc_Diff1 [OF fin, of a] by (auto simp: card_insert_if)
qed

lemma cached_quality_Set:
  "cached_quality (snd (latest_Set aid m l)) = (cached_quality l)((aid, me_Name m) \<mapsto> me_Quality m)"
  by (rule ext) (simp add: cached_quality_def cached_Set)

lemma counts_Set:
  "la_counts (snd (latest_Set aid m l)) q =
     la_counts l q - (if cached_quality l (aid, me_Name m) = Some q then 1 else 0) + (if me_Quality m = q then 1 else 0)"
  by (auto simp: latest_Set_def Let_def cached_quality_def cached_def split: option.splits)

lemma Set_counts_ok: "counts_ok l \<Longrightarrow> counts_ok (snd (latest_Set aid m l))"
  unfolding counts_ok_def cached_quality_Set counts_Set by (auto simp: card_upd simp del: fun_upd_apply)

lemma set_many_counts_ok: "counts_ok l \<Longrightarrow> counts_ok (set_many xs l)"
  by (induction xs arbitrary: l) (auto simp: set_many_def Set_counts_ok)

lemma cached_set_many: "cached (set_many xs l) = cached l ++ map_of (rev (map (\<lambda>(a, m). ((a, me_Name m), m)) xs))"
  by (induction xs arbitrary: l) (auto simp: set_many_def cached_Set simp del: fun_upd_apply)

lemma topic_set_many: "la_byTopic (set_many xs l) = la_byTopic l ++ map_of (rev (map (\<lambda>(a, m). (me_Topic m, m)) xs))"
  by (induction xs arbitrary: l) (auto simp: set_many_def latest_Set_def Let_def simp del: fun_upd_apply)

section \<open>Properties\<close>

text \<open>
  C27: the cache after any sequence of updates. The value of a tag of an asset is the last one
  stored for them, the value of a topic the last one stored with that topic, and the
  number reported for a quality is the number of cached tags with that quality, however
  often tags changed between qualities.
\<close>

theorem latest_counts_exact:
  "let l = set_many xs NewLatest; m = map_of (rev (map (\<lambda>(a, m). ((a, me_Name m), m)) xs))
   in cached l = m \<and>
      (\<forall>tp. latest_Topic l tp = map_of (rev (map (\<lambda>(a, m). (me_Topic m, m)) xs)) tp) \<and>
      (\<forall>q. latest_Counts l q = int (card {k. map_option me_Quality (m k) = Some q}))"
proof -
  have c0: "cached NewLatest = Map.empty" by (rule ext) (simp add: cached_def NewLatest_def)
  have "counts_ok NewLatest" by (simp add: counts_ok_def cached_quality_def c0 dom_def) (simp add: NewLatest_def)
  then have "counts_ok (set_many xs NewLatest)" by (rule set_many_counts_ok)
  moreover have "cached (set_many xs NewLatest) = map_of (rev (map (\<lambda>(a, m). ((a, me_Name m), m)) xs))"
    by (simp add: cached_set_many c0)
  moreover have "la_byTopic (set_many xs NewLatest) = map_of (rev (map (\<lambda>(a, m). (me_Topic m, m)) xs))"
    by (simp add: topic_set_many NewLatest_def)
  ultimately show ?thesis by (simp add: Let_def counts_ok_def cached_quality_def latest_Topic_def latest_Counts_def)
qed

end
