(* ===== verification/Edge_Node.thy ===== *)
theory Edge_Node
  imports Collectors Edge_Latest Quality_Rules Ports
begin

text \<open>
  The edge pipeline, \<^verbatim>\<open>internal/edge/node.go\<close>: building the node from a validated plant, the
  observer calls of the pollers (\<^verbatim>\<open>OnReadings\<close>, \<^verbatim>\<open>OnError\<close>), the staleness check, BIRTH and
  DEATH, and publishing. Each handler has the two parts of the code: the messages are made
  under the mutex, then published without it. \<^verbatim>\<open>json.Marshal\<close>, the broker and the value of a
  float-to-integer conversion that does not fit (which Go leaves open) are parameters;
  metrics and log lines are left out. A result \<open>None\<close> is a nil-pointer panic.
\<close>

section \<open>State\<close>

record edge_config =
  ec_StaleCheckInterval :: duration
  ec_DeathTimeout :: duration

definition edge_defaults :: "edge_config \<Rightarrow> edge_config" where
  "edge_defaults c0 =
     (let c1 = (if ec_StaleCheckInterval c0 \<le> 0 then c0\<lparr>ec_StaleCheckInterval := seconds 1\<rparr> else c0)
      in if ec_DeathTimeout c1 \<le> 0 then c1\<lparr>ec_DeathTimeout := seconds 2\<rparr> else c1)"

record 'r source_run =
  sr_def :: source_def
  sr_src :: "'r collector"
  sr_tags :: "(string \<times> tag_ref) list"
  sr_seq :: sequencer

record ('r, 'b) node =
  nd_cfg :: edge_config
  nd_idx :: plant_index
  nd_broker :: 'b
  nd_health :: health
  nd_latest :: latest
  nd_sources :: "string \<rightharpoonup> 'r source_run"
  nd_order :: "string list"
  nd_evals :: "string \<rightharpoonup> evaluator"

record 'b broker_ops =
  bk_Publish :: "bool \<Rightarrow> message \<Rightarrow> 'b \<Rightarrow> port_error option \<times> 'b"

record edge_env =
  en_marshal :: "payload \<Rightarrow> byte list option"
  en_unrep :: "float64 \<Rightarrow> int"

section \<open>Building the node\<close>

definition tag_quality_config :: "plant \<Rightarrow> tag \<Rightarrow> duration \<Rightarrow> quality_config" where
  "tag_quality_config p t poll =
     (let q = EffectiveQuality p t poll;
          c = \<lparr>StaleAfter = qd_StaleAfter q, FlatlineAfter = qd_FlatlineAfter q, FlatlineMinSamples = qd_FlatlineMinSamples q,
               HasRange = False, RangeMin = Fin 0, RangeMax = Fin 0, Epsilon = Fin 0\<rparr>
      in case tg_Range t of
           None \<Rightarrow> c
         | Some r \<Rightarrow> c\<lparr>HasRange := True, RangeMin := rg_Min r, RangeMax := rg_Max r\<rparr>)"

definition source_type_String :: "source_type \<Rightarrow> string" where
  "source_type_String t =
     (case t of SourceModbus \<Rightarrow> ''modbus'' | SourceSim \<Rightarrow> ''sim'' | SourceCSV \<Rightarrow> ''csv'' | OtherSource s \<Rightarrow> s)"

definition add_tag ::
  "plant \<Rightarrow> source_def \<Rightarrow> tag_ref \<Rightarrow> 'r source_run \<times> (string \<rightharpoonup> evaluator) \<Rightarrow> 'r source_run \<times> (string \<rightharpoonup> evaluator)" where
  "add_tag p def t x =
     (case x of (run, evals) \<Rightarrow>
        (run\<lparr>sr_tags := AList.update (tg_Name (tr_Tag t)) t (sr_tags run)\<rparr>,
         evals(tr_key t \<mapsto> quality_New (tag_quality_config p (tr_Tag t) (so_PollInterval def)))))"

text \<open>The loop over the sources of the plant.\<close>

fun add_sources ::
  "(modbus_tag list \<Rightarrow> modbus_tag list) \<Rightarrow> (int \<Rightarrow> 'r) \<Rightarrow> source_def list \<Rightarrow> ('r, 'b) node \<Rightarrow> (string \<times> new_error) + ('r, 'b) node" where
  "add_sources sorter new_source [] n = Inr n"
| "add_sources sorter new_source (def # defs) n =
     (let tags = TagsForSource (nd_idx n) (so_Name def)
      in if tags = [] then add_sources sorter new_source defs n
         else case collectors_New sorter new_source def tags of
                Inl e \<Rightarrow> Inl (so_Name def, e)
              | Inr src \<Rightarrow>
                  let (run, evals) = fold (add_tag (ix_plant (nd_idx n)) def) tags
                        (\<lparr>sr_def = def, sr_src = src, sr_tags = [], sr_seq = \<lparr>sq_next = 0\<rparr>\<rparr>, nd_evals n)
                  in add_sources sorter new_source defs
                       (n\<lparr>nd_evals := evals, nd_sources := (nd_sources n)(so_Name def \<mapsto> run),
                          nd_order := nd_order n @ [so_Name def],
                          nd_health := health_Register (so_Name def) (source_type_String (so_Type def)) (nd_health n)\<rparr>))"

datatype node_error = BuildSource string new_error | NoSourcesWithTags

definition edge_New ::
  "(modbus_tag list \<Rightarrow> modbus_tag list) \<Rightarrow> (int \<Rightarrow> 'r) \<Rightarrow> edge_config \<Rightarrow> plant_index \<Rightarrow> 'b \<Rightarrow> health \<Rightarrow> node_error + ('r, 'b) node" where
  "edge_New sorter new_source cfg idx broker health =
     (case add_sources sorter new_source (pt_Sources (ix_plant idx))
             \<lparr>nd_cfg = edge_defaults cfg, nd_idx = idx, nd_broker = broker, nd_health = health, nd_latest = NewLatest,
              nd_sources = Map.empty, nd_order = [], nd_evals = Map.empty\<rparr> of
        Inl (name, e) \<Rightarrow> Inl (BuildSource name e)
      | Inr n \<Rightarrow> if nd_order n = [] then Inl NoSourcesWithTags else Inr n)"

section \<open>Messages\<close>

definition node_metric :: "tag_ref \<Rightarrow> string \<Rightarrow> metric_value \<Rightarrow> gotime \<Rightarrow> verdict \<Rightarrow> metric" where
  "node_metric tr source value at0 v =
     (let a = ar_Asset (tr_Ref tr); t = tr_Tag tr;
          ctx = \<lparr>cx_AssetID = as_ID a, cx_AssetClass = as_Class a, cx_Unit = tg_Unit t,
                 cx_EngLow = map_option rg_Min (tg_Range t), cx_EngHigh = map_option rg_Max (tg_Range t),
                 cx_Source = source, cx_Description = tg_Description t,
                 cx_QualityRule = (if v_Quality v \<noteq> QualityGood then rule_String (v_Rule v) else [])\<rparr>
      in \<lparr>me_Name = tg_Name t, me_Timestamp = at0, me_DataType = tg_DataType t, me_Value = value,
          me_Quality = v_Quality v, me_Topic = tr_key tr, me_Context = ctx\<rparr>)"

definition to_int64 :: "edge_env \<Rightarrow> float64 \<Rightarrow> int" where
  "to_int64 env v =
     (if fl_finite v \<and> - (2 ^ 63) \<le> fl_to_int v \<and> fl_to_int v < 2 ^ 63 then fl_to_int v else en_unrep env v)"

definition to_uint64 :: "edge_env \<Rightarrow> float64 \<Rightarrow> nat" where
  "to_uint64 env v = (if fl_finite v \<and> 0 \<le> fl_to_int v \<and> fl_to_int v < 2 ^ 64 then nat (fl_to_int v) else nat (en_unrep env v))"

definition castValue :: "edge_env \<Rightarrow> string \<Rightarrow> float64 \<Rightarrow> metric_value" where
  "castValue env dt v =
     (if dt = ''Int16'' \<or> dt = ''Int32'' then Int64Val (to_int64 env v)
      else if dt = ''UInt16'' \<or> dt = ''UInt32''
      then (if fl_less v (Fin 0) then Int64Val (to_int64 env v) else Uint64Val (to_uint64 env v))
      else if dt = ''Boolean'' then BoolVal (\<not> fl_eq v (Fin 0))
      else if dt = ''Float'' then Float32Val (fl_to32 v)
      else Float64Val v)"

definition sortedKeys :: "(string \<times> tag_ref) list \<Rightarrow> string list" where
  "sortedKeys m = sort (map fst m)"

record outgoing =
  og_tr :: tag_ref
  og_msg :: message
  og_m :: metric
  og_verd :: verdict

text \<open>
  The common tail of the handlers for one tag: number, encode, queue. An encoding error
  skips the message, with its sequence number used up.
\<close>

definition emit ::
  "edge_env \<Rightarrow> string \<Rightarrow> tag_ref \<Rightarrow> metric_value \<Rightarrow> gotime \<Rightarrow> verdict \<Rightarrow> 'r source_run \<Rightarrow> outgoing list \<times> 'r source_run" where
  "emit env source tr value at0 verd run =
     (let m = node_metric tr source value at0 verd;
          (seq, sq) = sequencer_Next (sr_seq run);
          p = \<lparr>pl_Type = DataMsg, pl_Timestamp = at0, pl_Seq = seq, pl_Node = source, pl_Metrics = [m]\<rparr>;
          run' = run\<lparr>sr_seq := sq\<rparr>
      in case en_marshal env p of
           None \<Rightarrow> ([], run')
         | Some body \<Rightarrow>
             ([\<lparr>og_tr = tr, og_msg = \<lparr>m_topic = tr_key tr, m_payload = body, m_retain = True, m_at = at0\<rparr>,
                og_m = m, og_verd = verd\<rparr>], run'))"

fun readings_loop ::
  "edge_env \<Rightarrow> gotime \<Rightarrow> string \<Rightarrow> reading list \<Rightarrow> 'r source_run \<Rightarrow> (string \<rightharpoonup> evaluator)
     \<Rightarrow> (outgoing list \<times> 'r source_run \<times> (string \<rightharpoonup> evaluator)) option" where
  "readings_loop env now source [] run evals = Some ([], run, evals)"
| "readings_loop env now source (r # rs) run evals =
     (case map_of (sr_tags run) (re_Tag r) of
        None \<Rightarrow> readings_loop env now source rs run evals
      | Some tr \<Rightarrow>
          (case evals (tr_key tr) of
             None \<Rightarrow> None
           | Some ev \<Rightarrow>
               let at0 = (if re_At r = zero_time then now else re_At r);
                   value = scale_Apply (tg_Scale (tr_Tag tr)) (re_Value r);
                   (verd, ev1) = Observe value at0 ev;
                   (o1, run1) = emit env source tr (castValue env (tg_DataType (tr_Tag tr)) value) at0 verd run
               in (case readings_loop env now source rs run1 (evals(tr_key tr \<mapsto> ev1)) of
                     None \<Rightarrow> None
                   | Some (os, x) \<Rightarrow> Some (o1 @ os, x))))"

definition last_value :: "edge_env \<Rightarrow> tag \<Rightarrow> evaluator \<Rightarrow> metric_value" where
  "last_value env t ev =
     (case quality_Last ev of (v, _, ok) \<Rightarrow> if ok then castValue env (tg_DataType t) v else NoValue)"

fun error_loop ::
  "edge_env \<Rightarrow> gotime \<Rightarrow> string \<Rightarrow> string \<Rightarrow> string list \<Rightarrow> 'r source_run \<Rightarrow> (string \<rightharpoonup> evaluator)
     \<Rightarrow> (outgoing list \<times> 'r source_run \<times> (string \<rightharpoonup> evaluator)) option" where
  "error_loop env now source err [] run evals = Some ([], run, evals)"
| "error_loop env now source err (name # names) run evals =
     (case map_of (sr_tags run) name of
        None \<Rightarrow> None
      | Some tr \<Rightarrow>
          (case evals (tr_key tr) of
             None \<Rightarrow> None
           | Some ev \<Rightarrow>
               if v_Quality (quality_Current ev) = QualityBad then error_loop env now source err names run evals
               else let (verd, ev1) = Comm (Some err) ev;
                        (o1, run1) = emit env source tr (last_value env (tr_Tag tr) ev1) now verd run
                    in (case error_loop env now source err names run1 (evals(tr_key tr \<mapsto> ev1)) of
                          None \<Rightarrow> None
                        | Some (os, x) \<Rightarrow> Some (o1 @ os, x))))"

fun stale_loop ::
  "edge_env \<Rightarrow> gotime \<Rightarrow> string \<Rightarrow> string list \<Rightarrow> 'r source_run \<Rightarrow> (string \<rightharpoonup> evaluator)
     \<Rightarrow> (outgoing list \<times> 'r source_run \<times> (string \<rightharpoonup> evaluator)) option" where
  "stale_loop env now source [] run evals = Some ([], run, evals)"
| "stale_loop env now source (name # names) run evals =
     (case map_of (sr_tags run) name of
        None \<Rightarrow> None
      | Some tr \<Rightarrow>
          (case evals (tr_key tr) of
             None \<Rightarrow> None
           | Some ev \<Rightarrow>
               let ((verd, changed), ev1) = Check now ev
               in if \<not> changed then stale_loop env now source names run evals
                  else let (o1, run1) = emit env source tr (last_value env (tr_Tag tr) ev1) now verd run
                       in (case stale_loop env now source names run1 (evals(tr_key tr \<mapsto> ev1)) of
                             None \<Rightarrow> None
                           | Some (os, x) \<Rightarrow> Some (o1 @ os, x))))"

section \<open>Publishing\<close>

fun publishAll :: "'b broker_ops \<Rightarrow> bool \<Rightarrow> outgoing list \<Rightarrow> ('r, 'b) node \<Rightarrow> ('r, 'b) node" where
  "publishAll B cancelled [] n = n"
| "publishAll B cancelled (o1 # os) n =
     (let l = snd (latest_Set (as_ID (ar_Asset (tr_Ref (og_tr o1)))) (og_m o1) (nd_latest n));
          b = snd (bk_Publish B cancelled (og_msg o1) (nd_broker n))
      in publishAll B cancelled os (n\<lparr>nd_broker := b, nd_latest := l\<rparr>))"

text \<open>The part of a handler under the mutex, for one source.\<close>

definition locked ::
  "string \<Rightarrow> ('r source_run \<Rightarrow> (string \<rightharpoonup> evaluator) \<Rightarrow> (outgoing list \<times> 'r source_run \<times> (string \<rightharpoonup> evaluator)) option)
     \<Rightarrow> ('r, 'b) node \<Rightarrow> (outgoing list \<times> ('r, 'b) node) option" where
  "locked source f n =
     (case nd_sources n source of
        None \<Rightarrow> Some ([], n)
      | Some run \<Rightarrow>
          (case f run (nd_evals n) of
             None \<Rightarrow> None
           | Some (os, run', evals') \<Rightarrow>
               Some (os, n\<lparr>nd_sources := (nd_sources n)(source \<mapsto> run'), nd_evals := evals'\<rparr>)))"

definition make_readings where
  "make_readings env now source rs = locked source (\<lambda>run evals. readings_loop env now source rs run evals)"

definition make_errors where
  "make_errors env now source err =
     locked source (\<lambda>run evals. error_loop env now source err (sortedKeys (sr_tags run)) run evals)"

fun make_stale :: "edge_env \<Rightarrow> gotime \<Rightarrow> string list \<Rightarrow> ('r, 'b) node \<Rightarrow> (outgoing list \<times> ('r, 'b) node) option" where
  "make_stale env now [] n = Some ([], n)"
| "make_stale env now (name # names) n =
     (if nd_sources n name = None then None
      else case locked name (\<lambda>run evals. stale_loop env now name (sortedKeys (sr_tags run)) run evals) n of
             None \<Rightarrow> None
           | Some (os, n1) \<Rightarrow>
               (case make_stale env now names n1 of None \<Rightarrow> None | Some (os', n2) \<Rightarrow> Some (os @ os', n2)))"

definition node_OnReadings ::
  "'b broker_ops \<Rightarrow> edge_env \<Rightarrow> gotime \<Rightarrow> bool \<Rightarrow> string \<Rightarrow> reading list \<Rightarrow> ('r, 'b) node \<Rightarrow> ('r, 'b) node option" where
  "node_OnReadings B env now cancelled source rs n =
     (if nd_sources n source = None \<or> rs = [] then Some n
      else map_option (\<lambda>(os, n1). publishAll B cancelled os n1) (make_readings env now source rs n))"

definition node_OnError ::
  "'b broker_ops \<Rightarrow> edge_env \<Rightarrow> gotime \<Rightarrow> bool \<Rightarrow> string \<Rightarrow> string \<Rightarrow> ('r, 'b) node \<Rightarrow> ('r, 'b) node option" where
  "node_OnError B env now cancelled source err n =
     (if nd_sources n source = None then Some n
      else map_option (\<lambda>(os, n1). publishAll B cancelled os n1) (make_errors env now source err n))"

definition checkStale ::
  "'b broker_ops \<Rightarrow> edge_env \<Rightarrow> gotime \<Rightarrow> bool \<Rightarrow> ('r, 'b) node \<Rightarrow> ('r, 'b) node option" where
  "checkStale B env now cancelled n =
     map_option (\<lambda>(os, n1). publishAll B cancelled os n1) (make_stale env now (nd_order n) n)"

section \<open>Birth and death\<close>

datatype publish_error = MarshalFailed | PublishFailed port_error

definition birth_metric ::
  "gotime \<Rightarrow> 'r source_run \<Rightarrow> (string \<rightharpoonup> evaluator) \<Rightarrow> string \<Rightarrow> metric option" where
  "birth_metric now run evals name =
     (case map_of (sr_tags run) name of
        None \<Rightarrow> None
      | Some tr \<Rightarrow>
          (case evals (tr_key tr) of
             None \<Rightarrow> None
           | Some ev \<Rightarrow>
               let m = node_metric tr (so_Name (sr_def run)) NoValue now (quality_Current ev)
               in (case quality_Last ev of
                     (v, at0, ok) \<Rightarrow> Some (if ok then m\<lparr>me_Value := Float64Val v, me_Timestamp := at0\<rparr> else m))))"

definition publishLifecycle ::
  "'b broker_ops \<Rightarrow> edge_env \<Rightarrow> gotime \<Rightarrow> bool \<Rightarrow> string \<Rightarrow> message_type \<Rightarrow> ('r, 'b) node
     \<Rightarrow> (publish_error option \<times> ('r, 'b) node) option" where
  "publishLifecycle B env now cancelled name mt n =
     (case nd_sources n name of
        None \<Rightarrow> None
      | Some run0 \<Rightarrow>
          let run1 = (if mt = Birth then run0\<lparr>sr_seq := sequencer_Reset (sr_seq run0)\<rparr> else run0)
          in (case (if mt = Birth then those (map (birth_metric now run1 (nd_evals n)) (sortedKeys (sr_tags run1))) else Some []) of
                None \<Rightarrow> None
              | Some ms \<Rightarrow>
                  let (seq, sq) = sequencer_Next (sr_seq run1);
                      p = \<lparr>pl_Type = mt, pl_Timestamp = now, pl_Seq = seq, pl_Node = so_Name (sr_def run1), pl_Metrics = ms\<rparr>;
                      n1 = n\<lparr>nd_sources := (nd_sources n)(name \<mapsto> run1\<lparr>sr_seq := sq\<rparr>)\<rparr>;
                      pl = ix_plant (nd_idx n)
                  in (case en_marshal env p of
                        None \<Rightarrow> Some (Some MarshalFailed, n1)
                      | Some body \<Rightarrow>
                          let msg = \<lparr>m_topic = LifecycleTopic (pt_Enterprise pl) (pt_Site pl) (so_Name (sr_def run1)) (message_type_String mt),
                                     m_payload = body, m_retain = (mt = Birth), m_at = now\<rparr>
                          in (case bk_Publish B cancelled msg (nd_broker n1) of
                                (Some e, b) \<Rightarrow> Some (Some (PublishFailed e), n1\<lparr>nd_broker := b\<rparr>)
                              | (None, b) \<Rightarrow> Some (None, n1\<lparr>nd_broker := b\<rparr>)))))"

text \<open>The loops of \<^verbatim>\<open>Run\<close> before and after the pollers.\<close>

fun births :: "'b broker_ops \<Rightarrow> edge_env \<Rightarrow> gotime \<Rightarrow> bool \<Rightarrow> string list \<Rightarrow> ('r, 'b) node \<Rightarrow> (publish_error option \<times> ('r, 'b) node) option" where
  "births B env now cancelled [] n = Some (None, n)"
| "births B env now cancelled (name # names) n =
     (case publishLifecycle B env now cancelled name Birth n of
        None \<Rightarrow> None
      | Some (Some e, n1) \<Rightarrow> Some (Some e, n1)
      | Some (None, n1) \<Rightarrow> births B env now cancelled names n1)"

fun deaths :: "'b broker_ops \<Rightarrow> edge_env \<Rightarrow> gotime \<Rightarrow> bool \<Rightarrow> string list \<Rightarrow> ('r, 'b) node \<Rightarrow> ('r, 'b) node option" where
  "deaths B env now cancelled [] n = Some n"
| "deaths B env now cancelled (name # names) n =
     (case publishLifecycle B env now cancelled name Death n of
        None \<Rightarrow> None
      | Some (_, n1) \<Rightarrow> deaths B env now cancelled names n1)"

section \<open>The invariant of the node\<close>

definition run_ok :: "(string \<rightharpoonup> evaluator) \<Rightarrow> 'r source_run \<Rightarrow> bool" where
  "run_ok evals run \<longleftrightarrow> (\<forall>tr \<in> snd ` set (sr_tags run). evals (tr_key tr) \<noteq> None)"

definition node_ok :: "('r, 'b) node \<Rightarrow> bool" where
  "node_ok n \<longleftrightarrow> (\<forall>name run. nd_sources n name = Some run \<longrightarrow> run_ok (nd_evals n) run) \<and>
     (\<forall>name \<in> set (nd_order n). nd_sources n name \<noteq> None)"

lemma emit_tags [simp]: "emit env source tr v t w run = (o1, run1) \<Longrightarrow> sr_tags run1 = sr_tags run"
  by (auto simp: emit_def Let_def sequencer_Next_def split: option.splits)

text \<open>A loop that finds its evaluators, keeps the tags and forgets no evaluator.\<close>

definition keeps ::
  "'r source_run \<Rightarrow> (string \<rightharpoonup> evaluator) \<Rightarrow> (outgoing list \<times> 'r source_run \<times> (string \<rightharpoonup> evaluator)) option \<Rightarrow> bool" where
  "keeps run evals r \<longleftrightarrow> (\<exists>os run' evals'. r = Some (os, run', evals') \<and> sr_tags run' = sr_tags run \<and> dom evals \<subseteq> dom evals')"

lemma keeps_after:
  assumes "keeps run1 (evals(k \<mapsto> ev)) res" "sr_tags run1 = sr_tags run"
  shows "keeps run evals (case res of None \<Rightarrow> None | Some (os, x) \<Rightarrow> Some (o1 @ os, x))"
  using assms unfolding keeps_def by auto

lemma run_ok_mono: "run_ok evals run \<Longrightarrow> dom evals \<subseteq> dom evals' \<Longrightarrow> sr_tags run' = sr_tags run \<Longrightarrow> run_ok evals' run'"
  unfolding run_ok_def by (metis domIff subsetD)

lemma run_ok_upd: "run_ok evals run \<Longrightarrow> sr_tags run' = sr_tags run \<Longrightarrow> run_ok (evals(k \<mapsto> ev)) run'"
  by (erule run_ok_mono) auto

lemma run_ok_eval: "run_ok evals run \<Longrightarrow> map_of (sr_tags run) name = Some tr \<Longrightarrow> \<exists>ev. evals (tr_key tr) = Some ev"
  unfolding run_ok_def by (force dest: map_of_SomeD)

lemma readings_loop_keeps: "run_ok evals run \<Longrightarrow> keeps run evals (readings_loop env now source rs run evals)"
proof (induction rs arbitrary: run evals)
  case (Cons r rs)
  show ?case
  proof (cases "map_of (sr_tags run) (re_Tag r)")
    case None
    then show ?thesis using Cons by simp
  next
    case (Some tr)
    obtain ev where ev: "evals (tr_key tr) = Some ev" using run_ok_eval [OF Cons.prems Some] by blast
    define at0 vv where "at0 = (if re_At r = zero_time then now else re_At r)"
      and "vv = scale_Apply (tg_Scale (tr_Tag tr)) (re_Value r)"
    obtain verd ev1 where o: "Observe vv at0 ev = (verd, ev1)" by fastforce
    obtain o1 run1 where e: "emit env source tr (castValue env (tg_DataType (tr_Tag tr)) vv) at0 verd run = (o1, run1)" by fastforce
    have "keeps run1 (evals(tr_key tr \<mapsto> ev1)) (readings_loop env now source rs run1 (evals(tr_key tr \<mapsto> ev1)))"
      using Cons.IH run_ok_upd [OF Cons.prems emit_tags [OF e]] by blast
    from keeps_after [OF this emit_tags [OF e]] show ?thesis
      by (simp add: Some ev Let_def at0_def [symmetric] vv_def [symmetric] o e)
  qed
qed (simp add: keeps_def)

lemma error_loop_keeps:
  "run_ok evals run \<Longrightarrow> set names \<subseteq> fst ` set (sr_tags run) \<Longrightarrow> keeps run evals (error_loop env now source err names run evals)"
proof (induction names arbitrary: run evals)
  case (Cons name names)
  have "map_of (sr_tags run) name \<noteq> None" using Cons.prems(2) by (simp add: map_of_eq_None_iff)
  then obtain tr where tr: "map_of (sr_tags run) name = Some tr" by blast
  obtain ev where ev: "evals (tr_key tr) = Some ev" using run_ok_eval [OF Cons.prems(1) tr] by blast
  obtain verd ev1 where o: "Comm (Some err) ev = (verd, ev1)" by fastforce
  obtain o1 run1 where e: "emit env source tr (last_value env (tr_Tag tr) ev1) now verd run = (o1, run1)" by fastforce
  show ?case
  proof (cases "v_Quality (quality_Current ev) = QualityBad")
    case True
    then show ?thesis using Cons by (simp add: tr ev)
  next
    case False
    have "keeps run1 (evals(tr_key tr \<mapsto> ev1)) (error_loop env now source err names run1 (evals(tr_key tr \<mapsto> ev1)))"
      using Cons.prems(2) by (intro Cons.IH run_ok_upd [OF Cons.prems(1)]) (simp_all add: emit_tags [OF e])
    from keeps_after [OF this emit_tags [OF e]] False show ?thesis by (simp add: tr ev o e)
  qed
qed (simp add: keeps_def)

lemma stale_loop_keeps:
  "run_ok evals run \<Longrightarrow> set names \<subseteq> fst ` set (sr_tags run) \<Longrightarrow> keeps run evals (stale_loop env now source names run evals)"
proof (induction names arbitrary: run evals)
  case (Cons name names)
  have "map_of (sr_tags run) name \<noteq> None" using Cons.prems(2) by (simp add: map_of_eq_None_iff)
  then obtain tr where tr: "map_of (sr_tags run) name = Some tr" by blast
  obtain ev where ev: "evals (tr_key tr) = Some ev" using run_ok_eval [OF Cons.prems(1) tr] by blast
  obtain verd changed ev1 where o: "Check now ev = ((verd, changed), ev1)" by (metis prod.collapse)
  obtain o1 run1 where e: "emit env source tr (last_value env (tr_Tag tr) ev1) now verd run = (o1, run1)" by fastforce
  show ?case
  proof (cases changed)
    case False
    then show ?thesis using Cons by (simp add: tr ev o)
  next
    case True
    have "keeps run1 (evals(tr_key tr \<mapsto> ev1)) (stale_loop env now source names run1 (evals(tr_key tr \<mapsto> ev1)))"
      using Cons.prems(2) by (intro Cons.IH run_ok_upd [OF Cons.prems(1)]) (simp_all add: emit_tags [OF e])
    from keeps_after [OF this emit_tags [OF e]] True show ?thesis by (simp add: tr ev o e)
  qed
qed (simp add: keeps_def)

lemma sortedKeys_keys: "set (sortedKeys m) = fst ` set m"
  by (simp add: sortedKeys_def)

lemma locked_ok:
  assumes "node_ok n" "\<And>run. run_ok (nd_evals n) run \<Longrightarrow> keeps run (nd_evals n) (f run (nd_evals n))"
  shows "\<exists>os n'. locked source f n = Some (os, n') \<and> node_ok n' \<and> nd_order n' = nd_order n"
proof (cases "nd_sources n source")
  case None
  then show ?thesis using assms(1) by (simp add: locked_def)
next
  case (Some run)
  then have "run_ok (nd_evals n) run" using assms(1) by (simp add: node_ok_def)
  then obtain os run' evals' where f: "f run (nd_evals n) = Some (os, run', evals')" "sr_tags run' = sr_tags run"
    "dom (nd_evals n) \<subseteq> dom evals'"
    using assms(2) unfolding keeps_def by blast
  have "run_ok evals' r" if "((nd_sources n)(source \<mapsto> run')) name = Some r" for name r
  proof (cases "name = source")
    case True
    then show ?thesis using that run_ok_mono [OF \<open>run_ok (nd_evals n) run\<close> f(3,2)] by simp
  next
    case False
    then have "run_ok (nd_evals n) r" using that assms(1) by (simp add: node_ok_def)
    then show ?thesis by (rule run_ok_mono [OF _ f(3)]) simp
  qed
  then show ?thesis using Some f assms(1) by (simp add: locked_def node_ok_def)
qed

lemma publishAll_ok: "node_ok n \<Longrightarrow> node_ok (publishAll B c os n) \<and> nd_order (publishAll B c os n) = nd_order n"
  by (induction os arbitrary: n) (auto simp: Let_def node_ok_def)

lemma make_stale_ok:
  fixes n :: "('a, 'b) node"
  shows "node_ok n \<Longrightarrow> set names \<subseteq> set (nd_order n) \<Longrightarrow>
    \<exists>os n'. make_stale env now names n = Some (os, n') \<and> node_ok n' \<and> nd_order n' = nd_order n"
proof (induction names arbitrary: n)
  case (Cons name names)
  let ?f = "\<lambda>run evals. stale_loop env now name (sortedKeys (sr_tags run)) run evals"
  have "keeps run (nd_evals n) (?f run (nd_evals n))" if "run_ok (nd_evals n) run" for run :: "'a source_run"
    using that by (intro stale_loop_keeps) (simp_all add: sortedKeys_keys)
  from locked_ok [OF Cons.prems(1), of ?f, OF this] obtain os n1
    where l: "locked name ?f n = Some (os, n1)" "node_ok n1" "nd_order n1 = nd_order n" by blast
  moreover have "nd_sources n name \<noteq> None" using Cons.prems by (auto simp: node_ok_def)
  ultimately show ?case using Cons.IH [OF l(2)] Cons.prems(2) by auto
qed simp

lemma those_some: "\<forall>x \<in> set xs. \<exists>y. f x = Some y \<Longrightarrow> \<exists>ys. those (map f xs) = Some ys"
  by (induction xs) auto

lemma publishLifecycle_ok:
  assumes "node_ok n" "name \<in> set (nd_order n)"
  shows "\<exists>e n'. publishLifecycle B env now c name mt n = Some (e, n') \<and> node_ok n' \<and> nd_order n' = nd_order n"
proof -
  obtain run0 where run0: "nd_sources n name = Some run0" using assms by (auto simp: node_ok_def)
  then have ok: "run_ok (nd_evals n) run0" using assms(1) by (simp add: node_ok_def)
  define run1 where "run1 = (if mt = Birth then run0\<lparr>sr_seq := sequencer_Reset (sr_seq run0)\<rparr> else run0)"
  have tags: "sr_tags run1 = sr_tags run0" by (simp add: run1_def)
  have "\<exists>m. birth_metric now run1 (nd_evals n) k = Some m" if "k \<in> set (sortedKeys (sr_tags run1))" for k
  proof -
    have "map_of (sr_tags run1) k \<noteq> None" using that by (simp add: map_of_eq_None_iff sortedKeys_keys)
    then obtain tr where tr: "map_of (sr_tags run1) k = Some tr" by blast
    then obtain ev where "nd_evals n (tr_key tr) = Some ev" using run_ok_eval [OF ok, of k tr] tags by auto
    with tr show ?thesis by (simp add: birth_metric_def Let_def split: prod.splits)
  qed
  then obtain ms where ms: "(if mt = Birth then those (map (birth_metric now run1 (nd_evals n)) (sortedKeys (sr_tags run1))) else Some []) = Some ms"
    using those_some [of "sortedKeys (sr_tags run1)" "birth_metric now run1 (nd_evals n)"] by (cases "mt = Birth") auto
  obtain seq sq where sq: "sequencer_Next (sr_seq run1) = (seq, sq)" by fastforce
  have "node_ok (n\<lparr>nd_sources := (nd_sources n)(name \<mapsto> run1\<lparr>sr_seq := sq\<rparr>)\<rparr>)"
    "\<And>b. node_ok (n\<lparr>nd_sources := (nd_sources n)(name \<mapsto> run1\<lparr>sr_seq := sq\<rparr>), nd_broker := b\<rparr>)"
    using assms(1) ok tags by (auto simp: node_ok_def run_ok_def)
  then show ?thesis
    unfolding publishLifecycle_def run0
    by (simp add: run1_def [symmetric] Let_def ms sq split: option.splits prod.splits)
qed

section \<open>Runs of the node\<close>

text \<open>The calls that the pollers, the ticker and \<^verbatim>\<open>Run\<close> make, at a time and under a context.\<close>

datatype node_call =
    CallReadings string "reading list" | CallError string string | CallStale | CallBirth string | CallDeath string

fun node_step :: "'b broker_ops \<Rightarrow> edge_env \<Rightarrow> node_call \<times> gotime \<times> bool \<Rightarrow> ('r, 'b) node \<Rightarrow> ('r, 'b) node option" where
  "node_step B env (CallReadings s rs, now, c) n = node_OnReadings B env now c s rs n"
| "node_step B env (CallError s e, now, c) n = node_OnError B env now c s e n"
| "node_step B env (CallStale, now, c) n = checkStale B env now c n"
| "node_step B env (CallBirth s, now, c) n = map_option snd (publishLifecycle B env now c s Birth n)"
| "node_step B env (CallDeath s, now, c) n = map_option snd (publishLifecycle B env now c s Death n)"

fun node_run :: "'b broker_ops \<Rightarrow> edge_env \<Rightarrow> (node_call \<times> gotime \<times> bool) list \<Rightarrow> ('r, 'b) node \<Rightarrow> ('r, 'b) node option" where
  "node_run B env [] n = Some n"
| "node_run B env (x # xs) n = (case node_step B env x n of None \<Rightarrow> None | Some n1 \<Rightarrow> node_run B env xs n1)"

fun lifecycle_of :: "node_call \<Rightarrow> string option" where
  "lifecycle_of (CallBirth s) = Some s"
| "lifecycle_of (CallDeath s) = Some s"
| "lifecycle_of _ = None"

lemma node_OnReadings_ok:
  fixes n :: "('a, 'b) node"
  assumes "node_ok n"
  shows "\<exists>n'. node_OnReadings B env now c source rs n = Some n' \<and> node_ok n' \<and> nd_order n' = nd_order n"
proof -
  obtain os n1 where "make_readings env now source rs n = Some (os, n1)" "node_ok n1" "nd_order n1 = nd_order n"
    using locked_ok [OF assms, of "\<lambda>run evals. readings_loop env now source rs run evals" source]
      readings_loop_keeps unfolding make_readings_def by blast
  then show ?thesis using assms publishAll_ok [of n1] by (simp add: node_OnReadings_def)
qed

lemma node_OnError_ok:
  fixes n :: "('a, 'b) node"
  assumes "node_ok n"
  shows "\<exists>n'. node_OnError B env now c source err n = Some n' \<and> node_ok n' \<and> nd_order n' = nd_order n"
proof -
  let ?f = "\<lambda>run evals. error_loop env now source err (sortedKeys (sr_tags run)) run evals"
  have "keeps run (nd_evals n) (?f run (nd_evals n))" if "run_ok (nd_evals n) run" for run :: "'a source_run"
    using that by (intro error_loop_keeps) (simp_all add: sortedKeys_keys)
  from locked_ok [OF assms, of ?f, OF this] obtain os n1
    where "make_errors env now source err n = Some (os, n1)" "node_ok n1" "nd_order n1 = nd_order n"
    unfolding make_errors_def by blast
  then show ?thesis using assms publishAll_ok [of n1] by (simp add: node_OnError_def)
qed

lemma node_step_ok:
  fixes n :: "('a, 'b) node"
  assumes "node_ok n" "\<forall>s. lifecycle_of (fst x) = Some s \<longrightarrow> s \<in> set (nd_order n)"
  shows "\<exists>n'. node_step B env x n = Some n' \<and> node_ok n' \<and> nd_order n' = nd_order n"
proof -
  obtain call now c where x: "x = (call, now, c)" by (cases x)
  show ?thesis
  proof (cases call)
    case CallStale
    obtain os n1 where "make_stale env now (nd_order n) n = Some (os, n1)" "node_ok n1" "nd_order n1 = nd_order n"
      using make_stale_ok [OF assms(1) subset_refl] by blast
    then show ?thesis using publishAll_ok [of n1] by (simp add: x CallStale checkStale_def)
  next
    case (CallBirth s)
    then show ?thesis using publishLifecycle_ok [OF assms(1), of s B env now c Birth] assms(2) by (auto simp: x)
  next
    case (CallDeath s)
    then show ?thesis using publishLifecycle_ok [OF assms(1), of s B env now c Death] assms(2) by (auto simp: x)
  qed (use node_OnReadings_ok [OF assms(1)] node_OnError_ok [OF assms(1)] in \<open>simp_all add: x\<close>)
qed

lemma node_run_ok:
  fixes n :: "('a, 'b) node"
  assumes "node_ok n" "\<forall>x \<in> set xs. \<forall>s. lifecycle_of (fst x) = Some s \<longrightarrow> s \<in> set (nd_order n)"
  shows "\<exists>n'. node_run B env xs n = Some n' \<and> node_ok n'"
  using assms
proof (induction xs arbitrary: n)
  case (Cons x xs)
  then obtain n1 where "node_step B env x n = Some n1" "node_ok n1" "nd_order n1 = nd_order n"
    using node_step_ok [of n x B env] by auto
  then show ?case using Cons by simp
qed simp

section \<open>Building the node of a validated plant\<close>

lemma sim_tags_ok:
  "\<forall>tr \<in> set trs. address_ok SourceSim (tr_Tag tr) \<Longrightarrow> \<exists>m'. sim_tags trs m = Inr m'"
  by (induction trs arbitrary: m) auto

lemma collectors_New_ok:
  assumes "source_ok s" "trs \<noteq> []" "\<forall>tr \<in> set trs. tag_ok s (tr_Tag tr)"
  shows "\<exists>c. collectors_New sorter new_source s trs = Inr c"
proof (cases "so_Type s")
  case SourceModbus
  then obtain m xs where "so_Modbus s = Some m" "modbus_tags trs = Inr xs"
    using assms modbus_tags_ok [of trs] by (auto simp: source_ok_def tag_ok_def)
  then show ?thesis using SourceModbus assms(2) by (simp add: collectors_New_def NewModbusSource_def)
next
  case SourceSim
  then obtain m where "sim_tags trs Map.empty = Inr m"
    using assms(3) sim_tags_ok [of trs Map.empty] by (auto simp: tag_ok_def)
  then show ?thesis using SourceSim assms(2) by (simp add: collectors_New_def NewSimSource_def)
next
  case SourceCSV
  then obtain c where "so_CSV s = Some c" "cv_Path c \<noteq> []" using assms(1) by (auto simp: source_ok_def)
  then show ?thesis using SourceCSV assms(2) by (simp add: collectors_New_def NewCSVSource_def)
next
  case (OtherSource ty)
  then show ?thesis using assms(1) by (simp add: source_ok_def)
qed

lemma fold_add_tag:
  assumes "run_ok evals run" "fold (add_tag p def) trs (run, evals) = (run', evals')"
  shows "run_ok evals' run' \<and> dom evals \<subseteq> dom evals'"
  using assms
proof (induction trs arbitrary: run evals)
  case (Cons tr trs)
  define run1 evals1 where "run1 = run\<lparr>sr_tags := AList.update (tg_Name (tr_Tag tr)) tr (sr_tags run)\<rparr>"
    and "evals1 = evals(tr_key tr \<mapsto> quality_New (tag_quality_config p (tr_Tag tr) (so_PollInterval def)))"
  have step: "add_tag p def tr (run, evals) = (run1, evals1)" by (simp add: add_tag_def run1_def evals1_def)
  have "snd ` set (AList.update k tr xs) \<subseteq> insert tr (snd ` set xs)" for k and xs :: "(string \<times> tag_ref) list"
    by (induction xs) auto
  then have "snd ` set (sr_tags run1) \<subseteq> insert tr (snd ` set (sr_tags run))" by (simp add: run1_def)
  then have "x = tr \<or> x \<in> snd ` set (sr_tags run)" if "x \<in> snd ` set (sr_tags run1)" for x using that by blast
  then have "run_ok evals1 run1" using Cons.prems(1) unfolding run_ok_def evals1_def by (metis fun_upd_apply option.distinct(1))
  moreover have "fold (add_tag p def) trs (run1, evals1) = (run', evals')"
    using Cons.prems(2) step by simp
  ultimately have "run_ok evals' run' \<and> dom evals1 \<subseteq> dom evals'" by (rule Cons.IH)
  then show ?case by (auto simp: evals1_def)
qed simp

lemma add_sources_ok:
  fixes n :: "('r, 'b) node"
  assumes "node_ok n" "\<forall>s \<in> set defs. source_ok s \<and> (\<forall>tr \<in> set (TagsForSource (nd_idx n) (so_Name s)). tag_ok s (tr_Tag tr))"
  shows "\<exists>n'. add_sources sorter ns defs n = Inr n' \<and> node_ok n' \<and>
    nd_order n' = nd_order n @ map so_Name (filter (\<lambda>s. TagsForSource (nd_idx n) (so_Name s) \<noteq> []) defs)"
  using assms
proof (induction defs arbitrary: n)
  case (Cons s defs)
  let ?trs = "TagsForSource (nd_idx n) (so_Name s)"
  show ?case
  proof (cases "?trs = []")
    case True
    then show ?thesis using Cons by simp
  next
    case False
    obtain src where src: "collectors_New sorter ns s ?trs = Inr src"
      using collectors_New_ok [OF _ False] Cons.prems(2) by fastforce
    let ?run0 = "\<lparr>sr_def = s, sr_src = src, sr_tags = [], sr_seq = \<lparr>sq_next = 0\<rparr>\<rparr>"
    obtain run evals where f: "fold (add_tag (ix_plant (nd_idx n)) s) ?trs (?run0, nd_evals n) = (run, evals)" by fastforce
    have "run_ok (nd_evals n) ?run0" by (simp add: run_ok_def)
    from fold_add_tag [OF this f] have ok: "run_ok evals run" "dom (nd_evals n) \<subseteq> dom evals" by auto
    define n1 where "n1 = n\<lparr>nd_evals := evals, nd_sources := (nd_sources n)(so_Name s \<mapsto> run),
       nd_order := nd_order n @ [so_Name s], nd_health := health_Register (so_Name s) (source_type_String (so_Type s)) (nd_health n)\<rparr>"
    have "run_ok evals r" if "nd_sources n k = Some r" for k r
      using that Cons.prems(1) run_ok_mono [OF _ ok(2) refl] unfolding node_ok_def by blast
    then have "node_ok n1" using Cons.prems(1) ok(1) by (auto simp: node_ok_def n1_def)
    moreover have "nd_idx n1 = nd_idx n" by (simp add: n1_def)
    ultimately obtain n' where "add_sources sorter ns defs n1 = Inr n'" "node_ok n'"
      "nd_order n' = nd_order n1 @ map so_Name (filter (\<lambda>s. TagsForSource (nd_idx n) (so_Name s) \<noteq> []) defs)"
      using Cons.IH [of n1] Cons.prems(2) by auto
    moreover have "add_sources sorter ns (s # defs) n = add_sources sorter ns defs n1"
      using False by (simp add: src f n1_def Let_def)
    ultimately show ?thesis using False by (simp add: n1_def)
  qed
qed simp

lemma edge_New_ok:
  fixes ns :: "int \<Rightarrow> 'r"
  assumes "plant_ok p"
  shows "\<exists>n. edge_New sorter ns cfg (plant_Index p) broker h = Inr n \<and> node_ok n \<and>
    nd_order n = map so_Name (filter (\<lambda>s. TagsForSource (plant_Index p) (so_Name s) \<noteq> []) (pt_Sources p))"
proof -
  let ?ix = "plant_Index p"
  note E = plant_Index_effect [OF assms]
  define n0 where "n0 = \<lparr>nd_cfg = edge_defaults cfg, nd_idx = ?ix, nd_broker = broker, nd_health = h, nd_latest = NewLatest,
              nd_sources = Map.empty :: string \<rightharpoonup> 'r source_run, nd_order = [], nd_evals = Map.empty\<rparr>"
  have ok0: "node_ok n0" by (simp add: node_ok_def n0_def)
  have tags: "\<exists>s' \<in> set (pt_Sources p). so_Name s' = so_Name s \<and> tag_ok s' (tr_Tag tr)"
    if "tr \<in> set (TagsForSource ?ix (so_Name s))" for s :: source_def and tr
    using that plant_tag_refs_sourced [OF assms, of tr] unfolding E(5) by auto
  have "\<forall>s \<in> set (pt_Sources p). source_ok s \<and> (\<forall>tr \<in> set (TagsForSource ?ix (so_Name s)). tag_ok s (tr_Tag tr))"
  proof (intro ballI conjI)
    fix s assume s: "s \<in> set (pt_Sources p)"
    then show "source_ok s" using assms by (simp add: plant_ok_def)
    fix tr assume "tr \<in> set (TagsForSource ?ix (so_Name s))"
    from tags [OF this] obtain s' where s': "s' \<in> set (pt_Sources p)" "so_Name s' = so_Name s" "tag_ok s' (tr_Tag tr)" by blast
    have "distinct (map so_Name (pt_Sources p))" using assms by (simp add: plant_ok_def)
    then have "s' = s" using s s'(1,2) by (metis distinct_map inj_onD)
    then show "tag_ok s (tr_Tag tr)" using s'(3) by simp
  qed
  with add_sources_ok [OF ok0, of "pt_Sources p" sorter ns] obtain n where
    n: "add_sources sorter ns (pt_Sources p) n0 = Inr n" "node_ok n"
    "nd_order n = map so_Name (filter (\<lambda>s. TagsForSource ?ix (so_Name s) \<noteq> []) (pt_Sources p))"
    by (auto simp: n0_def)
  have "nd_order n \<noteq> []"
  proof -
    obtain e where e: "e \<in> set (plant_entries p)" using assms unfolding plant_ok_def by (metis list.set_intros(1) neq_Nil_conv)
    then obtain s t where s: "named_source p (as_Source (snd e)) = Some s" "t \<in> set (as_Tags (snd e))"
      using assms unfolding plant_ok_def entry_ok_def by (metis list.set_intros(1) neq_Nil_conv)
    define tr where "tr = \<lparr>tr_Ref = entry_ref p e, tr_Tag = t, tr_Topic = entry_topic p e t\<rparr>"
    have "tr \<in> set (plant_tag_refs p)" using e s(2) by (auto simp: plant_tag_refs_def entry_tag_refs_def tr_def)
    moreover have "tr_source tr = so_Name s" "s \<in> set (pt_Sources p)"
      using s(1) named_source_iff [of p] assms by (auto simp: tr_def entry_ref_def plant_ok_def split: prod.splits)
    ultimately have "tr \<in> set (TagsForSource ?ix (so_Name s))" "s \<in> set (pt_Sources p)" unfolding E(5) by auto
    then show ?thesis unfolding n(3) by (force simp: filter_empty_conv)
  qed
  then show ?thesis using n E(2) by (simp add: edge_New_def n0_def)
qed

lemma edge_New_order:
  assumes ok: "plant_ok p"
  shows "\<exists>n. edge_New sorter ns cfg (plant_Index p) broker h = Inr n \<and> node_ok n \<and>
    set (nd_order n) = {name. TagsForSource (plant_Index p) name \<noteq> []}"
proof -
  obtain n where n: "edge_New sorter ns cfg (plant_Index p) broker h = Inr n" "node_ok n"
    "nd_order n = map so_Name (filter (\<lambda>s. TagsForSource (plant_Index p) (so_Name s) \<noteq> []) (pt_Sources p))"
    using edge_New_ok [OF ok, of sorter ns cfg broker h] by blast
  have "name \<in> set (nd_order n)" if ne: "TagsForSource (plant_Index p) name \<noteq> []" for name
  proof -
    obtain tr where "tr \<in> set (TagsForSource (plant_Index p) name)" using ne by (cases "TagsForSource (plant_Index p) name") auto
    then have "tr \<in> set (plant_tag_refs p)" "tr_source tr = name" unfolding plant_Index_effect(5) [OF ok] by auto
    then obtain s where "s \<in> set (pt_Sources p)" "so_Name s = name" using plant_tag_refs_sourced [OF ok] by metis
    then show ?thesis using ne unfolding n(3) by auto
  qed
  then have "set (nd_order n) = {name. TagsForSource (plant_Index p) name \<noteq> []}" unfolding n(3) by auto
  then show ?thesis using n(1,2) by blast
qed

section \<open>Properties\<close>

text \<open>
  C26: the node of a parsed plant can be built and never dereferences a nil evaluator or source,
  whatever the pollers report, in whatever order and at whatever times the handlers, the
  staleness check, BIRTH and DEATH run, and whatever the broker and the encoder do.
\<close>

theorem node_never_panics:
  assumes "asset_Parse yaml y = Inr p"
  shows "\<exists>n. edge_New sorter ns cfg (plant_Index p) broker h = Inr n \<and>
    set (nd_order n) = {name. TagsForSource (plant_Index p) name \<noteq> []} \<and>
    (\<forall>B env xs. (\<forall>x \<in> set xs. \<forall>s. lifecycle_of (fst x) = Some s \<longrightarrow> s \<in> set (nd_order n)) \<longrightarrow>
       (\<exists>n'. node_run B env xs n = Some n'))"
  using edge_New_order [of p sorter ns cfg broker h] asset_Parse_ok [OF assms] node_run_ok by metis

theorem node_never_panics_witness:
  "\<exists>n. edge_New sort_tags (\<lambda>_. ()) \<lparr>ec_StaleCheckInterval = 0, ec_DeathTimeout = 0\<rparr> (plant_Index sample_plant) () NewHealth = Inr n"
  using node_never_panics [OF sample_plant_parses, of sort_tags "\<lambda>_. ()" _ "()" NewHealth] by blast

end
