(* ===== verification/Mem_Broker.thy ===== *)
theory Mem_Broker
  imports Ports Uns_Topic "HOL-Library.AList" "HOL-Library.Multiset"
begin

text \<open>
  The in-process broker of \<^verbatim>\<open>internal/adapters/memory/broker.go\<close>. Publishers and the goroutine
  of every subscription run concurrently, so that an operation is cut into the steps that are
  atomic in the code: the part under the mutex, one channel operation of one \<open>select\<close>, one call of
  the handler. A label names a step and carries the choices the runtime makes (the order in
  which a map is ranged over); \<open>broker_step\<close> is \<open>None\<close> when the step is not enabled. The calls
  of a handler are kept in \<open>sb_handled\<close>.
\<close>

section \<open>State\<close>

definition subscriberBuffer :: nat where
  "subscriberBuffer = 1024"

record subscription =
  sb_filter :: string
  sb_ch :: "message list"
  sb_done :: bool
  sb_backlog :: "message list"
  sb_handled :: "message list"
  sb_running :: bool

text \<open>A publisher between the mutex and its return: the message and the targets that are left.\<close>

record publisher =
  pb_msg :: message
  pb_targets :: "nat list"

record mem_broker =
  mb_subs :: "nat list"
  mb_table :: "nat \<Rightarrow> subscription option"
  mb_next :: nat
  mb_retained :: "(string \<times> message) list"
  mb_closed :: bool
  mb_published :: int
  mb_publishers :: "publisher list"

definition NewBroker :: mem_broker where
  "NewBroker = \<lparr>mb_subs = [], mb_table = Map.empty, mb_next = 0, mb_retained = [], mb_closed = False,
     mb_published = 0, mb_publishers = []\<rparr>"

section \<open>Publish\<close>

definition retain :: "message \<Rightarrow> (string \<times> message) list \<Rightarrow> (string \<times> message) list" where
  "retain msg r =
     (if \<not> m_retain msg then r
      else if m_payload msg = [] then AList.delete (m_topic msg) r
      else AList.update (m_topic msg) msg r)"

definition wants :: "mem_broker \<Rightarrow> string \<Rightarrow> nat \<Rightarrow> bool" where
  "wants b t i = (case mb_table b i of None \<Rightarrow> False | Some s \<Rightarrow> MatchFilter (sb_filter s) t)"

text \<open>The part under the mutex; \<open>ts\<close> lists the matching subscriptions in the order of the map.\<close>

definition publish_begin :: "message \<Rightarrow> nat list \<Rightarrow> mem_broker \<Rightarrow> (port_error option \<times> mem_broker) option" where
  "publish_begin msg ts b =
     (if mb_closed b then (if ts = [] then Some (Some ErrClosed, b) else None)
      else if mset ts = mset (filter (wants b (m_topic msg)) (mb_subs b))
      then Some (None, b\<lparr>mb_retained := retain msg (mb_retained b), mb_published := mb_published b + 1,
                         mb_publishers := mb_publishers b @ [\<lparr>pb_msg = msg, pb_targets = ts\<rparr>]\<rparr>)
      else None)"

text \<open>The three branches of the \<^verbatim>\<open>select\<close> of publisher \<open>i\<close> for its next target.\<close>

definition publisher_at :: "nat \<Rightarrow> mem_broker \<Rightarrow> (message \<times> nat \<times> nat list \<times> subscription) option" where
  "publisher_at i b =
     (if i < length (mb_publishers b)
      then (case pb_targets (mb_publishers b ! i) of
              [] \<Rightarrow> None
            | t # ts \<Rightarrow> (case mb_table b t of None \<Rightarrow> None | Some s \<Rightarrow> Some (pb_msg (mb_publishers b ! i), t, ts, s)))
      else None)"

definition send_next :: "nat \<Rightarrow> mem_broker \<Rightarrow> mem_broker option" where
  "send_next i b =
     (case publisher_at i b of
        None \<Rightarrow> None
      | Some (m, t, ts, s) \<Rightarrow>
          if length (sb_ch s) < subscriberBuffer
          then Some (b\<lparr>mb_publishers := (mb_publishers b)[i := \<lparr>pb_msg = m, pb_targets = ts\<rparr>],
                       mb_table := (mb_table b)(t \<mapsto> s\<lparr>sb_ch := sb_ch s @ [m]\<rparr>)\<rparr>)
          else None)"

definition skip_next :: "nat \<Rightarrow> mem_broker \<Rightarrow> mem_broker option" where
  "skip_next i b =
     (case publisher_at i b of
        None \<Rightarrow> None
      | Some (m, t, ts, s) \<Rightarrow>
          if sb_done s then Some (b\<lparr>mb_publishers := (mb_publishers b)[i := \<lparr>pb_msg = m, pb_targets = ts\<rparr>]\<rparr>) else None)"

text \<open>The context of the publisher has ended: the targets that are left get nothing.\<close>

definition cancel_publish :: "nat \<Rightarrow> mem_broker \<Rightarrow> mem_broker option" where
  "cancel_publish i b =
     (case publisher_at i b of
        None \<Rightarrow> None
      | Some (m, t, ts, s) \<Rightarrow> Some (b\<lparr>mb_publishers := (mb_publishers b)[i := \<lparr>pb_msg = m, pb_targets = []\<rparr>]\<rparr>))"

section \<open>Subscribe\<close>

definition matching_retained :: "string \<Rightarrow> mem_broker \<Rightarrow> message list" where
  "matching_retained f b = map snd (filter (\<lambda>(t, _). MatchFilter f t) (mb_retained b))"

datatype subscribe_result = BadFilter filter_error | SubscribeClosed | Subscribed nat

definition broker_Subscribe :: "string \<Rightarrow> message list \<Rightarrow> mem_broker \<Rightarrow> (subscribe_result \<times> mem_broker) option" where
  "broker_Subscribe f backlog b =
     (case ValidateFilter f of
        Some e \<Rightarrow> Some (BadFilter e, b)
      | None \<Rightarrow>
          if mb_closed b then Some (SubscribeClosed, b)
          else if mset backlog = mset (matching_retained f b)
          then Some (Subscribed (mb_next b),
                 b\<lparr>mb_subs := mb_subs b @ [mb_next b], mb_next := mb_next b + 1,
                   mb_table := (mb_table b)(mb_next b \<mapsto>
                     \<lparr>sb_filter = f, sb_ch = [], sb_done = False, sb_backlog = backlog, sb_handled = [], sb_running = True\<rparr>)\<rparr>)
          else None)"

definition close_subscription :: "nat \<Rightarrow> mem_broker \<Rightarrow> mem_broker" where
  "close_subscription i b =
     (case mb_table b i of None \<Rightarrow> b | Some s \<Rightarrow> b\<lparr>mb_table := (mb_table b)(i \<mapsto> s\<lparr>sb_done := True\<rparr>)\<rparr>)"

definition broker_remove :: "nat \<Rightarrow> mem_broker \<Rightarrow> mem_broker" where
  "broker_remove i b = close_subscription i (b\<lparr>mb_subs := removeAll i (mb_subs b)\<rparr>)"

text \<open>The goroutine of a subscription: first the backlog, then the channel.\<close>

definition handle_next :: "nat \<Rightarrow> mem_broker \<Rightarrow> mem_broker option" where
  "handle_next i b =
     (case mb_table b i of
        None \<Rightarrow> None
      | Some s \<Rightarrow>
          if \<not> sb_running s then None
          else (case sb_backlog s of
                  m # ms \<Rightarrow> Some (b\<lparr>mb_table := (mb_table b)(i \<mapsto> s\<lparr>sb_backlog := ms, sb_handled := sb_handled s @ [m]\<rparr>)\<rparr>)
                | [] \<Rightarrow>
                    (case sb_ch s of
                       [] \<Rightarrow> None
                     | m # ms \<Rightarrow> Some (b\<lparr>mb_table := (mb_table b)(i \<mapsto> s\<lparr>sb_ch := ms, sb_handled := sb_handled s @ [m]\<rparr>)\<rparr>))))"

definition observe_done :: "nat \<Rightarrow> mem_broker \<Rightarrow> mem_broker option" where
  "observe_done i b =
     (case mb_table b i of
        None \<Rightarrow> None
      | Some s \<Rightarrow>
          if sb_running s \<and> sb_backlog s = [] \<and> sb_done s
          then Some (b\<lparr>mb_table := (mb_table b)(i \<mapsto> s\<lparr>sb_running := False\<rparr>)\<rparr>) else None)"

definition observe_context :: "nat \<Rightarrow> mem_broker \<Rightarrow> mem_broker option" where
  "observe_context i b =
     (case mb_table b i of
        None \<Rightarrow> None
      | Some s \<Rightarrow>
          if sb_running s \<and> sb_backlog s = []
          then Some (broker_remove i (b\<lparr>mb_table := (mb_table b)(i \<mapsto> s\<lparr>sb_running := False\<rparr>)\<rparr>)) else None)"

section \<open>Close and the other operations\<close>

definition broker_Close :: "mem_broker \<Rightarrow> mem_broker" where
  "broker_Close b =
     (if mb_closed b then b
      else fold close_subscription (mb_subs b) (b\<lparr>mb_closed := True, mb_subs := []\<rparr>))"

definition broker_Ready :: "mem_broker \<Rightarrow> bool" where
  "broker_Ready b = (\<not> mb_closed b)"

definition broker_Published :: "mem_broker \<Rightarrow> int" where
  "broker_Published b = mb_published b"

definition broker_Retained :: "mem_broker \<Rightarrow> string \<Rightarrow> message option" where
  "broker_Retained b t = map_of (mb_retained b) t"

datatype broker_label =
    BeginPublish message "nat list"
  | SendNext nat
  | SkipNext nat
  | CancelPublish nat
  | DoSubscribe string "message list"
  | HandleNext nat
  | ObserveDone nat
  | ObserveContext nat
  | Unsubscribe nat
  | CloseBroker

fun broker_step :: "broker_label \<Rightarrow> mem_broker \<Rightarrow> mem_broker option" where
  "broker_step (BeginPublish m ts) b = map_option snd (publish_begin m ts b)"
| "broker_step (SendNext i) b = send_next i b"
| "broker_step (SkipNext i) b = skip_next i b"
| "broker_step (CancelPublish i) b = cancel_publish i b"
| "broker_step (DoSubscribe f bl) b = map_option snd (broker_Subscribe f bl b)"
| "broker_step (HandleNext i) b = handle_next i b"
| "broker_step (ObserveDone i) b = observe_done i b"
| "broker_step (ObserveContext i) b = observe_context i b"
| "broker_step (Unsubscribe i) b = Some (broker_remove i b)"
| "broker_step CloseBroker b = Some (broker_Close b)"

fun broker_run :: "broker_label list \<Rightarrow> mem_broker \<Rightarrow> mem_broker option" where
  "broker_run [] b = Some b"
| "broker_run (x # xs) b = (case broker_step x b of None \<Rightarrow> None | Some b1 \<Rightarrow> broker_run xs b1)"

section \<open>The invariant of the broker\<close>

definition broker_wf :: "mem_broker \<Rightarrow> bool" where
  "broker_wf b \<longleftrightarrow> distinct (mb_subs b) \<and> (\<forall>j. mb_table b j \<noteq> None \<longleftrightarrow> j < mb_next b) \<and>
     (\<forall>j s. mb_table b j = Some s \<longrightarrow> (\<not> sb_done s \<longleftrightarrow> j \<in> set (mb_subs b))) \<and> (\<forall>j \<in> set (mb_subs b). j < mb_next b) \<and>
     (mb_closed b \<longrightarrow> mb_subs b = []) \<and>
     (\<forall>p \<in> set (mb_publishers b). distinct (pb_targets p) \<and> (\<forall>j \<in> set (pb_targets p). j < mb_next b))"

lemma NewBroker_wf [simp]: "broker_wf NewBroker"
  by (simp add: broker_wf_def NewBroker_def)

lemma publisher_at_Some:
  assumes "publisher_at i b = Some (m, t, ts, s)"
  shows "i < length (mb_publishers b)" "mb_publishers b ! i = \<lparr>pb_msg = m, pb_targets = t # ts\<rparr>" "mb_table b t = Some s"
  using assms by (auto simp: publisher_at_def split: if_splits list.splits option.splits)

lemma publisher_split:
  assumes "publisher_at i b = Some (m, t, ts, s)"
  obtains ps qs where "mb_publishers b = ps @ \<lparr>pb_msg = m, pb_targets = t # ts\<rparr> # qs" "length ps = i"
  using publisher_at_Some [OF assms] id_take_nth_drop [of i "mb_publishers b"] that [of "take i (mb_publishers b)"] by simp

lemma close_subscription_simps [simp]:
  "mb_subs (close_subscription i b) = mb_subs b" "mb_next (close_subscription i b) = mb_next b"
  "mb_closed (close_subscription i b) = mb_closed b" "mb_publishers (close_subscription i b) = mb_publishers b"
  "mb_table (close_subscription i b) j =
     (if j = i then map_option (\<lambda>s. s\<lparr>sb_done := True\<rparr>) (mb_table b j) else mb_table b j)"
  by (auto simp: close_subscription_def split: option.splits)

lemma fold_close_simps [simp]:
  "mb_subs (fold close_subscription is b) = mb_subs b" "mb_next (fold close_subscription is b) = mb_next b"
  "mb_closed (fold close_subscription is b) = mb_closed b" "mb_publishers (fold close_subscription is b) = mb_publishers b"
  "mb_table (fold close_subscription is b) j =
     (if j \<in> set is then map_option (\<lambda>s. s\<lparr>sb_done := True\<rparr>) (mb_table b j) else mb_table b j)"
  by (induction "is" arbitrary: b) (auto simp: option.map_comp comp_def)

lemma broker_wf_table:
  assumes "broker_wf b" "mb_table b i = Some s" "sb_done s' = sb_done s"
  shows "broker_wf (b\<lparr>mb_table := (mb_table b)(i \<mapsto> s')\<rparr>)"
  using assms unfolding broker_wf_def by (simp add: all_conj_distrib) metis

lemma broker_wf_publishers:
  assumes "broker_wf b" "publisher_at k b = Some (m, t, ts, s)" "set us \<subseteq> set ts" "distinct us"
  shows "broker_wf (b\<lparr>mb_publishers := (mb_publishers b)[k := \<lparr>pb_msg = m, pb_targets = us\<rparr>]\<rparr>)"
proof -
  have "\<lparr>pb_msg = m, pb_targets = t # ts\<rparr> \<in> set (mb_publishers b)"
    using publisher_at_Some [OF assms(2)] by (metis nth_mem)
  then have "distinct (t # ts) \<and> (\<forall>j \<in> set (t # ts). j < mb_next b)" using assms(1) unfolding broker_wf_def by fastforce
  then show ?thesis using assms(1,3,4) unfolding broker_wf_def by (auto dest!: set_update_subset_insert [THEN subsetD])
qed

lemma broker_wf_remove: "broker_wf b \<Longrightarrow> broker_wf (broker_remove i b)"
  unfolding broker_wf_def broker_remove_def by (auto simp: distinct_removeAll split: if_splits)

lemma broker_wf_Close: "broker_wf b \<Longrightarrow> broker_wf (broker_Close b)"
  unfolding broker_wf_def broker_Close_def by (auto split: if_splits)

lemma broker_wf_begin:
  assumes "broker_wf b" "publish_begin m ts b = Some (e, b1)"
  shows "broker_wf b1"
proof (cases "mb_closed b")
  case False
  then have ts: "mset ts = mset (filter (wants b (m_topic m)) (mb_subs b))" and b1: "mb_subs b1 = mb_subs b"
    "mb_table b1 = mb_table b" "mb_next b1 = mb_next b" "mb_closed b1 = mb_closed b"
    "mb_publishers b1 = mb_publishers b @ [\<lparr>pb_msg = m, pb_targets = ts\<rparr>]"
    using assms(2) by (auto simp: publish_begin_def split: if_splits)
  have "distinct ts" "set ts \<subseteq> set (mb_subs b)"
    using assms(1) mset_eq_imp_distinct_iff [OF ts] mset_eq_setD [OF ts] by (auto simp: broker_wf_def)
  then show ?thesis using assms(1) unfolding broker_wf_def b1 by auto
qed (use assms in \<open>auto simp: publish_begin_def split: if_splits\<close>)

lemma broker_wf_Subscribe:
  assumes "broker_wf b" "broker_Subscribe f bl b = Some (r, b1)"
  shows "broker_wf b1"
proof (cases "b1 = b")
  case False
  define s where "s = \<lparr>sb_filter = f, sb_ch = [], sb_done = False, sb_backlog = bl, sb_handled = [], sb_running = True\<rparr>"
  have b1: "\<not> mb_closed b" "mb_subs b1 = mb_subs b @ [mb_next b]" "mb_next b1 = Suc (mb_next b)" "mb_closed b1 = mb_closed b"
    "mb_publishers b1 = mb_publishers b" "mb_table b1 = (mb_table b)(mb_next b \<mapsto> s)"
    using assms(2) False by (auto simp: broker_Subscribe_def s_def split: option.splits if_splits)
  have w: "distinct (mb_subs b)" "\<And>j. mb_table b j \<noteq> None \<longleftrightarrow> j < mb_next b"
    "\<And>j s. mb_table b j = Some s \<Longrightarrow> \<not> sb_done s \<longleftrightarrow> j \<in> set (mb_subs b)" "\<And>j. j \<in> set (mb_subs b) \<Longrightarrow> j < mb_next b"
    "\<And>p. p \<in> set (mb_publishers b) \<Longrightarrow> distinct (pb_targets p) \<and> (\<forall>j \<in> set (pb_targets p). j < mb_next b)"
    using assms(1) unfolding broker_wf_def by blast+
  have "mb_next b \<notin> set (mb_subs b)" using w(4) by blast
  moreover have "(\<not> sb_done s') = (j \<in> set (mb_subs b1))" if "mb_table b1 j = Some s'" for j s'
    using that w(3) [of j s'] calculation by (cases "j = mb_next b") (auto simp: b1 s_def)
  moreover have "(mb_table b1 j \<noteq> None) = (j < mb_next b1)" for j
    using w(2) [of j] by (auto simp: b1 less_Suc_eq)
  ultimately show ?thesis
    using w(1,4,5) b1(1) unfolding broker_wf_def by (auto simp: b1(2-5) intro: less_SucI)
qed (use assms in simp)

lemma broker_step_wf:
  assumes "broker_wf b" "broker_step x b = Some b1"
  shows "broker_wf b1"
proof (cases x)
  case (BeginPublish m ts)
  then show ?thesis using assms broker_wf_begin by fastforce
next
  case (SendNext k)
  then obtain m t ts s where p: "publisher_at k b = Some (m, t, ts, s)"
    and b1: "b1 = b\<lparr>mb_publishers := (mb_publishers b)[k := \<lparr>pb_msg = m, pb_targets = ts\<rparr>],
                       mb_table := (mb_table b)(t \<mapsto> s\<lparr>sb_ch := sb_ch s @ [m]\<rparr>)\<rparr>"
    using assms(2) by (auto simp: send_next_def split: option.splits if_splits)
  have "distinct ts" using assms(1) publisher_at_Some [OF p] nth_mem [of k "mb_publishers b"] unfolding broker_wf_def by fastforce
  from broker_wf_publishers [OF assms(1) p subset_refl this]
  have "broker_wf (b\<lparr>mb_publishers := (mb_publishers b)[k := \<lparr>pb_msg = m, pb_targets = ts\<rparr>]\<rparr>)" .
  from broker_wf_table [OF this, of t s "s\<lparr>sb_ch := sb_ch s @ [m]\<rparr>"] show ?thesis
    using publisher_at_Some(3) [OF p] by (simp add: b1)
next
  case (SkipNext k)
  then obtain m t ts s where p: "publisher_at k b = Some (m, t, ts, s)"
    and b1: "b1 = b\<lparr>mb_publishers := (mb_publishers b)[k := \<lparr>pb_msg = m, pb_targets = ts\<rparr>]\<rparr>"
    using assms(2) by (auto simp: skip_next_def split: option.splits if_splits)
  have "distinct ts" using assms(1) publisher_at_Some [OF p] nth_mem [of k "mb_publishers b"] unfolding broker_wf_def by fastforce
  from broker_wf_publishers [OF assms(1) p subset_refl this] show ?thesis by (simp add: b1)
next
  case (CancelPublish k)
  then obtain m t ts s where p: "publisher_at k b = Some (m, t, ts, s)"
    and b1: "b1 = b\<lparr>mb_publishers := (mb_publishers b)[k := \<lparr>pb_msg = m, pb_targets = []\<rparr>]\<rparr>"
    using assms(2) by (auto simp: cancel_publish_def split: option.splits if_splits)
  from broker_wf_publishers [OF assms(1) p, of "[]"] show ?thesis by (simp add: b1)
next
  case (DoSubscribe f bl)
  then show ?thesis using assms broker_wf_Subscribe by fastforce
next
  case (HandleNext i)
  then show ?thesis using assms
    by (auto simp: handle_next_def split: option.splits if_splits list.splits intro!: broker_wf_table)
next
  case (ObserveDone i)
  then show ?thesis using assms
    by (auto simp: observe_done_def split: option.splits if_splits intro!: broker_wf_table)
next
  case (ObserveContext i)
  then show ?thesis using assms
    by (auto simp: observe_context_def split: option.splits if_splits intro!: broker_wf_table broker_wf_remove)
qed (use assms broker_wf_remove broker_wf_Close in auto)

section \<open>What a subscription gets\<close>

text \<open>The messages that have reached subscription \<open>i\<close>, and those on their way to it.\<close>

definition arrived :: "subscription \<Rightarrow> message list" where
  "arrived s = sb_handled s @ sb_backlog s @ sb_ch s"

definition inflight :: "nat \<Rightarrow> mem_broker \<Rightarrow> message list" where
  "inflight i b = concat (map (\<lambda>p. if i \<in> set (pb_targets p) then [pb_msg p] else []) (mb_publishers b))"

definition ours :: "string \<Rightarrow> broker_label \<Rightarrow> message list" where
  "ours f x = (case x of BeginPublish m ts \<Rightarrow> if MatchFilter f (m_topic m) then [m] else [] | _ \<Rightarrow> [])"

text \<open>A message is under way only between its publication and its delivery to the channel.\<close>

lemma inflight_table [simp]:
  "inflight i (b\<lparr>mb_table := g\<rparr>) = inflight i b" "inflight i (b\<lparr>mb_subs := l\<rparr>) = inflight i b"
  "inflight i (b\<lparr>mb_next := k\<rparr>) = inflight i b"
  by (simp_all add: inflight_def)

lemma inflight_advance:
  assumes "publisher_at k b = Some (m, t, ts, s)" "t \<noteq> i"
  shows "inflight i (b\<lparr>mb_publishers := (mb_publishers b)[k := \<lparr>pb_msg = m, pb_targets = ts\<rparr>]\<rparr>) = inflight i b"
proof -
  obtain ps qs where "mb_publishers b = ps @ \<lparr>pb_msg = m, pb_targets = t # ts\<rparr> # qs" "length ps = k"
    using publisher_split [OF assms(1)] .
  then show ?thesis using assms(2) by (auto simp: inflight_def list_update_append)
qed

lemma inflight_sent:
  assumes "publisher_at k b = Some (m, i, ts, s)" "broker_wf b"
  shows "\<exists>A B. inflight i b = A @ m # B \<and>
    inflight i (b\<lparr>mb_publishers := (mb_publishers b)[k := \<lparr>pb_msg = m, pb_targets = ts\<rparr>]\<rparr>) = A @ B"
proof -
  obtain ps qs where p: "mb_publishers b = ps @ \<lparr>pb_msg = m, pb_targets = i # ts\<rparr> # qs" "length ps = k"
    using publisher_split [OF assms(1)] .
  have "i \<notin> set ts" using assms(2) p(1) by (auto simp: broker_wf_def)
  then show ?thesis using p by (auto simp: inflight_def list_update_append)
qed

lemma inflight_begin:
  assumes "broker_wf b" "mb_table b i = Some s" "\<not> sb_done s" "publish_begin m ts b = Some (e, b1)"
  shows "inflight i b1 = inflight i b @ (if MatchFilter (sb_filter s) (m_topic m) then [m] else [])"
proof -
  have i: "i \<in> set (mb_subs b)" "\<not> mb_closed b" using assms(1-3) by (auto simp: broker_wf_def)
  then have ts: "mset ts = mset (filter (wants b (m_topic m)) (mb_subs b))"
    and b1: "mb_publishers b1 = mb_publishers b @ [\<lparr>pb_msg = m, pb_targets = ts\<rparr>]"
    using assms(4) by (auto simp: publish_begin_def split: if_splits)
  have "i \<in> set ts \<longleftrightarrow> MatchFilter (sb_filter s) (m_topic m)"
    using i(1) assms(2) mset_eq_setD [OF ts] by (auto simp: wants_def)
  then show ?thesis by (simp add: inflight_def b1)
qed

text \<open>The effect of a step on a subscription that is still open afterwards.\<close>

lemma step_effect:
  assumes "broker_wf b" "mb_table b i = Some s" "broker_step x b = Some b1" "mb_table b1 i = Some s1" "\<not> sb_done s1"
    and "\<forall>k. x \<noteq> CancelPublish k"
  shows "sb_filter s1 = sb_filter s \<and> \<not> sb_done s \<and>
    (arrived s1 = arrived s \<and> inflight i b1 = inflight i b @ ours (sb_filter s) x \<or>
     ours (sb_filter s) x = [] \<and> (\<exists>A m B. inflight i b = A @ m # B \<and> inflight i b1 = A @ B \<and> arrived s1 = arrived s @ [m]))"
proof (cases x)
  case (BeginPublish m ts)
  then obtain e where e: "publish_begin m ts b = Some (e, b1)" using assms(3) by auto
  have "mb_table b1 = mb_table b" using e by (auto simp: publish_begin_def split: if_splits)
  then have "s1 = s" using assms(2,4) by simp
  then show ?thesis using inflight_begin [OF assms(1,2) _ e] assms(5) by (simp add: ours_def BeginPublish)
next
  case (SendNext k)
  then obtain m t ts s' where p: "publisher_at k b = Some (m, t, ts, s')"
    and b1: "b1 = b\<lparr>mb_publishers := (mb_publishers b)[k := \<lparr>pb_msg = m, pb_targets = ts\<rparr>],
      mb_table := (mb_table b)(t \<mapsto> s'\<lparr>sb_ch := sb_ch s' @ [m]\<rparr>)\<rparr>"
    using assms(3) by (auto simp: send_next_def split: option.splits if_splits)
  show ?thesis
  proof (cases "t = i")
    case True
    then have "s' = s" "s1 = s\<lparr>sb_ch := sb_ch s @ [m]\<rparr>" using publisher_at_Some(3) [OF p] assms(2,4) b1 by auto
    then show ?thesis using inflight_sent [of k b m i ts s'] p True assms(1,5)
      by (auto simp: b1 arrived_def ours_def SendNext)
  next
    case False
    then have "s1 = s" using assms(2,4) b1 by simp
    then show ?thesis using inflight_advance [OF p False] assms(5) by (simp add: b1 ours_def SendNext)
  qed
next
  case (SkipNext k)
  then obtain m t ts s' where p: "publisher_at k b = Some (m, t, ts, s')" "sb_done s'"
    and b1: "b1 = b\<lparr>mb_publishers := (mb_publishers b)[k := \<lparr>pb_msg = m, pb_targets = ts\<rparr>]\<rparr>"
    using assms(3) by (auto simp: skip_next_def split: option.splits if_splits)
  have s1: "s1 = s" using assms(2,4) b1 by simp
  then have "t \<noteq> i" using publisher_at_Some(3) [OF p(1)] p(2) assms(2,5) by auto
  then show ?thesis using inflight_advance [OF p(1)] s1 assms(5) by (simp add: b1 ours_def SkipNext)
next
  case (DoSubscribe f bl)
  have "i < mb_next b" using assms(1,2) by (auto simp: broker_wf_def)
  then show ?thesis using assms(2-5)
    by (auto simp: DoSubscribe broker_Subscribe_def ours_def inflight_def split: option.splits if_splits)
next
  case (HandleNext j)
  then show ?thesis using assms(2-5)
    by (auto simp: handle_next_def ours_def inflight_def arrived_def split: option.splits if_splits list.splits)
next
  case (ObserveDone j)
  then show ?thesis using assms(2-5)
    by (auto simp: observe_done_def ours_def inflight_def arrived_def split: option.splits if_splits)
next
  case (ObserveContext j)
  then show ?thesis using assms(2-5)
    by (auto simp: observe_context_def broker_remove_def ours_def inflight_def split: option.splits if_splits)
next
  case (Unsubscribe j)
  then show ?thesis using assms(2-5)
    by (auto simp: broker_remove_def ours_def inflight_def split: if_splits)
next
  case CloseBroker
  have "s1 = s \<and> mb_publishers b1 = mb_publishers b"
    using assms(1,2,3,4,5) CloseBroker by (auto simp: broker_Close_def broker_wf_def split: if_splits)
  then show ?thesis using assms(5) by (simp add: ours_def inflight_def CloseBroker)
qed (use assms(6) in blast)

text \<open>Subscriptions do not go away, and a closed one stays closed.\<close>

lemma step_table:
  assumes "broker_wf b" "mb_table b i = Some s" "broker_step x b = Some b1"
  shows "\<exists>s1. mb_table b1 i = Some s1 \<and> (sb_done s \<longrightarrow> sb_done s1)"
proof (cases x)
  case (BeginPublish m ts)
  then show ?thesis using assms by (auto simp: publish_begin_def split: if_splits)
next
  case (SendNext k)
  then obtain m t ts s' where "publisher_at k b = Some (m, t, ts, s')"
    and "b1 = b\<lparr>mb_publishers := (mb_publishers b)[k := \<lparr>pb_msg = m, pb_targets = ts\<rparr>],
      mb_table := (mb_table b)(t \<mapsto> s'\<lparr>sb_ch := sb_ch s' @ [m]\<rparr>)\<rparr>"
    using assms(3) by (auto simp: send_next_def split: option.splits if_splits)
  then show ?thesis using publisher_at_Some(3) assms(2) by auto
next
  case (DoSubscribe f bl)
  have "i < mb_next b" using assms(1,2) by (auto simp: broker_wf_def)
  then show ?thesis using assms by (auto simp: DoSubscribe broker_Subscribe_def split: option.splits if_splits)
qed (use assms in \<open>auto simp: skip_next_def cancel_publish_def handle_next_def observe_done_def observe_context_def
      broker_remove_def broker_Close_def split: option.splits if_splits list.splits\<close>)

section \<open>Whole runs\<close>

text \<open>No publish of a topic begins while another one of the same topic is under way.\<close>

definition quiet :: "string \<Rightarrow> mem_broker \<Rightarrow> bool" where
  "quiet t b \<longleftrightarrow> (\<forall>p \<in> set (mb_publishers b). m_topic (pb_msg p) = t \<longrightarrow> pb_targets p = [])"

fun serial_on :: "string \<Rightarrow> broker_label list \<Rightarrow> mem_broker \<Rightarrow> bool" where
  "serial_on t [] b = True"
| "serial_on t (x # xs) b =
     ((case x of BeginPublish m ts \<Rightarrow> m_topic m = t \<longrightarrow> quiet t b | _ \<Rightarrow> True) \<and>
      (case broker_step x b of None \<Rightarrow> True | Some b1 \<Rightarrow> serial_on t xs b1))"

abbreviation on_topic :: "string \<Rightarrow> message list \<Rightarrow> message list" where
  "on_topic t \<equiv> filter (\<lambda>m. m_topic m = t)"

definition ours_all :: "string \<Rightarrow> broker_label list \<Rightarrow> message list" where
  "ours_all f xs = concat (map (ours f) xs)"

lemma quiet_inflight: "quiet t b \<Longrightarrow> on_topic t (inflight i b) = []"
  by (fastforce simp: quiet_def inflight_def filter_empty_conv)

lemma run_table:
  assumes "broker_wf b" "mb_table b i = Some s" "broker_run xs b = Some b2"
  shows "broker_wf b2 \<and> (\<exists>s2. mb_table b2 i = Some s2 \<and> (sb_done s \<longrightarrow> sb_done s2))"
  using assms
proof (induction xs arbitrary: b s)
  case (Cons x xs)
  then obtain b1 where b1: "broker_step x b = Some b1" "broker_run xs b1 = Some b2" by (auto split: option.splits)
  obtain s1 where "mb_table b1 i = Some s1" "sb_done s \<longrightarrow> sb_done s1" using step_table [OF Cons.prems(1,2) b1(1)] by blast
  then show ?case using Cons.IH [OF broker_step_wf [OF Cons.prems(1) b1(1)] _ b1(2)] by blast
qed simp

lemma run_delivery:
  assumes "broker_wf b" "mb_table b i = Some s" "broker_run xs b = Some b2" "mb_table b2 i = Some s2" "\<not> sb_done s2"
    and "\<forall>k. CancelPublish k \<notin> set xs"
  shows "mset (arrived s2) + mset (inflight i b2) = mset (arrived s) + mset (inflight i b) + mset (ours_all (sb_filter s) xs) \<and>
    (serial_on t xs b \<longrightarrow> length (on_topic t (inflight i b)) \<le> 1 \<longrightarrow>
      on_topic t (arrived s2 @ inflight i b2) = on_topic t (arrived s @ inflight i b @ ours_all (sb_filter s) xs))"
  using assms
proof (induction xs arbitrary: b s)
  case (Cons x xs)
  obtain b1 where b1: "broker_step x b = Some b1" "broker_run xs b1 = Some b2" using Cons.prems(3) by (auto split: option.splits)
  obtain s1 where s1: "mb_table b1 i = Some s1" using step_table [OF Cons.prems(1,2) b1(1)] by blast
  note wf1 = broker_step_wf [OF Cons.prems(1) b1(1)]
  have nd: "\<not> sb_done s1" using run_table [OF wf1 s1 b1(2)] Cons.prems(4,5) by auto
  have IH: "mset (arrived s2) + mset (inflight i b2) = mset (arrived s1) + mset (inflight i b1) + mset (ours_all (sb_filter s1) xs)"
    "serial_on t xs b1 \<Longrightarrow> length (on_topic t (inflight i b1)) \<le> 1 \<Longrightarrow>
      on_topic t (arrived s2 @ inflight i b2) = on_topic t (arrived s1 @ inflight i b1 @ ours_all (sb_filter s1) xs)"
    using Cons.IH [OF wf1 s1 b1(2) Cons.prems(4,5)] Cons.prems(6) by auto
  have x: "\<forall>k. x \<noteq> CancelPublish k" using Cons.prems(6) by auto
  note E = step_effect [OF Cons.prems(1,2) b1(1) s1 nd x]
  then have f: "sb_filter s1 = sb_filter s" by blast
  have oc: "ours_all (sb_filter s) (x # xs) = ours (sb_filter s) x @ ours_all (sb_filter s) xs" by (simp add: ours_all_def)
  have q: "on_topic t (ours (sb_filter s) x) = [] \<or> quiet t b \<and> length (on_topic t (ours (sb_filter s) x)) \<le> 1"
    if "serial_on t (x # xs) b"
    using that by (auto simp: ours_def split: broker_label.splits if_splits)
  from E consider "arrived s1 = arrived s" "inflight i b1 = inflight i b @ ours (sb_filter s) x"
    | A m B where "ours (sb_filter s) x = []" "inflight i b = A @ m # B" "inflight i b1 = A @ B" "arrived s1 = arrived s @ [m]"
    by blast
  then show ?case
  proof cases
    case 1
    have "on_topic t (arrived s2 @ inflight i b2) = on_topic t (arrived s @ inflight i b @ ours_all (sb_filter s) (x # xs))"
      if "serial_on t (x # xs) b" "length (on_topic t (inflight i b)) \<le> 1"
    proof -
      have "length (on_topic t (inflight i b1)) \<le> 1"
        using q [OF that(1)] that(2) quiet_inflight [of t b i] by (auto simp: 1)
      moreover have "serial_on t xs b1" using that(1) b1(1) by simp
      ultimately show ?thesis using IH(2) by (simp add: f oc 1)
    qed
    then show ?thesis using IH(1) by (simp add: f oc 1 union_ac)
  next
    case 2
    have "on_topic t (arrived s2 @ inflight i b2) = on_topic t (arrived s @ inflight i b @ ours_all (sb_filter s) (x # xs))"
      if "serial_on t (x # xs) b" "length (on_topic t (inflight i b)) \<le> 1"
    proof -
      have "length (on_topic t (inflight i b1)) \<le> 1" using that(2) by (auto simp: 2 split: if_splits)
      moreover have "serial_on t xs b1" using that(1) b1(1) by simp
      moreover have "on_topic t (m # A @ B) = on_topic t (A @ m # B)" using that(2) by (auto simp: 2 split: if_splits)
      ultimately show ?thesis using IH(2) by (simp add: f oc 2 split: if_splits)
    qed
    then show ?thesis using IH(1) by (simp add: f oc 2 union_ac)
  qed
qed (simp add: ours_all_def)

lemma run_wf: "broker_run xs b = Some b1 \<Longrightarrow> broker_wf b \<Longrightarrow> broker_wf b1"
  by (induction xs arbitrary: b) (auto split: option.splits dest: broker_step_wf)

section \<open>Properties\<close>

text \<open>
  C32: delivery. A subscription starts with the retained messages that match, and from then on, as
  long as it is open and no publisher gives up, every matching message published after it is
  handled, buffered or under way to it, each exactly once and nothing else; and on
  every topic that is published on by one publisher at a time, in the order of publication
  behind the retained message.
\<close>

theorem mem_broker_delivery:
  assumes "broker_run xs0 NewBroker = Some b0" "broker_Subscribe f backlog b0 = Some (Subscribed i, b1)"
    and "broker_run xs b1 = Some b2" "mb_table b2 i = Some s" "\<not> sb_done s" "\<forall>k. CancelPublish k \<notin> set xs"
  shows "mset backlog = mset (matching_retained f b0) \<and>
    mset (sb_handled s @ sb_backlog s @ sb_ch s @ inflight i b2) = mset (backlog @ ours_all f xs) \<and>
    (\<forall>t. serial_on t xs b1 \<longrightarrow>
      on_topic t (sb_handled s @ sb_backlog s @ sb_ch s @ inflight i b2) = on_topic t (backlog @ ours_all f xs))"
proof -
  have wf0: "broker_wf b0" using run_wf [OF assms(1)] by simp
  note wf1 = broker_wf_Subscribe [OF wf0 assms(2)]
  define s1 where "s1 = \<lparr>sb_filter = f, sb_ch = [], sb_done = False, sb_backlog = backlog, sb_handled = [], sb_running = True\<rparr>"
  have sub: "mset backlog = mset (matching_retained f b0) \<and> i = mb_next b0 \<and> mb_publishers b1 = mb_publishers b0 \<and>
      mb_table b1 i = Some s1"
    using assms(2) by (auto simp: broker_Subscribe_def s1_def split: option.splits if_splits)
  have "i \<notin> set (pb_targets p)" if "p \<in> set (mb_publishers b1)" for p
    using wf0 that sub unfolding broker_wf_def by auto
  then have none: "inflight i b1 = []" by (auto simp: inflight_def)
  have s1: "mb_table b1 i = Some s1" "arrived s1 = backlog" "sb_filter s1 = f"
    using sub by (blast, simp_all add: s1_def arrived_def)
  note D = run_delivery [OF wf1 s1(1) assms(3-6), unfolded s1(2,3) none]
  have a: "sb_handled s @ sb_backlog s @ sb_ch s @ inflight i b2 = arrived s @ inflight i b2" by (simp add: arrived_def)
  have "mset (arrived s @ inflight i b2) = mset (backlog @ ours_all f xs)" using D by simp
  moreover have "on_topic t (arrived s @ inflight i b2) = on_topic t (backlog @ ours_all f xs)" if "serial_on t xs b1" for t
    using D [of t] that by simp
  ultimately show ?thesis unfolding a using sub by blast
qed

theorem mem_broker_delivery_witness:
  "let m = \<lparr>m_topic = ''a/b'', m_payload = [1], m_retain = True, m_at = 5\<rparr>;
       xs = [BeginPublish m [0], HandleNext 0, SendNext 1]
   in \<exists>b1 b2 s. broker_Subscribe ''a/+'' [m] (the (broker_run [BeginPublish m []] NewBroker)) = Some (Subscribed 0, b1) \<and>
        broker_run xs b1 = Some b2 \<and> mb_table b2 0 = Some s \<and>
        mset (sb_handled s @ sb_backlog s @ sb_ch s @ inflight 0 b2) = mset [m, m]"
proof -
  define m where "m = \<lparr>m_topic = ''a/b'', m_payload = [1], m_retain = True, m_at = 5\<rparr>"
  define xs where "xs = [BeginPublish m [0], HandleNext 0, SendNext 1]"
  have match: "MatchFilter ''a/+'' ''a/b''" "ValidateFilter ''a/+'' = None"
    by (simp_all add: MatchFilter_def ValidateFilter_def contains_any_def)
  obtain b0 where b0: "broker_run [BeginPublish m []] NewBroker = Some b0" "mb_next b0 = 0" "mb_closed b0 = False"
    "mb_retained b0 = [(''a/b'', m)]" "mb_subs b0 = []" "mb_publishers b0 = [\<lparr>pb_msg = m, pb_targets = []\<rparr>]"
    by (simp add: publish_begin_def NewBroker_def retain_def m_def)
  obtain b1 where b1: "broker_Subscribe ''a/+'' [m] b0 = Some (Subscribed 0, b1)"
    and b1': "mb_subs b1 = [0]" "mb_table b1 0 = Some \<lparr>sb_filter = ''a/+'', sb_ch = [], sb_done = False, sb_backlog = [m], sb_handled = [], sb_running = True\<rparr>"
      "mb_closed b1 = False" "mb_publishers b1 = [\<lparr>pb_msg = m, pb_targets = []\<rparr>]"
    by (simp add: broker_Subscribe_def match matching_retained_def b0)
  obtain b2 s where b2: "broker_run xs b1 = Some b2" "mb_table b2 0 = Some s" "\<not> sb_done s"
    by (simp add: xs_def publish_begin_def b1' wants_def match handle_next_def send_next_def publisher_at_def
        subscriberBuffer_def m_def)
  have "mset (sb_handled s @ sb_backlog s @ sb_ch s @ inflight 0 b2) = mset ([m] @ ours_all ''a/+'' xs)"
    using mem_broker_delivery [OF b0(1) b1 b2] by (simp add: xs_def)
  moreover have "ours_all ''a/+'' xs = [m]" by (simp add: ours_all_def xs_def ours_def match m_def)
  moreover have "mset ([m] @ [m]) = mset [m, m]" by simp
  moreover have "the (broker_run [BeginPublish m []] NewBroker) = b0" by (simp only: b0(1) option.sel)
  ultimately show ?thesis unfolding Let_def m_def [symmetric] xs_def [symmetric] using b1 b2 by metis
qed

text \<open>
  Concurrent publishers of one topic. The retained value is stored under the mutex but the
  message is sent after it, so that two publishers of one topic can be overtaken: a
  subscriber ends with the older message while the broker retains the newer one.
\<close>

theorem concurrent_publishers_reorder:
  "\<exists>xs m1 m2 b s. broker_run (DoSubscribe ''a/+'' [] # BeginPublish m1 [0] # BeginPublish m2 [0] # xs) NewBroker = Some b \<and>
     m_topic m1 = ''a/b'' \<and> m_topic m2 = ''a/b'' \<and> m1 \<noteq> m2 \<and>
     mb_table b 0 = Some s \<and> sb_handled s = [m2, m1] \<and> sb_backlog s @ sb_ch s @ inflight 0 b = [] \<and>
     broker_Retained b ''a/b'' = Some m2"
proof -
  define m1 m2 where "m1 = \<lparr>m_topic = ''a/b'', m_payload = [1], m_retain = True, m_at = 5\<rparr>"
    and "m2 = \<lparr>m_topic = ''a/b'', m_payload = [2], m_retain = True, m_at = 6\<rparr>"
  have match: "MatchFilter ''a/+'' ''a/b''" "ValidateFilter ''a/+'' = None"
    by (simp_all add: MatchFilter_def ValidateFilter_def contains_any_def)
  show ?thesis
    by (rule exI [of _ "[SendNext 1, SendNext 0, HandleNext 0, HandleNext 0]"], rule exI [of _ m1], rule exI [of _ m2])
      (simp add: NewBroker_def broker_Subscribe_def match matching_retained_def publish_begin_def wants_def retain_def
        m1_def m2_def send_next_def handle_next_def publisher_at_def subscriberBuffer_def inflight_def broker_Retained_def)
qed

end
