(* ===== verification/Edge_Pipeline.thy ===== *)
theory Edge_Pipeline
  imports Edge_Node Mem_Broker
begin

text \<open>
  What the handlers of the edge node publish, \<^verbatim>\<open>internal/edge/node.go\<close>. A \<open>batch\<close> is the list of
  payloads that one call of a handler numbers and encodes for one source; it describes the
  queued messages without mentioning the loops. On top of it stand the properties of the
  pipeline: the type and numbering of data messages, outages, tags that share a name, and
  samples that cannot be encoded.
\<close>

section \<open>Batches of data messages\<close>

text \<open>The value of a metric fits the data type that the metric declares.\<close>

fun value_typed :: "string \<Rightarrow> metric_value \<Rightarrow> bool" where
  "value_typed dt NoValue = True"
| "value_typed dt (Int64Val _) = (dt \<in> {''Int16'', ''Int32'', ''UInt16'', ''UInt32''})"
| "value_typed dt (Uint64Val _) = (dt \<in> {''UInt16'', ''UInt32''})"
| "value_typed dt (BoolVal _) = (dt = ''Boolean'')"
| "value_typed dt (Float32Val _) = (dt = ''Float'')"
| "value_typed dt (Float64Val _) = (dt \<notin> {''Int16'', ''Int32'', ''UInt16'', ''UInt32'', ''Boolean'', ''Float''})"
| "value_typed dt (StrVal _) = False"

definition metric_for :: "tag_ref \<Rightarrow> metric \<Rightarrow> bool" where
  "metric_for tr m \<longleftrightarrow> me_Topic m = tr_key tr \<and> me_Name m = tg_Name (tr_Tag tr) \<and>
     me_DataType m = tg_DataType (tr_Tag tr) \<and> value_typed (me_DataType m) (me_Value m)"

definition data_ok :: "string \<Rightarrow> (string \<times> tag_ref) list \<Rightarrow> payload \<Rightarrow> bool" where
  "data_ok source tags p \<longleftrightarrow> pl_Type p = DataMsg \<and> pl_Node p = source \<and>
     (\<exists>k tr m. map_of tags k = Some tr \<and> pl_Metrics p = [m] \<and> metric_for tr m \<and> me_Timestamp m = pl_Timestamp p)"

definition payload_topic :: "payload \<Rightarrow> string" where
  "payload_topic p = me_Topic (hd (pl_Metrics p))"

definition encoded :: "edge_env \<Rightarrow> payload list \<Rightarrow> message list" where
  "encoded env ps = concat (map (\<lambda>p. case en_marshal env p of
       None \<Rightarrow> []
     | Some body \<Rightarrow> [\<lparr>m_topic = payload_topic p, m_payload = body, m_retain = True, m_at = pl_Timestamp p\<rparr>]) ps)"

definition batch :: "edge_env \<Rightarrow> string \<Rightarrow> 'r source_run \<Rightarrow> outgoing list \<Rightarrow> payload list \<Rightarrow> 'r source_run \<Rightarrow> bool" where
  "batch env source run os ps run' \<longleftrightarrow> sr_tags run' = sr_tags run \<and>
     map og_msg os = encoded env ps \<and>
     map pl_Seq ps = map (\<lambda>k. sq_next (sr_seq run) + of_nat k) [0..<length ps] \<and>
     sq_next (sr_seq run') = sq_next (sr_seq run) + of_nat (length ps) \<and>
     (\<forall>p \<in> set ps. data_ok source (sr_tags run) p)"

lemma castValue_typed [simp]: "value_typed dt (castValue env dt v)"
  by (simp add: castValue_def)

lemma last_value_typed [simp]: "value_typed (tg_DataType t) (last_value env t ev)"
  by (simp add: last_value_def split: prod.splits)

lemma batch_Nil [simp]: "batch env source run [] [] run"
  by (simp add: batch_def encoded_def)

lemma emit_batch:
  assumes "emit env source tr value at0 verd run = (o1, run1)" "map_of (sr_tags run) k = Some tr"
    and "value_typed (tg_DataType (tr_Tag tr)) value"
  shows "\<exists>p. batch env source run o1 [p] run1 \<and> payload_topic p = tr_key tr \<and> pl_Metrics p = [node_metric tr source value at0 verd]"
proof -
  let ?m = "node_metric tr source value at0 verd"
  define p where "p = \<lparr>pl_Type = DataMsg, pl_Timestamp = at0, pl_Seq = sq_next (sr_seq run), pl_Node = source, pl_Metrics = [?m]\<rparr>"
  have m: "metric_for tr ?m" "me_Timestamp ?m = at0" "me_Topic ?m = tr_key tr"
    using assms(3) by (simp_all add: metric_for_def node_metric_def Let_def)
  have "data_ok source (sr_tags run) p" using assms(2) m by (auto simp: data_ok_def p_def)
  moreover have "run1 = run\<lparr>sr_seq := (sr_seq run)\<lparr>sq_next := sq_next (sr_seq run) + 1\<rparr>\<rparr>" "map og_msg o1 = encoded env [p]"
    using assms(1) m(3)
    by (auto simp: emit_def Let_def sequencer_Next_def encoded_def p_def payload_topic_def split: option.splits)
  ultimately have "batch env source run o1 [p] run1" by (simp add: batch_def p_def)
  then show ?thesis using m(3) by (auto simp: p_def payload_topic_def)
qed

lemma batch_Cons:
  assumes "batch env source run o1 [p] run1" "batch env source run1 os ps run'"
  shows "batch env source run (o1 @ os) (p # ps) run'"
proof -
  have "map (\<lambda>k. sq_next (sr_seq run1) + of_nat k) [0..<length ps] = map (\<lambda>k. sq_next (sr_seq run) + of_nat k) [1..<Suc (length ps)]"
    using assms(1) by (simp only: batch_def One_nat_def map_Suc_upt [symmetric] map_map comp_def) (simp add: algebra_simps)
  then show ?thesis
    using assms by (auto simp: batch_def encoded_def upt_conv_Cons algebra_simps simp del: upt_Suc)
qed

lemma readings_loop_batch:
  "readings_loop env now source rs run evals = Some (os, run', evals') \<Longrightarrow> \<exists>ps. batch env source run os ps run'"
proof (induction rs arbitrary: run evals os)
  case (Cons r rs)
  show ?case
  proof (cases "map_of (sr_tags run) (re_Tag r)")
    case None
    then show ?thesis using Cons by simp
  next
    case (Some tr)
    obtain ev where ev: "evals (tr_key tr) = Some ev" using Cons.prems Some by (auto split: option.splits)
    define at0 vv where "at0 = (if re_At r = zero_time then now else re_At r)"
      and "vv = scale_Apply (tg_Scale (tr_Tag tr)) (re_Value r)"
    obtain verd ev1 where o: "Observe vv at0 ev = (verd, ev1)" by fastforce
    obtain o2 run1 where e: "emit env source tr (castValue env (tg_DataType (tr_Tag tr)) vv) at0 verd run = (o2, run1)" by fastforce
    obtain os1 where l: "readings_loop env now source rs run1 (evals(tr_key tr \<mapsto> ev1)) = Some (os1, run', evals')" "os = o2 @ os1"
      using Cons.prems(1) by (auto simp: Some ev Let_def at0_def [symmetric] vv_def [symmetric] o e split: option.splits)
    obtain p where "batch env source run o2 [p] run1" using emit_batch [OF e Some] by auto
    then show ?thesis using Cons.IH [OF l(1)] batch_Cons l(2) by blast
  qed
qed (auto intro: exI [of _ "[]"])

lemma stale_loop_batch:
  "stale_loop env now source names run evals = Some (os, run', evals') \<Longrightarrow> \<exists>ps. batch env source run os ps run'"
proof (induction names arbitrary: run evals os)
  case (Cons name names)
  obtain tr where tr: "map_of (sr_tags run) name = Some tr" using Cons.prems by (auto split: option.splits)
  obtain ev where ev: "evals (tr_key tr) = Some ev" using Cons.prems tr by (auto split: option.splits)
  obtain verd changed ev1 where o: "Check now ev = ((verd, changed), ev1)" by (metis prod.collapse)
  obtain o1 run1 where e: "emit env source tr (last_value env (tr_Tag tr) ev1) now verd run = (o1, run1)" by fastforce
  show ?case
  proof (cases changed)
    case False
    then show ?thesis using Cons by (simp add: tr ev o)
  next
    case True
    then obtain os1 where l: "stale_loop env now source names run1 (evals(tr_key tr \<mapsto> ev1)) = Some (os1, run', evals')" "os = o1 @ os1"
      using Cons.prems by (auto simp: tr ev o e split: option.splits)
    obtain p where "batch env source run o1 [p] run1" using emit_batch [OF e tr] by auto
    then show ?thesis using Cons.IH [OF l(1)] batch_Cons l(2) by blast
  qed
qed (auto intro: exI [of _ "[]"])

section \<open>Outages\<close>

definition is_bad :: "(string \<rightharpoonup> evaluator) \<Rightarrow> string \<Rightarrow> bool" where
  "is_bad evals k \<longleftrightarrow> (\<exists>ev. evals k = Some ev \<and> v_Quality (quality_Current ev) = QualityBad)"

lemma error_loop_bad:
  assumes "error_loop env now source err names run evals = Some (os, run', evals')"
  shows "sr_tags run' = sr_tags run \<and> (\<forall>k. is_bad evals k \<longrightarrow> is_bad evals' k) \<and>
    (\<forall>name \<in> set names. \<forall>tr. map_of (sr_tags run) name = Some tr \<longrightarrow> is_bad evals' (tr_key tr))"
  using assms
proof (induction names arbitrary: run evals os)
  case (Cons name names)
  obtain tr where tr: "map_of (sr_tags run) name = Some tr" using Cons.prems by (auto split: option.splits)
  obtain ev where ev: "evals (tr_key tr) = Some ev" using Cons.prems tr by (auto split: option.splits)
  obtain verd ev1 where o: "Comm (Some err) ev = (verd, ev1)" by fastforce
  obtain o1 run1 where e: "emit env source tr (last_value env (tr_Tag tr) ev1) now verd run = (o1, run1)" by fastforce
  show ?case
  proof (cases "v_Quality (quality_Current ev) = QualityBad")
    case True
    then have "error_loop env now source err names run evals = Some (os, run', evals')"
      using Cons.prems by (simp add: tr ev)
    from Cons.IH [OF this] True ev tr show ?thesis by (auto simp: is_bad_def)
  next
    case False
    then obtain os1 where "error_loop env now source err names run1 (evals(tr_key tr \<mapsto> ev1)) = Some (os1, run', evals')"
      using Cons.prems by (auto simp: tr ev o e split: option.splits)
    note IH = Cons.IH [OF this]
    have "v_Quality (quality_Current ev1) = QualityBad"
      using o by (auto simp: Comm_def quality_Current_def Let_def)
    then have "is_bad (evals(tr_key tr \<mapsto> ev1)) (tr_key tr)" "\<And>k. is_bad evals k \<Longrightarrow> is_bad (evals(tr_key tr \<mapsto> ev1)) k"
      by (auto simp: is_bad_def)
    with IH tr emit_tags [OF e] show ?thesis by (auto simp del: fun_upd_apply)
  qed
qed simp

lemma error_loop_quiet:
  assumes "\<forall>name \<in> set names. \<exists>tr. map_of (sr_tags run) name = Some tr \<and> is_bad evals (tr_key tr)"
  shows "error_loop env now source err names run evals = Some ([], run, evals)"
  using assms
proof (induction names)
  case (Cons name names)
  then obtain tr ev where "map_of (sr_tags run) name = Some tr" "evals (tr_key tr) = Some ev"
    "v_Quality (quality_Current ev) = QualityBad"
    by (auto simp: is_bad_def)
  then show ?case using Cons by simp
qed simp

section \<open>Tags of one source with the same name\<close>

definition named :: "(string \<times> tag_ref) list \<Rightarrow> bool" where
  "named tags \<longleftrightarrow> (\<forall>k tr. map_of tags k = Some tr \<longrightarrow> tg_Name (tr_Tag tr) = k)"

lemma fold_add_tag_named:
  assumes "named (sr_tags run)" "fold (add_tag p def) trs (run, evals) = (run', evals')"
  shows "named (sr_tags run')"
  using assms
proof (induction trs arbitrary: run evals)
  case (Cons tr trs)
  define run1 evals1 where "run1 = run\<lparr>sr_tags := AList.update (tg_Name (tr_Tag tr)) tr (sr_tags run)\<rparr>"
    and "evals1 = evals(tr_key tr \<mapsto> quality_New (tag_quality_config p (tr_Tag tr) (so_PollInterval def)))"
  have "named (sr_tags run1)" using Cons.prems(1) by (auto simp: named_def run1_def update_conv')
  moreover have "add_tag p def tr (run, evals) = (run1, evals1)" by (simp add: add_tag_def run1_def evals1_def)
  ultimately show ?case using Cons.IH [of run1 evals1] Cons.prems(2) by simp
qed simp

lemma add_sources_named:
  assumes "add_sources sorter ns defs n = Inr n'" "\<forall>name run. nd_sources n name = Some run \<longrightarrow> named (sr_tags run)"
  shows "\<forall>name run. nd_sources n' name = Some run \<longrightarrow> named (sr_tags run)"
  using assms
proof (induction defs arbitrary: n)
  case (Cons s defs)
  let ?trs = "TagsForSource (nd_idx n) (so_Name s)"
  show ?case
  proof (cases "?trs = []")
    case True
    then show ?thesis using Cons by simp
  next
    case False
    obtain src where src: "collectors_New sorter ns s ?trs = Inr src"
      using Cons.prems(1) False by (auto simp: Let_def split: sum.splits)
    let ?run0 = "\<lparr>sr_def = s, sr_src = src, sr_tags = [], sr_seq = \<lparr>sq_next = 0\<rparr>\<rparr>"
    obtain run evals where f: "fold (add_tag (ix_plant (nd_idx n)) s) ?trs (?run0, nd_evals n) = (run, evals)" by fastforce
    define n1 where "n1 = n\<lparr>nd_evals := evals, nd_sources := (nd_sources n)(so_Name s \<mapsto> run),
       nd_order := nd_order n @ [so_Name s], nd_health := health_Register (so_Name s) (source_type_String (so_Type s)) (nd_health n)\<rparr>"
    have "named (sr_tags run)" by (rule fold_add_tag_named [OF _ f]) (simp add: named_def)
    then have n1: "\<forall>name run. nd_sources n1 name = Some run \<longrightarrow> named (sr_tags run)"
      using Cons.prems(2) by (simp add: n1_def)
    have "add_sources sorter ns defs n1 = Inr n'"
      using Cons.prems(1) False by (simp add: src f n1_def Let_def)
    from Cons.IH [OF this n1] show ?thesis .
  qed
qed simp

definition tag_key :: "(string \<times> tag_ref) list \<Rightarrow> string \<Rightarrow> string" where
  "tag_key tags name = (case map_of tags name of None \<Rightarrow> [] | Some tr \<Rightarrow> tr_key tr)"

lemma error_loop_batch:
  assumes "error_loop env now source err names run evals = Some (os, run', evals')"
  shows "\<exists>ps. batch env source run os ps run' \<and> (\<forall>p \<in> set ps. me_Quality (hd (pl_Metrics p)) = QualityBad) \<and>
    (distinct (map (tag_key (sr_tags run)) names) \<longrightarrow>
       map payload_topic ps = filter (\<lambda>k. \<not> is_bad evals k) (map (tag_key (sr_tags run)) names))"
  using assms
proof (induction names arbitrary: run evals os)
  case (Cons name names)
  obtain tr where tr: "map_of (sr_tags run) name = Some tr" using Cons.prems by (auto split: option.splits)
  obtain ev where ev: "evals (tr_key tr) = Some ev" using Cons.prems tr by (auto split: option.splits)
  have key: "tag_key (sr_tags run) name = tr_key tr" by (simp add: tag_key_def tr)
  obtain verd ev1 where o: "Comm (Some err) ev = (verd, ev1)" by fastforce
  obtain o1 run1 where e: "emit env source tr (last_value env (tr_Tag tr) ev1) now verd run = (o1, run1)" by fastforce
  show ?case
  proof (cases "v_Quality (quality_Current ev) = QualityBad")
    case True
    then have "error_loop env now source err names run evals = Some (os, run', evals')"
      using Cons.prems by (simp add: tr ev)
    moreover have "is_bad evals (tr_key tr)" using True ev by (simp add: is_bad_def)
    ultimately show ?thesis using Cons.IH [of run evals os] key by auto
  next
    case False
    then obtain os1 where l: "error_loop env now source err names run1 (evals(tr_key tr \<mapsto> ev1)) = Some (os1, run', evals')"
      and os: "os = o1 @ os1"
      using Cons.prems by (auto simp: tr ev o e split: option.splits)
    let ?ks = "map (tag_key (sr_tags run)) names"
    obtain ps where ps: "batch env source run1 os1 ps run'" "\<forall>p \<in> set ps. me_Quality (hd (pl_Metrics p)) = QualityBad"
      "distinct ?ks \<longrightarrow> map payload_topic ps = filter (\<lambda>k. \<not> is_bad (evals(tr_key tr \<mapsto> ev1)) k) ?ks"
      using Cons.IH [OF l] emit_tags [OF e] by (auto simp del: fun_upd_apply)
    obtain p where p: "batch env source run o1 [p] run1" "payload_topic p = tr_key tr"
      "pl_Metrics p = [node_metric tr source (last_value env (tr_Tag tr) ev1) now verd]"
      using emit_batch [OF e tr] by auto
    have "verd = \<lparr>v_Quality = QualityBad, v_Rule = v_Rule verd, v_Reason = v_Reason verd\<rparr>"
      using o by (auto simp: Comm_def Let_def)
    then have "v_Quality verd = QualityBad" by (metis verdict.select_convs(1))
    then have bad: "me_Quality (hd (pl_Metrics p)) = QualityBad"
      by (simp add: p(3) node_metric_def Let_def)
    have nb: "\<not> is_bad evals (tr_key tr)" using False ev by (simp add: is_bad_def)
    have other: "is_bad (evals(tr_key tr \<mapsto> ev1)) k = is_bad evals k" if "k \<noteq> tr_key tr" for k
      using that by (simp add: is_bad_def)
    have "filter (\<lambda>k. \<not> is_bad (evals(tr_key tr \<mapsto> ev1)) k) ?ks = filter (\<lambda>k. \<not> is_bad evals k) ?ks"
      if "tr_key tr \<notin> set ?ks"
      by (rule filter_cong [OF refl]) (use that other in metis)
    then show ?thesis
      using batch_Cons [OF p(1) ps(1)] ps(2,3) bad p(2) nb key os
      by (intro exI [of _ "p # ps"]) (auto simp del: fun_upd_apply)
  qed
qed (auto intro: exI [of _ "[]"])

lemma locked_Some:
  assumes "locked source f n = Some (os, n1)" "nd_sources n source = Some run"
  obtains run' evals' where "f run (nd_evals n) = Some (os, run', evals')"
    "n1 = n\<lparr>nd_sources := (nd_sources n)(source \<mapsto> run'), nd_evals := evals'\<rparr>"
  using assms by (auto simp: locked_def split: option.splits)

section \<open>Topics that the node can publish on\<close>

definition node_tags :: "('r, 'b) node \<Rightarrow> string \<rightharpoonup> (string \<times> tag_ref) list" where
  "node_tags n name = map_option sr_tags (nd_sources n name)"

definition data_topics :: "('r, 'b) node \<Rightarrow> string set" where
  "data_topics n = {tr_key tr | name tags k tr. node_tags n name = Some tags \<and> map_of tags k = Some tr}"

lemma encoded_topics:
  "\<forall>p \<in> set ps. data_ok source tags p \<Longrightarrow> m \<in> set (encoded env ps) \<Longrightarrow> \<exists>k tr. map_of tags k = Some tr \<and> m_topic m = tr_key tr"
  by (fastforce simp: encoded_def data_ok_def metric_for_def payload_topic_def split: option.splits)

lemma locked_topics:
  fixes n :: "('r, 'b) node"
  assumes "locked source f n = Some (os, n1)"
    and "\<And>(run :: 'r source_run) evals os run' evals'. f run evals = Some (os, run', evals') \<Longrightarrow> \<exists>ps. batch env source run os ps run'"
  shows "node_tags n1 = node_tags n \<and> nd_broker n1 = nd_broker n \<and> (\<forall>o1 \<in> set os. m_topic (og_msg o1) \<in> data_topics n)"
proof (cases "nd_sources n source")
  case None
  then show ?thesis using assms(1) by (simp add: locked_def)
next
  case (Some run)
  obtain run' evals' where f: "f run (nd_evals n) = Some (os, run', evals')"
    and n1: "n1 = n\<lparr>nd_sources := (nd_sources n)(source \<mapsto> run'), nd_evals := evals'\<rparr>"
    using assms(1) by (rule locked_Some [OF _ Some]) blast
  obtain ps where b: "batch env source run os ps run'" using assms(2) [OF f] by blast
  have "node_tags n1 = node_tags n" using b Some by (auto simp: node_tags_def n1 batch_def)
  moreover have "m_topic (og_msg o1) \<in> data_topics n" if "o1 \<in> set os" for o1
  proof -
    have "og_msg o1 \<in> set (encoded env ps)" using b that unfolding batch_def by (metis image_eqI list.set_map)
    then obtain k tr where "map_of (sr_tags run) k = Some tr" "m_topic (og_msg o1) = tr_key tr"
      using encoded_topics b unfolding batch_def by blast
    moreover have "node_tags n source = Some (sr_tags run)" using Some by (simp add: node_tags_def)
    ultimately show ?thesis unfolding data_topics_def by blast
  qed
  ultimately show ?thesis by (simp add: n1)
qed

lemma make_stale_topics:
  "make_stale env now names n = Some (os, n1) \<Longrightarrow>
    node_tags n1 = node_tags n \<and> nd_broker n1 = nd_broker n \<and> (\<forall>o1 \<in> set os. m_topic (og_msg o1) \<in> data_topics n)"
proof (induction names arbitrary: n os)
  case (Cons name names)
  then obtain os1 n2 os2 where l: "locked name (\<lambda>run evals. stale_loop env now name (sortedKeys (sr_tags run)) run evals) n = Some (os1, n2)"
    and s: "make_stale env now names n2 = Some (os2, n1)" "os = os1 @ os2"
    by (auto split: option.splits if_splits)
  from locked_topics [OF l stale_loop_batch] Cons.IH [OF s(1)] s(2) show ?case by (auto simp: data_topics_def)
qed simp

text \<open>
  What the node relies on of a broker here: it is given only the messages that are published.
\<close>

locale publish_log =
  fixes B :: "'b broker_ops"
    and sent :: "'b \<Rightarrow> message set"
  assumes publish_law: "sent (snd (bk_Publish B c m b)) \<subseteq> insert m (sent b)"
begin

lemma publishAll_sent:
  "node_tags (publishAll B c os n) = node_tags n \<and>
   sent (nd_broker (publishAll B c os n)) \<subseteq> sent (nd_broker n) \<union> og_msg ` set os"
proof (induction os arbitrary: n)
  case (Cons o1 os)
  let ?n1 = "n\<lparr>nd_broker := snd (bk_Publish B c (og_msg o1) (nd_broker n)),
     nd_latest := snd (latest_Set (as_ID (ar_Asset (tr_Ref (og_tr o1)))) (og_m o1) (nd_latest n))\<rparr>"
  have "node_tags ?n1 = node_tags n" by (simp add: node_tags_def [abs_def])
  then show ?case using Cons.IH [of ?n1] publish_law [of c "og_msg o1" "nd_broker n"] by (auto simp: Let_def)
qed simp

lemma node_step_topics:
  fixes n :: "('r, 'b) node"
  assumes "node_step B env x n = Some n'" "lifecycle_of (fst x) = None"
  shows "node_tags n' = node_tags n \<and> m_topic ` sent (nd_broker n') \<subseteq> m_topic ` sent (nd_broker n) \<union> data_topics n"
proof -
  obtain call now c where x: "x = (call, now, c)" by (cases x)
  have pub: ?thesis
    if "n' = publishAll B c os n1" "node_tags n1 = node_tags n \<and> nd_broker n1 = nd_broker n \<and>
      (\<forall>o1 \<in> set os. m_topic (og_msg o1) \<in> data_topics n)" for os n1
    using that publishAll_sent [of c os n1] by auto
  have eb: "\<exists>ps. batch env s run os ps run'"
    if "error_loop env now s e (sortedKeys (sr_tags run)) run evals = Some (os, run', evals')"
    for s e and run run' :: "'r source_run" and os evals evals'
    using error_loop_batch [OF that] by blast
  show ?thesis
  proof (cases call)
    case (CallReadings s rs)
    show ?thesis
    proof (cases "nd_sources n s = None \<or> rs = []")
      case False
      then obtain os n1 where r: "make_readings env now s rs n = Some (os, n1)" "n' = publishAll B c os n1"
        using assms(1) by (auto simp: x CallReadings node_OnReadings_def split: if_splits)
      from pub [OF r(2) locked_topics [OF r(1) [unfolded make_readings_def] readings_loop_batch]] show ?thesis .
    qed (use assms(1) in \<open>auto simp: x CallReadings node_OnReadings_def\<close>)
  next
    case (CallError s e)
    show ?thesis
    proof (cases "nd_sources n s = None")
      case False
      then obtain os n1 where r: "make_errors env now s e n = Some (os, n1)" "n' = publishAll B c os n1"
        using assms(1) by (auto simp: x CallError node_OnError_def)
      from pub [OF r(2) locked_topics [OF r(1) [unfolded make_errors_def] eb]] show ?thesis .
    qed (use assms(1) in \<open>auto simp: x CallError node_OnError_def\<close>)
  next
    case CallStale
    then obtain os n1 where r: "make_stale env now (nd_order n) n = Some (os, n1)" "n' = publishAll B c os n1"
      using assms(1) by (auto simp: x checkStale_def)
    from pub [OF r(2) make_stale_topics [OF r(1)]] show ?thesis .
  qed (use assms(2) in \<open>simp_all add: x\<close>)
qed

lemma node_run_topics:
  "node_run B env xs n = Some n' \<Longrightarrow> \<forall>x \<in> set xs. lifecycle_of (fst x) = None \<Longrightarrow>
    m_topic ` sent (nd_broker n') \<subseteq> m_topic ` sent (nd_broker n) \<union> data_topics n"
proof (induction xs arbitrary: n)
  case (Cons x xs)
  then obtain n1 where s: "node_step B env x n = Some n1" "node_run B env xs n1 = Some n'"
    by (auto split: option.splits)
  have "node_tags n1 = node_tags n" "m_topic ` sent (nd_broker n1) \<subseteq> m_topic ` sent (nd_broker n) \<union> data_topics n"
    using node_step_topics [OF s(1)] Cons.prems(2) by auto
  moreover from this(1) have "data_topics n1 = data_topics n" by (simp add: data_topics_def)
  moreover have "m_topic ` sent (nd_broker n') \<subseteq> m_topic ` sent (nd_broker n1) \<union> data_topics n1"
    using Cons.IH [OF s(2)] Cons.prems(2) by simp
  ultimately show ?case by blast
qed simp

end

text \<open>
  The in-process broker: the part of \<^verbatim>\<open>Publish\<close> under its mutex, with the subscriptions in the
  order of registration; the sends to the channels follow as steps of that broker.
\<close>

definition mem_publish :: "bool \<Rightarrow> message \<Rightarrow> mem_broker \<Rightarrow> port_error option \<times> mem_broker" where
  "mem_publish cancelled m b =
     (case publish_begin m (if mb_closed b then [] else filter (wants b (m_topic m)) (mb_subs b)) b of
        None \<Rightarrow> (None, b)
      | Some r \<Rightarrow> r)"

definition mem_broker_ops :: "mem_broker broker_ops" where
  "mem_broker_ops = \<lparr>bk_Publish = mem_publish\<rparr>"

definition mem_sent :: "mem_broker \<Rightarrow> message set" where
  "mem_sent b = pb_msg ` set (mb_publishers b)"

interpretation mem_log: publish_log mem_broker_ops mem_sent
  by unfold_locales (auto simp: mem_broker_ops_def mem_publish_def publish_begin_def mem_sent_def split: if_splits)

lemma fold_add_tag_values:
  "fold (add_tag p def) trs (run, evals) = (run', evals') \<Longrightarrow> snd ` set (sr_tags run') \<subseteq> snd ` set (sr_tags run) \<union> set trs"
proof (induction trs arbitrary: run evals)
  case (Cons tr trs)
  have upd: "snd ` set (AList.update k tr xs) \<subseteq> insert tr (snd ` set xs)" for k and xs :: "(string \<times> tag_ref) list"
    by (induction xs) auto
  define run1 evals1 where "run1 = run\<lparr>sr_tags := AList.update (tg_Name (tr_Tag tr)) tr (sr_tags run)\<rparr>"
    and "evals1 = evals(tr_key tr \<mapsto> quality_New (tag_quality_config p (tr_Tag tr) (so_PollInterval def)))"
  have "add_tag p def tr (run, evals) = (run1, evals1)" by (simp add: add_tag_def run1_def evals1_def)
  then have "fold (add_tag p def) trs (run1, evals1) = (run', evals')" using Cons.prems by simp
  then have "snd ` set (sr_tags run') \<subseteq> snd ` set (sr_tags run1) \<union> set trs" by (rule Cons.IH)
  moreover have "snd ` set (sr_tags run1) \<subseteq> insert tr (snd ` set (sr_tags run))"
    using upd [of "tg_Name (tr_Tag tr)" "sr_tags run"] by (simp add: run1_def)
  ultimately show ?case unfolding list.set by blast
qed simp

lemma add_sources_tags:
  fixes n :: "('r, 'b) node"
  assumes "add_sources sorter ns defs n = Inr n'" "nd_idx n = ix"
    and "\<forall>name run. nd_sources n name = Some run \<longrightarrow> snd ` set (sr_tags run) \<subseteq> set (TagsForSource ix name)"
  shows "nd_broker n' = nd_broker n \<and> (\<forall>name run. nd_sources n' name = Some run \<longrightarrow> snd ` set (sr_tags run) \<subseteq> set (TagsForSource ix name))"
  using assms
proof (induction defs arbitrary: n)
  case (Cons s defs)
  let ?trs = "TagsForSource ix (so_Name s)"
  show ?case
  proof (cases "?trs = []")
    case True
    then show ?thesis using Cons by simp
  next
    case False
    obtain src where src: "collectors_New sorter ns s ?trs = Inr src"
      using Cons.prems(1,2) False by (auto simp: Let_def split: sum.splits)
    let ?run0 = "\<lparr>sr_def = s, sr_src = src, sr_tags = [], sr_seq = \<lparr>sq_next = 0\<rparr>\<rparr>"
    obtain run evals where f: "fold (add_tag (ix_plant ix) s) ?trs (?run0, nd_evals n) = (run, evals)" by fastforce
    define n1 where "n1 = n\<lparr>nd_evals := evals, nd_sources := (nd_sources n)(so_Name s \<mapsto> run),
       nd_order := nd_order n @ [so_Name s], nd_health := health_Register (so_Name s) (source_type_String (so_Type s)) (nd_health n)\<rparr>"
    have "snd ` set (sr_tags run) \<subseteq> set ?trs"
      using fold_add_tag_values [OF f] by simp
    then have n1: "\<forall>name run. nd_sources n1 name = Some run \<longrightarrow> snd ` set (sr_tags run) \<subseteq> set (TagsForSource ix name)" "nd_idx n1 = ix"
      using Cons.prems(2,3) by (simp_all add: n1_def)
    have "add_sources sorter ns defs n1 = Inr n'"
      using Cons.prems(1,2) False by (simp add: src f n1_def Let_def)
    from Cons.IH [OF this n1(2,1)] show ?thesis by (simp add: n1_def)
  qed
qed simp

text \<open>The tables of the node of a parsed plant.\<close>

lemma edge_New_tables:
  assumes "edge_New sorter ns cfg ix broker h = Inr n" "node_tags n source = Some tags" "map_of tags k = Some tr"
  shows "tg_Name (tr_Tag tr) = k \<and> tr \<in> set (TagsForSource ix source)"
proof -
  let ?n0 = "\<lparr>nd_cfg = edge_defaults cfg, nd_idx = ix, nd_broker = broker, nd_health = h, nd_latest = NewLatest,
              nd_sources = Map.empty, nd_order = [], nd_evals = Map.empty\<rparr>"
  obtain run where run: "nd_sources n source = Some run" "sr_tags run = tags"
    using assms(2) by (auto simp: node_tags_def)
  have a: "add_sources sorter ns (pt_Sources (ix_plant ix)) ?n0 = Inr n"
    using assms(1) by (auto simp: edge_New_def split: sum.splits if_splits)
  have "named tags" using add_sources_named [OF a] run by auto
  moreover have "snd ` set tags \<subseteq> set (TagsForSource ix source)" using add_sources_tags [OF a, of ix] run by auto
  ultimately show ?thesis using assms(3) map_of_SomeD [OF assms(3)] unfolding named_def by force
qed

lemma edge_New_broker: "edge_New sorter ns cfg ix broker h = Inr n \<Longrightarrow> nd_broker n = broker"
  by (auto simp: edge_New_def split: sum.splits if_splits dest!: add_sources_tags [where ix = ix])

section \<open>Samples\<close>

definition sample_ref :: tag_ref where
  "sample_ref = hd (plant_tag_refs sample_plant)"

definition sample_node :: "(unit, message list) node" where
  "sample_node = \<lparr>nd_cfg = edge_defaults \<lparr>ec_StaleCheckInterval = 0, ec_DeathTimeout = 0\<rparr>, nd_idx = plant_Index sample_plant,
     nd_broker = [], nd_health = NewHealth, nd_latest = NewLatest,
     nd_sources = [''line1'' \<mapsto> \<lparr>sr_def = hd (pt_Sources sample_plant),
        sr_src = SimC \<lparr>ss_name = ''line1'', ss_tags = [''speed'' \<mapsto> ''speed''], ss_line = NewLine (\<lambda>_. ()) 1, ss_last = zero_time\<rparr>,
        sr_tags = [(''speed'', sample_ref)], sr_seq = \<lparr>sq_next = 255\<rparr>\<rparr>],
     nd_order = [''line1''],
     nd_evals = [tr_key sample_ref \<mapsto> quality_New (tag_quality_config sample_plant sample_tag (seconds 1))]\<rparr>"

text \<open>An encoder that, as JSON, has no form for not-a-number.\<close>

definition sample_env :: edge_env where
  "sample_env = \<lparr>en_marshal = (\<lambda>p. if \<exists>m \<in> set (pl_Metrics p). me_Value m = Float32Val NaN then None else Some [pl_Seq p]),
     en_unrep = (\<lambda>_. 0)\<rparr>"

lemma sample_ref_tag [simp]: "tr_Tag sample_ref = sample_tag"
  by (simp add: sample_ref_def plant_tag_refs_def plant_entries_def sample_plant_def sample_asset_def entry_tag_refs_def
      area_entries_def line_entries_def cell_entries_def)

lemma sample_errors:
  "\<exists>o1 n1. make_errors sample_env 5 ''line1'' ''refused'' sample_node = Some ([o1], n1) \<and> m_payload (og_msg o1) = [255]"
  by (simp add: make_errors_def locked_def sample_node_def sortedKeys_def quality_New_def quality_Current_def GoodVerdict_def
      Comm_def Let_def emit_def sequencer_Next_def sample_env_def node_metric_def last_value_def quality_Last_def)

section \<open>Properties\<close>

text \<open>
  C29: data messages. Whatever a handler queues for a source is a batch: each payload is a data
  message of that source with one metric of one of its tags, the metric is named, addressed
  and typed as the tag declares, the sequence numbers continue the source's counter modulo
  256 without a gap, and the messages are the payloads that could be encoded, in order,
  retained, on the topic of their tag.
\<close>

theorem data_messages_typed:
  assumes "nd_sources n source = Some run"
    and "make_readings env now source rs n = Some (os, n1) \<or> make_errors env now source err n = Some (os, n1) \<or>
         make_stale env now [source] n = Some (os, n1)"
  shows "\<exists>ps run'. nd_sources n1 source = Some run' \<and> sr_tags run' = sr_tags run \<and>
    map og_msg os = encoded env ps \<and>
    (\<forall>p \<in> set ps. pl_Type p = DataMsg \<and> pl_Node p = source \<and>
       (\<exists>k tr m. map_of (sr_tags run) k = Some tr \<and> pl_Metrics p = [m] \<and> me_Topic m = tr_key tr \<and>
          me_Name m = tg_Name (tr_Tag tr) \<and> me_DataType m = tg_DataType (tr_Tag tr) \<and>
          value_typed (me_DataType m) (me_Value m))) \<and>
    map (unat \<circ> pl_Seq) ps = map (\<lambda>k. (unat (sq_next (sr_seq run)) + k) mod 256) [0..<length ps] \<and>
    unat (sq_next (sr_seq run')) = (unat (sq_next (sr_seq run)) + length ps) mod 256"
proof -
  consider "make_readings env now source rs n = Some (os, n1)" | "make_errors env now source err n = Some (os, n1)"
    | "locked source (\<lambda>run evals. stale_loop env now source (sortedKeys (sr_tags run)) run evals) n = Some (os, n1)"
    using assms by (auto split: option.splits)
  then obtain ps run' where b: "batch env source run os ps run'" "nd_sources n1 source = Some run'"
  proof cases
    case 1
    then show ?thesis unfolding make_readings_def
      by (rule locked_Some [OF _ assms(1)]) (use that in \<open>auto dest!: readings_loop_batch\<close>)
  next
    case 2
    then show ?thesis unfolding make_errors_def
      by (rule locked_Some [OF _ assms(1)]) (use that in \<open>auto dest!: error_loop_batch\<close>)
  next
    case 3
    then show ?thesis
      by (rule locked_Some [OF _ assms(1)]) (use that in \<open>auto dest!: stale_loop_batch\<close>)
  qed
  have u: "unat (s + of_nat k) = (unat s + k) mod 256" for s :: byte and k
    by (simp add: unat_word_ariths unsigned_of_nat take_bit_eq_mod mod_add_right_eq)
  have seq: "map pl_Seq ps = map (\<lambda>k. sq_next (sr_seq run) + of_nat k) [0..<length ps]"
    using b(1) by (simp add: batch_def)
  have "map (unat \<circ> pl_Seq) ps = map unat (map pl_Seq ps)" by simp
  also have "\<dots> = map (\<lambda>k. (unat (sq_next (sr_seq run)) + k) mod 256) [0..<length ps]"
    unfolding seq by (simp add: comp_def u)
  finally show ?thesis
    using b u unfolding batch_def data_ok_def metric_for_def by fastforce
qed

theorem data_messages_typed_witness:
  "\<exists>os n1 ps. make_errors sample_env 5 ''line1'' ''refused'' sample_node = Some (os, n1) \<and> os \<noteq> [] \<and>
    map og_msg os = encoded sample_env ps \<and> map (unat \<circ> pl_Seq) ps = map (\<lambda>k. (255 + k) mod 256) [0..<length ps]"
proof -
  obtain o1 n1 where e: "make_errors sample_env 5 ''line1'' ''refused'' sample_node = Some ([o1], n1)" using sample_errors by blast
  obtain run where run: "nd_sources sample_node ''line1'' = Some run" "sq_next (sr_seq run) = 255"
    by (simp add: sample_node_def)
  from data_messages_typed [OF run(1), of sample_env 5 "[]" "[o1]" n1 "''refused''"] e run(2) show ?thesis by fastforce
qed

text \<open>
  C30: an outage is reported once. The first failed cycle of a source queues one message per tag
  that was not BAD already, in the order of the tag names, with quality BAD (short of the
  encoder), afterwards every tag of the source is BAD, and the following failed cycles
  queue nothing and leave the node as it is.
\<close>

theorem outage_reported_once:
  assumes "nd_sources n source = Some run" "make_errors env now source err n = Some (os, n1)"
    and "distinct (map (tag_key (sr_tags run)) (sortedKeys (sr_tags run)))"
  shows "(\<exists>ps. map og_msg os = encoded env ps \<and>
      map payload_topic ps = filter (\<lambda>k. \<not> is_bad (nd_evals n) k) (map (tag_key (sr_tags run)) (sortedKeys (sr_tags run))) \<and>
      (\<forall>p \<in> set ps. me_Quality (hd (pl_Metrics p)) = QualityBad)) \<and>
    (\<forall>name tr. map_of (sr_tags run) name = Some tr \<longrightarrow> is_bad (nd_evals n1) (tr_key tr)) \<and>
    make_errors env' now' source err' n1 = Some ([], n1)"
proof -
  obtain run' evals' where l: "error_loop env now source err (sortedKeys (sr_tags run)) run (nd_evals n) = Some (os, run', evals')"
    and n1: "n1 = n\<lparr>nd_sources := (nd_sources n)(source \<mapsto> run'), nd_evals := evals'\<rparr>"
    using assms(2) unfolding make_errors_def by (rule locked_Some [OF _ assms(1)]) blast
  note bad = error_loop_bad [OF l]
  have all: "is_bad evals' (tr_key tr)" if "map_of (sr_tags run) name = Some tr" for name tr
  proof -
    have "name \<in> set (sortedKeys (sr_tags run))" using map_of_SomeD [OF that] by (force simp: sortedKeys_keys)
    then show ?thesis using bad that by blast
  qed
  have "\<exists>tr. map_of (sr_tags run') name = Some tr \<and> is_bad evals' (tr_key tr)" if "name \<in> set (sortedKeys (sr_tags run'))" for name
  proof -
    have "map_of (sr_tags run) name \<noteq> None" using that bad by (simp add: map_of_eq_None_iff sortedKeys_keys)
    then show ?thesis using all bad by auto
  qed
  then have "error_loop env' now' source err' (sortedKeys (sr_tags run')) run' evals' = Some ([], run', evals')"
    by (intro error_loop_quiet) blast
  then have "make_errors env' now' source err' n1 = Some ([], n1)"
    by (simp add: n1 make_errors_def locked_def)
  then show ?thesis
    using error_loop_batch [OF l] assms(3) all by (auto simp: n1 batch_def)
qed

theorem outage_reported_once_witness:
  "\<exists>o1 n1. make_errors sample_env 5 ''line1'' ''refused'' sample_node = Some ([o1], n1) \<and>
    make_errors sample_env 6 ''line1'' ''refused'' n1 = Some ([], n1)"
proof -
  obtain o1 n1 where e: "make_errors sample_env 5 ''line1'' ''refused'' sample_node = Some ([o1], n1)" using sample_errors by blast
  obtain run where run: "nd_sources sample_node ''line1'' = Some run" "sr_tags run = [(''speed'', sample_ref)]"
    by (simp add: sample_node_def)
  from outage_reported_once [OF run(1) e, of sample_env 6 "''refused''"] e run(2) show ?thesis by (simp add: sortedKeys_def)
qed


definition twin_plant :: plant where
  "twin_plant = sample_plant\<lparr>pt_Areas := [\<lparr>ae_Name = ''pack'', ae_Lines = [\<lparr>li_Name = ''l1'', li_Cells = [
     \<lparr>ce_Name = ''c1'', ce_Assets = [sample_asset]\<rparr>, \<lparr>ce_Name = ''c2'', ce_Assets = [sample_asset\<lparr>as_ID := ''F2''\<rparr>]\<rparr>]\<rparr>]\<rparr>]\<rparr>"

lemma twin_plant_parses: "asset_Parse (\<lambda>_. Inr twin_plant) [] = Inr twin_plant"
proof -
  have "applyDefaults twin_plant = twin_plant"
    by (simp add: applyDefaults_def twin_plant_def sample_plant_def sample_asset_def sample_tag_def map_assets_def
        default_source_def default_tag_def Let_def)
  moreover have "plant_Validate twin_plant = []"
    by (simp add: plant_Validate_def twin_plant_def sample_plant_def sample_asset_def sample_tag_def validate_area_def
        validate_line_def validate_cell_def validate_asset_def validateTag_def validate_source_def ValidateSegment_def
        contains_any_def reserved_chars_def has_prefix_def fail_some_def plant_topic_def topic_Validate_def
        topic_segments_def uns_ParseDataType_def IsSignal_def Signals_def is_signal_in_iff topic_String_def)
  ultimately show ?thesis by (simp add: asset_Parse_def Let_def)
qed

lemma twin_refs:
  "\<exists>t1 t2. plant_tag_refs twin_plant = [t1, t2] \<and> t1 \<noteq> t2 \<and> tr_Tag t1 = sample_tag \<and> tr_Tag t2 = sample_tag \<and>
     tr_source t1 = ''line1'' \<and> tr_source t2 = ''line1''"
  by (simp add: plant_tag_refs_def plant_entries_def twin_plant_def sample_plant_def sample_asset_def entry_tag_refs_def
      area_entries_def line_entries_def cell_entries_def entry_ref_def)


text \<open>
  A sample that JSON cannot express. If the encoder rejects not-a-number, then a NaN sample of
  a \<^verbatim>\<open>Float\<close> tag is never published, although it makes the tag BAD and takes a
  sequence number, and the following outage of the source is not published for that tag
  either: subscribers keep the last good value.
\<close>

theorem nan_sample_unpublished:
  assumes "\<And>p m. m \<in> set (pl_Metrics p) \<Longrightarrow> me_Value m = Float32Val NaN \<Longrightarrow> en_marshal env p = None"
    and "nd_sources n source = Some run" "map_of (sr_tags run) name = Some tr" "nd_evals n (tr_key tr) = Some ev"
    and "tg_DataType (tr_Tag tr) = ''Float''"
    and "distinct (map (tag_key (sr_tags run)) (sortedKeys (sr_tags run)))"
  shows "\<exists>n1 run1. make_readings env now source [\<lparr>re_Tag = name, re_Value = NaN, re_At = t\<rparr>] n = Some ([], n1) \<and>
    is_bad (nd_evals n1) (tr_key tr) \<and>
    nd_sources n1 source = Some run1 \<and> sq_next (sr_seq run1) = sq_next (sr_seq run) + 1 \<and>
    (\<forall>now' err os n2. make_errors env now' source err n1 = Some (os, n2) \<longrightarrow> tr_key tr \<notin> m_topic ` og_msg ` set os)"
proof -
  have nan: "scale_Apply (tg_Scale (tr_Tag tr)) NaN = NaN"
    by (simp add: scale_Apply_def fl_mul_def split: option.splits)
  define at0 where "at0 = (if t = zero_time then now else t)"
  obtain verd ev1 where o: "Observe NaN at0 ev = (verd, ev1)" by fastforce
  then have bad1: "v_Quality (quality_Current ev1) = QualityBad"
    by (auto simp: Observe_def fl_isnan_def quality_Current_def Let_def)
  define run1 where "run1 = run\<lparr>sr_seq := (sr_seq run)\<lparr>sq_next := sq_next (sr_seq run) + 1\<rparr>\<rparr>"
  have "castValue env ''Float'' NaN = Float32Val NaN" by (simp add: castValue_def)
  then have e: "emit env source tr (castValue env ''Float'' NaN) at0 verd run = ([], run1)"
    using assms(1) [of "node_metric tr source (Float32Val NaN) at0 verd"]
    by (simp add: emit_def Let_def sequencer_Next_def run1_def node_metric_def)
  define n1 where "n1 = n\<lparr>nd_sources := (nd_sources n)(source \<mapsto> run1), nd_evals := (nd_evals n)(tr_key tr \<mapsto> ev1)\<rparr>"
  have r: "make_readings env now source [\<lparr>re_Tag = name, re_Value = NaN, re_At = t\<rparr>] n = Some ([], n1)"
    using assms(2-5) o e unfolding at0_def
    by (cases "t = zero_time") (simp_all add: make_readings_def locked_def nan n1_def Let_def)
  have bad: "is_bad (nd_evals n1) (tr_key tr)" using bad1 by (simp add: is_bad_def n1_def)
  have "tr_key tr \<notin> m_topic ` og_msg ` set os" if er: "make_errors env now' source err n1 = Some (os, n2)" for now' err os n2
  proof -
    have s1: "nd_sources n1 source = Some run1" by (simp add: n1_def)
    obtain run' evals' where l: "error_loop env now' source err (sortedKeys (sr_tags run1)) run1 (nd_evals n1) = Some (os, run', evals')"
      using er unfolding make_errors_def by (rule locked_Some [OF _ s1]) blast
    have "distinct (map (tag_key (sr_tags run1)) (sortedKeys (sr_tags run1)))" using assms(6) by (simp add: run1_def)
    then obtain ps where ps: "batch env source run1 os ps run'"
      "map payload_topic ps = filter (\<lambda>k. \<not> is_bad (nd_evals n1) k) (map (tag_key (sr_tags run1)) (sortedKeys (sr_tags run1)))"
      using error_loop_batch [OF l] by blast
    have "set (map payload_topic ps) \<subseteq> {k. \<not> is_bad (nd_evals n1) k}" unfolding ps(2) by auto
    then have "tr_key tr \<notin> payload_topic ` set ps" using bad by auto
    moreover have "m_topic ` og_msg ` set os \<subseteq> payload_topic ` set ps"
    proof -
      have "m_topic m \<in> payload_topic ` set ps" if "m \<in> set (encoded env ps)" for m
        using that by (auto simp: encoded_def split: option.splits)
      then show ?thesis using ps(1) unfolding batch_def by (metis image_subsetI list.set_map)
    qed
    ultimately show ?thesis by blast
  qed
  then have "\<forall>now' err os n2. make_errors env now' source err n1 = Some (os, n2) \<longrightarrow> tr_key tr \<notin> m_topic ` og_msg ` set os"
    by blast
  moreover have "nd_sources n1 source = Some run1" "sq_next (sr_seq run1) = sq_next (sr_seq run) + 1"
    by (simp_all add: n1_def run1_def)
  ultimately show ?thesis using r bad by blast
qed

theorem nan_sample_unpublished_witness:
  "\<exists>n1. make_readings sample_env 5 ''line1'' [\<lparr>re_Tag = ''speed'', re_Value = NaN, re_At = 4\<rparr>] sample_node = Some ([], n1) \<and>
    is_bad (nd_evals n1) (tr_key sample_ref)"
proof -
  obtain run ev where run: "nd_sources sample_node ''line1'' = Some run" "sr_tags run = [(''speed'', sample_ref)]"
    and ev: "nd_evals sample_node (tr_key sample_ref) = Some ev"
    by (simp add: sample_node_def)
  have "en_marshal sample_env p = None" if "m \<in> set (pl_Metrics p)" "me_Value m = Float32Val NaN" for p m
    using that by (auto simp: sample_env_def)
  moreover have "tg_DataType (tr_Tag sample_ref) = ''Float''" by (simp add: sample_tag_def)
  ultimately show ?thesis
    using nan_sample_unpublished [of sample_env sample_node "''line1''" run "''speed''" sample_ref ev 5 4] run ev
    by (auto simp: sortedKeys_def)
qed

end
