(* ===== verification/Env_Config.thy ===== *)
theory Env_Config
  imports Go_Strconv Go_Float "HOL-Library.State_Monad"
begin

text \<open>
  The environment configuration of the edge node, \<^verbatim>\<open>internal/config/config.go\<close>. A reader of a
  variable is a computation over the list of the variables that failed to parse, which the
  code joins into one error. \<^verbatim>\<open>strconv.ParseFloat\<close> and \<^verbatim>\<open>time.ParseDuration\<close> are parameters; case
  folding and trimming are those of ASCII text.
\<close>

section \<open>Configuration\<close>

record config =
  HTTPAddr :: string
  PlantFile :: string
  LogLevel :: string
  ShutdownTimeout :: duration
  StaleCheck :: duration
  cf_Broker :: string
  MQTTURL :: string
  MQTTClientID :: string
  MQTTUsername :: string
  MQTTPassword :: string
  MQTTQoS :: byte
  MQTTKeepAlive :: uint16
  MQTTConnectTmo :: duration
  BridgeEnabled :: bool
  BridgeFilter :: string
  BridgePerTopicMax :: int
  BridgeInboxSize :: int
  cf_Sink :: string
  KafkaBrokers :: "string list"
  KafkaTopic :: string
  QueueDir :: string
  QueueMaxBytes :: int
  QueueSync :: bool
  OTelEndpoint :: string
  OTelInsecure :: bool
  TraceSampleRatio :: float64
  ServiceVersion :: string

definition Prefix :: string where
  "Prefix = ''PLANTSTREAM_''"

definition NoConfig :: config where
  "NoConfig = \<lparr>HTTPAddr = [], PlantFile = [], LogLevel = [], ShutdownTimeout = 0, StaleCheck = 0, cf_Broker = [], MQTTURL = [],
     MQTTClientID = [], MQTTUsername = [], MQTTPassword = [], MQTTQoS = 0, MQTTKeepAlive = 0, MQTTConnectTmo = 0,
     BridgeEnabled = False, BridgeFilter = [], BridgePerTopicMax = 0, BridgeInboxSize = 0, cf_Sink = [], KafkaBrokers = [],
     KafkaTopic = [], QueueDir = [], QueueMaxBytes = 0, QueueSync = False, OTelEndpoint = [], OTelInsecure = False,
     TraceSampleRatio = Fin 0, ServiceVersion = []\<rparr>"

datatype config_problem =
    NoHTTPAddr | NoPlantFile | BadBroker string | NoMQTTURL | BadQoS | BadSink string | NoKafkaBrokers | NoKafkaTopic
  | BadQueueMaxBytes | BadBridgeLimits | BadIntervals | BadSampleRatio

definition problem_if :: "bool \<Rightarrow> config_problem \<Rightarrow> config_problem list" where
  "problem_if c p = (if c then [p] else [])"

definition config_Validate :: "config \<Rightarrow> config_problem list" where
  "config_Validate c =
     problem_if (HTTPAddr c = []) NoHTTPAddr @
     problem_if (PlantFile c = []) NoPlantFile @
     problem_if (cf_Broker c \<notin> {''memory'', ''mqtt''}) (BadBroker (cf_Broker c)) @
     problem_if (cf_Broker c = ''mqtt'' \<and> MQTTURL c = []) NoMQTTURL @
     problem_if (MQTTQoS c > 1) BadQoS @
     problem_if (cf_Sink c \<notin> {''memory'', ''kafka''}) (BadSink (cf_Sink c)) @
     problem_if (BridgeEnabled c \<and> cf_Sink c = ''kafka'' \<and> length (KafkaBrokers c) = 0) NoKafkaBrokers @
     problem_if (BridgeEnabled c \<and> cf_Sink c = ''kafka'' \<and> KafkaTopic c = []) NoKafkaTopic @
     problem_if (QueueMaxBytes c \<le> 0) BadQueueMaxBytes @
     problem_if (BridgePerTopicMax c \<le> 0 \<or> BridgeInboxSize c \<le> 0) BadBridgeLimits @
     problem_if (ShutdownTimeout c \<le> 0 \<or> StaleCheck c \<le> 0) BadIntervals @
     problem_if (fl_less (TraceSampleRatio c) (Fin 0) \<or> fl_less (Fin 1) (TraceSampleRatio c)) BadSampleRatio"

section \<open>Reading variables\<close>

type_synonym 'a env_reader = "(string list, 'a) state"

definition env_raw :: "(string \<rightharpoonup> string) \<Rightarrow> string \<Rightarrow> string option" where
  "env_raw lookup key =
     (case lookup (Prefix @ key) of
        None \<Rightarrow> None
      | Some v \<Rightarrow> let w = TrimSpace v in if w \<noteq> [] then Some w else None)"

definition env_fail :: "string \<Rightarrow> unit env_reader" where
  "env_fail key = State (\<lambda>errs. ((), errs @ [key]))"

definition env_str :: "(string \<rightharpoonup> string) \<Rightarrow> string \<Rightarrow> string \<Rightarrow> string env_reader" where
  "env_str lookup key d = State_Monad.return (case env_raw lookup key of Some v \<Rightarrow> v | None \<Rightarrow> d)"

text \<open>The shape that \<^verbatim>\<open>int\<close>, \<^verbatim>\<open>int64\<close>, \<^verbatim>\<open>float\<close>, \<^verbatim>\<open>dur\<close> and \<^verbatim>\<open>boolean\<close> share.\<close>

definition env_parsed :: "(string \<Rightarrow> 'a option) \<Rightarrow> (string \<rightharpoonup> string) \<Rightarrow> string \<Rightarrow> 'a \<Rightarrow> 'a env_reader" where
  "env_parsed parse lookup key d =
     (case env_raw lookup key of
        None \<Rightarrow> State_Monad.return d
      | Some v \<Rightarrow> (case parse v of
                     None \<Rightarrow> State_Monad.bind (env_fail key) (\<lambda>_. State_Monad.return d)
                   | Some x \<Rightarrow> State_Monad.return x))"

text \<open>\<^verbatim>\<open>strconv.ParseBool\<close>\<close>

definition ParseBool :: "string \<Rightarrow> bool option" where
  "ParseBool s =
     (if s \<in> {''1'', ''t'', ''T'', ''TRUE'', ''true'', ''True''} then Some True
      else if s \<in> {''0'', ''f'', ''F'', ''FALSE'', ''false'', ''False''} then Some False
      else None)"

definition env_int :: "(string \<rightharpoonup> string) \<Rightarrow> string \<Rightarrow> int \<Rightarrow> int env_reader" where
  "env_int = env_parsed ParseInt"

definition env_int64 :: "(string \<rightharpoonup> string) \<Rightarrow> string \<Rightarrow> int \<Rightarrow> int env_reader" where
  "env_int64 = env_parsed ParseInt"

definition env_boolean :: "(string \<rightharpoonup> string) \<Rightarrow> string \<Rightarrow> bool \<Rightarrow> bool env_reader" where
  "env_boolean = env_parsed ParseBool"

definition env_float :: "(string \<Rightarrow> float64 option) \<Rightarrow> (string \<rightharpoonup> string) \<Rightarrow> string \<Rightarrow> float64 \<Rightarrow> float64 env_reader" where
  "env_float pf = env_parsed pf"

definition env_dur :: "(string \<Rightarrow> duration option) \<Rightarrow> (string \<rightharpoonup> string) \<Rightarrow> string \<Rightarrow> duration \<Rightarrow> duration env_reader" where
  "env_dur pd = env_parsed pd"

definition env_list :: "(string \<rightharpoonup> string) \<Rightarrow> string \<Rightarrow> string \<Rightarrow> string list env_reader" where
  "env_list lookup key d =
     State_Monad.bind (env_str lookup key d) (\<lambda>v.
       State_Monad.return (filter (\<lambda>p. p \<noteq> []) (map TrimSpace (split_on CHR '','' v))))"

text \<open>\<^verbatim>\<open>strings.ToLower\<close> and \<^verbatim>\<open>strings.TrimPrefix\<close>\<close>

definition lower_char :: "char \<Rightarrow> char" where
  "lower_char c = (let k = of_char c :: nat in if 65 \<le> k \<and> k \<le> 90 then char_of (k + 32) else c)"

definition ToLower :: "string \<Rightarrow> string" where
  "ToLower = map lower_char"

definition TrimPrefix :: "string \<Rightarrow> string \<Rightarrow> string" where
  "TrimPrefix s p = (if has_prefix s p then drop (length p) s else s)"

text \<open>The struct literal of \<^verbatim>\<open>LoadFrom\<close>; its calls run in the order written.\<close>

definition read_config ::
  "(string \<Rightarrow> float64 option) \<Rightarrow> (string \<Rightarrow> duration option) \<Rightarrow> (string \<rightharpoonup> string) \<Rightarrow> config env_reader" where
  "read_config pf pd lookup = do {
     http \<leftarrow> env_str lookup ''HTTP_ADDR'' '':8080'';
     plant \<leftarrow> env_str lookup ''PLANT_FILE'' ''examples/plant.yaml'';
     level \<leftarrow> env_str lookup ''LOG_LEVEL'' ''info'';
     shutdown \<leftarrow> env_dur pd lookup ''SHUTDOWN_TIMEOUT'' (seconds 10);
     stale \<leftarrow> env_dur pd lookup ''STALE_CHECK_INTERVAL'' (seconds 1);
     broker \<leftarrow> env_str lookup ''BROKER'' ''memory'';
     url \<leftarrow> env_str lookup ''MQTT_URL'' ''mqtt://localhost:1883'';
     client \<leftarrow> env_str lookup ''MQTT_CLIENT_ID'' [];
     user \<leftarrow> env_str lookup ''MQTT_USERNAME'' [];
     pass \<leftarrow> env_str lookup ''MQTT_PASSWORD'' [];
     qos \<leftarrow> env_int lookup ''MQTT_QOS'' 1;
     keep \<leftarrow> env_int lookup ''MQTT_KEEPALIVE_SECONDS'' 30;
     connect \<leftarrow> env_dur pd lookup ''MQTT_CONNECT_TIMEOUT'' (seconds 10);
     bridge \<leftarrow> env_boolean lookup ''BRIDGE_ENABLED'' False;
     filt \<leftarrow> env_str lookup ''BRIDGE_FILTER'' ''#'';
     pertopic \<leftarrow> env_int lookup ''BRIDGE_PER_TOPIC_MAX'' 64;
     inbox \<leftarrow> env_int lookup ''BRIDGE_INBOX_SIZE'' 4096;
     sink \<leftarrow> env_str lookup ''SINK'' ''memory'';
     brokers \<leftarrow> env_list lookup ''KAFKA_BROKERS'' ''localhost:9092'';
     ktopic \<leftarrow> env_str lookup ''KAFKA_TOPIC'' ''uns.events'';
     qdir \<leftarrow> env_str lookup ''QUEUE_DIR'' [];
     qmax \<leftarrow> env_int64 lookup ''QUEUE_MAX_BYTES'' (64 * 2 ^ 20);
     qsync \<leftarrow> env_boolean lookup ''QUEUE_SYNC'' False;
     otel \<leftarrow> env_str lookup ''OTEL_ENDPOINT'' [];
     insecure \<leftarrow> env_boolean lookup ''OTEL_INSECURE'' True;
     ratio \<leftarrow> env_float pf lookup ''TRACE_SAMPLE_RATIO'' (Fin 1);
     version \<leftarrow> env_str lookup ''VERSION'' ''dev'';
     State_Monad.return \<lparr>HTTPAddr = http, PlantFile = plant, LogLevel = level, ShutdownTimeout = shutdown, StaleCheck = stale,
       cf_Broker = ToLower broker, MQTTURL = url, MQTTClientID = client, MQTTUsername = user, MQTTPassword = pass,
       MQTTQoS = word_of_int qos, MQTTKeepAlive = word_of_int keep, MQTTConnectTmo = connect,
       BridgeEnabled = bridge, BridgeFilter = filt, BridgePerTopicMax = pertopic, BridgeInboxSize = inbox,
       cf_Sink = ToLower sink, KafkaBrokers = brokers, KafkaTopic = ktopic, QueueDir = qdir, QueueMaxBytes = qmax,
       QueueSync = qsync, OTelEndpoint = otel, OTelInsecure = insecure, TraceSampleRatio = ratio, ServiceVersion = version\<rparr>
   }"

text \<open>The fallback to the variable that OpenTelemetry itself defines.\<close>

definition otel_fallback :: "(string \<rightharpoonup> string) \<Rightarrow> config \<Rightarrow> config" where
  "otel_fallback lookup c =
     (if OTelEndpoint c = []
      then (case lookup ''OTEL_EXPORTER_OTLP_ENDPOINT'' of
              None \<Rightarrow> c
            | Some v \<Rightarrow> c\<lparr>OTelEndpoint := TrimPrefix (TrimPrefix v ''http://'') ''https://''\<rparr>)
      else c)"

datatype load_error = BadVariables "string list" | Invalid "config_problem list"

definition LoadFrom ::
  "(string \<Rightarrow> float64 option) \<Rightarrow> (string \<Rightarrow> duration option) \<Rightarrow> (string \<rightharpoonup> string) \<Rightarrow> config \<times> load_error option" where
  "LoadFrom pf pd lookup =
     (let (c0, errs) = run_state (read_config pf pd lookup) [];
          c = otel_fallback lookup c0
      in if errs \<noteq> [] then (NoConfig, Some (BadVariables errs))
         else let ps = config_Validate c in (c, if ps = [] then None else Some (Invalid ps)))"

section \<open>What loading means\<close>

definition setting :: "(string \<Rightarrow> 'a option) \<Rightarrow> (string \<rightharpoonup> string) \<Rightarrow> string \<Rightarrow> 'a \<Rightarrow> 'a" where
  "setting parse lookup key d =
     (case env_raw lookup key of None \<Rightarrow> d | Some v \<Rightarrow> (case parse v of None \<Rightarrow> d | Some y \<Rightarrow> y))"

definition misread :: "(string \<Rightarrow> 'a option) \<Rightarrow> (string \<rightharpoonup> string) \<Rightarrow> string \<Rightarrow> bool" where
  "misread parse lookup key \<longleftrightarrow> (\<exists>v. env_raw lookup key = Some v \<and> parse v = None)"

definition honours :: "(string \<Rightarrow> 'a option) \<Rightarrow> (string \<rightharpoonup> string) \<Rightarrow> string \<Rightarrow> 'a \<Rightarrow> 'a \<Rightarrow> bool" where
  "honours parse lookup key d y \<longleftrightarrow>
     (case env_raw lookup key of None \<Rightarrow> y = d | Some v \<Rightarrow> parse v = Some y)"

text \<open>The variables that are not text, in the order they are read.\<close>

definition misread_keys :: "(string \<Rightarrow> float64 option) \<Rightarrow> (string \<Rightarrow> duration option) \<Rightarrow> (string \<rightharpoonup> string) \<Rightarrow> string list" where
  "misread_keys pf pd lookup =
     map fst (filter snd (
       [(''SHUTDOWN_TIMEOUT'', misread pd lookup ''SHUTDOWN_TIMEOUT''),
        (''STALE_CHECK_INTERVAL'', misread pd lookup ''STALE_CHECK_INTERVAL''),
        (''MQTT_QOS'', misread ParseInt lookup ''MQTT_QOS''),
        (''MQTT_KEEPALIVE_SECONDS'', misread ParseInt lookup ''MQTT_KEEPALIVE_SECONDS''),
        (''MQTT_CONNECT_TIMEOUT'', misread pd lookup ''MQTT_CONNECT_TIMEOUT''),
        (''BRIDGE_ENABLED'', misread ParseBool lookup ''BRIDGE_ENABLED''),
        (''BRIDGE_PER_TOPIC_MAX'', misread ParseInt lookup ''BRIDGE_PER_TOPIC_MAX''),
        (''BRIDGE_INBOX_SIZE'', misread ParseInt lookup ''BRIDGE_INBOX_SIZE''),
        (''QUEUE_MAX_BYTES'', misread ParseInt lookup ''QUEUE_MAX_BYTES''),
        (''QUEUE_SYNC'', misread ParseBool lookup ''QUEUE_SYNC''),
        (''OTEL_INSECURE'', misread ParseBool lookup ''OTEL_INSECURE''),
        (''TRACE_SAMPLE_RATIO'', misread pf lookup ''TRACE_SAMPLE_RATIO'')]))"

definition config_usable :: "config \<Rightarrow> bool" where
  "config_usable c \<longleftrightarrow> HTTPAddr c \<noteq> [] \<and> PlantFile c \<noteq> [] \<and>
     (cf_Broker c = ''memory'' \<or> cf_Broker c = ''mqtt'' \<and> MQTTURL c \<noteq> []) \<and> MQTTQoS c \<in> {0, 1} \<and>
     (cf_Sink c = ''memory'' \<or> cf_Sink c = ''kafka'' \<and> (BridgeEnabled c \<longrightarrow> KafkaBrokers c \<noteq> [] \<and> KafkaTopic c \<noteq> [])) \<and>
     0 < QueueMaxBytes c \<and> 0 < BridgePerTopicMax c \<and> 0 < BridgeInboxSize c \<and> 0 < ShutdownTimeout c \<and> 0 < StaleCheck c \<and>
     \<not> fl_less (TraceSampleRatio c) (Fin 0) \<and> \<not> fl_less (Fin 1) (TraceSampleRatio c)"

lemma Validate_usable: "config_Validate c = [] \<longleftrightarrow> config_usable c"
proof -
  have "(1 < k) = (k \<noteq> 0 \<and> k \<noteq> 1)" if "0 \<le> k" for k :: int using that by auto
  from this [OF uint_ge_0] have "(MQTTQoS c > 1) = (MQTTQoS c \<notin> {0, 1})"
    by (simp add: word_less_def word_uint_eq_iff)
  then show ?thesis by (auto simp: config_Validate_def problem_if_def config_usable_def)
qed

lemma run_env_parsed [simp]:
  "run_state (env_parsed parse lookup key d) errs =
     (setting parse lookup key d, errs @ (if misread parse lookup key then [key] else []))"
  by (auto simp: env_parsed_def setting_def misread_def env_fail_def State_Monad.bind_def State_Monad.return_def
      split: option.splits)

lemma run_env_str [simp]: "run_state (env_str lookup key d) errs = (setting Some lookup key d, errs)"
  by (simp add: env_str_def setting_def State_Monad.return_def split: option.splits)

lemma run_env_list [simp]:
  "run_state (env_list lookup key d) errs =
     (filter (\<lambda>p. p \<noteq> []) (map TrimSpace (split_on CHR '','' (setting Some lookup key d))), errs)"
  by (simp add: env_list_def State_Monad.bind_def State_Monad.return_def)

lemma run_bind: "run_state (State_Monad.bind m f) errs = (case run_state m errs of (a, errs') \<Rightarrow> run_state (f a) errs')"
  by (cases m) (simp add: State_Monad.bind_def)

lemma run_return: "run_state (State_Monad.return a) errs = (a, errs)"
  by (simp add: State_Monad.return_def)

lemma read_config_errors: "snd (run_state (read_config pf pd lookup) []) = misread_keys pf pd lookup"
  by (simp add: read_config_def run_bind run_return env_int_def env_int64_def env_boolean_def env_float_def env_dur_def misread_keys_def)

lemma LoadFrom_cases:
  "LoadFrom pf pd lookup =
     (if misread_keys pf pd lookup \<noteq> [] then (NoConfig, Some (BadVariables (misread_keys pf pd lookup)))
      else let c = otel_fallback lookup (fst (run_state (read_config pf pd lookup) []))
           in (c, if config_usable c then None else Some (Invalid (config_Validate c))))"
proof -
  obtain c0 errs where r: "run_state (read_config pf pd lookup) [] = (c0, errs)" by fastforce
  then have "errs = misread_keys pf pd lookup" using read_config_errors [of pf pd lookup] by simp
  then show ?thesis by (simp add: LoadFrom_def r Let_def flip: Validate_usable)
qed

lemma honours_setting: "\<not> misread parse lookup key \<Longrightarrow> honours parse lookup key d (setting parse lookup key d)"
  by (auto simp: misread_def honours_def setting_def split: option.splits)

lemma otel_fallback_simps [simp]:
  "ShutdownTimeout (otel_fallback lookup c) = ShutdownTimeout c" "StaleCheck (otel_fallback lookup c) = StaleCheck c"
  "MQTTQoS (otel_fallback lookup c) = MQTTQoS c" "MQTTKeepAlive (otel_fallback lookup c) = MQTTKeepAlive c"
  "MQTTConnectTmo (otel_fallback lookup c) = MQTTConnectTmo c" "BridgeEnabled (otel_fallback lookup c) = BridgeEnabled c"
  "BridgePerTopicMax (otel_fallback lookup c) = BridgePerTopicMax c" "BridgeInboxSize (otel_fallback lookup c) = BridgeInboxSize c"
  "QueueMaxBytes (otel_fallback lookup c) = QueueMaxBytes c" "QueueSync (otel_fallback lookup c) = QueueSync c"
  "OTelInsecure (otel_fallback lookup c) = OTelInsecure c" "TraceSampleRatio (otel_fallback lookup c) = TraceSampleRatio c"
  "BridgeFilter (otel_fallback lookup c) = BridgeFilter c" "QueueDir (otel_fallback lookup c) = QueueDir c"
  "config_usable (otel_fallback lookup c) = config_usable c"
  by (simp_all add: otel_fallback_def config_usable_def split: option.splits)

definition all_honoured :: "(string \<Rightarrow> float64 option) \<Rightarrow> (string \<Rightarrow> duration option) \<Rightarrow> (string \<rightharpoonup> string) \<Rightarrow> config \<Rightarrow> bool" where
  "all_honoured pf pd lookup c \<longleftrightarrow>
     honours pd lookup ''SHUTDOWN_TIMEOUT'' (seconds 10) (ShutdownTimeout c) \<and>
     honours pd lookup ''STALE_CHECK_INTERVAL'' (seconds 1) (StaleCheck c) \<and>
     honours pd lookup ''MQTT_CONNECT_TIMEOUT'' (seconds 10) (MQTTConnectTmo c) \<and>
     honours ParseBool lookup ''BRIDGE_ENABLED'' False (BridgeEnabled c) \<and>
     honours ParseBool lookup ''QUEUE_SYNC'' False (QueueSync c) \<and>
     honours ParseBool lookup ''OTEL_INSECURE'' True (OTelInsecure c) \<and>
     honours ParseInt lookup ''BRIDGE_PER_TOPIC_MAX'' 64 (BridgePerTopicMax c) \<and>
     honours ParseInt lookup ''BRIDGE_INBOX_SIZE'' 4096 (BridgeInboxSize c) \<and>
     honours ParseInt lookup ''QUEUE_MAX_BYTES'' 67108864 (QueueMaxBytes c) \<and>
     honours pf lookup ''TRACE_SAMPLE_RATIO'' (Fin 1) (TraceSampleRatio c) \<and>
     honours Some lookup ''BRIDGE_FILTER'' ''#'' (BridgeFilter c) \<and>
     honours Some lookup ''QUEUE_DIR'' [] (QueueDir c)"

lemma read_config_honours:
  "misread_keys pf pd lookup = [] \<Longrightarrow> all_honoured pf pd lookup (fst (run_state (read_config pf pd lookup) []))"
  by (simp add: read_config_def run_bind run_return env_int_def env_int64_def env_boolean_def env_float_def env_dur_def all_honoured_def
      misread_keys_def honours_setting split: if_splits) (simp add: honours_def setting_def split: option.splits)

section \<open>Properties\<close>



text \<open>
  The QoS is cut to a byte before it is checked. With only \<^verbatim>\<open>PLANTSTREAM_MQTT_QOS\<close> set, to any
  64-bit number, loading succeeds exactly when the number is 0 or 1 modulo 256, so that
  256 or -255 are accepted although the error text promises 0 or 1.
\<close>

theorem qos_checked_after_truncation:
  assumes "- (2 ^ 63) \<le> n" "n < 2 ^ 63"
  shows "let r = LoadFrom pf pd [Prefix @ ''MQTT_QOS'' \<mapsto> FormatInt n]
    in (snd r = None \<longleftrightarrow> n mod 256 \<in> {0, 1}) \<and> uint (MQTTQoS (fst r)) = n mod 256"
proof -
  let ?l = "[Prefix @ ''MQTT_QOS'' \<mapsto> FormatInt n]"
  have raw: "env_raw ?l key = (if key = ''MQTT_QOS'' then Some (FormatInt n) else None)" for key
    using FormatInt_word [of n] by (simp add: env_raw_def)
  have otel: "?l ''OTEL_EXPORTER_OTLP_ENDPOINT'' = None" by (simp add: Prefix_def)
  have mk: "misread_keys pf pd ?l = []"
    by (simp add: misread_keys_def misread_def raw ParseInt_FormatInt [OF assms])
  have u: "uint (word_of_int n :: byte) = n mod 256" by (simp add: uint_word_of_int)
  have w: "word_of_int n \<in> {0, 1 :: byte} \<longleftrightarrow> n mod 256 \<in> {0, 1}"
    by (simp add: word_uint_eq_iff u)
  have c: "run_state (read_config pf pd ?l) [] = (c0, e) \<Longrightarrow>
      MQTTQoS c0 = word_of_int n \<and> (config_usable c0 \<longleftrightarrow> n mod 256 \<in> {0, 1})" for c0 e
    unfolding w [symmetric]
    by (simp add: read_config_def run_bind run_return env_int_def env_int64_def env_boolean_def env_float_def env_dur_def setting_def raw
        ParseInt_FormatInt [OF assms])
      (auto simp: config_usable_def ToLower_def lower_char_def split_on.simps)
  obtain c0 e where r: "run_state (read_config pf pd ?l) [] = (c0, e)" by fastforce
  show ?thesis using c [OF r] by (simp add: LoadFrom_cases mk r Let_def u)
qed

theorem qos_checked_after_truncation_witness:
  "snd (LoadFrom (\<lambda>_. None) (\<lambda>_. None) [Prefix @ ''MQTT_QOS'' \<mapsto> FormatInt 257]) = None"
  using qos_checked_after_truncation [of 257] by (simp add: Let_def)

end
