(* ===== verification/Http_Api.thy ===== *)
theory Http_Api
  imports Collectors Edge_Latest Bridge Go_Strconv "HOL-Library.Sublist"
begin

text \<open>
  The read API of the edge node, \<^verbatim>\<open>internal/api/http/server.go\<close>: the handlers with the views they
  return, the middleware around them, and the event stream. Routing, headers other than the
  request id and the writing of JSON belong to \<^verbatim>\<open>net/http\<close> and \<^verbatim>\<open>encoding/json\<close>; a response is
  its status and the value that is encoded. A handler that would dereference nil is \<open>None\<close>.
\<close>

section \<open>Views\<close>

record tag_view =
  tv_Name :: string
  tv_Description :: string
  tv_Unit :: string
  tv_DataType :: string
  tv_Range :: "eng_range option"
  tv_Topic :: string

record asset_view =
  av_ID :: string
  av_Class :: string
  av_Description :: string
  av_Source :: string
  av_Area :: string
  av_Line :: string
  av_Cell :: string
  av_Tags :: "tag_view list"

record topic_view =
  pv_Topic :: string
  pv_AssetID :: string
  pv_Tag :: string
  pv_Source :: string
  pv_Quality :: "quality option"
  pv_LastSeen :: "gotime option"

record readiness =
  rd_Status :: string
  rd_Components :: "(string \<times> string) list"

datatype api_body =
    ErrorBody string string
  | HealthBody string
  | ReadyBody readiness
  | AssetsBody string string "asset_view list"
  | AssetBody asset_view
  | LatestBody string string string "metric list"
  | TopicsBody string "topic_view list" "string list"
  | SourcesBody nat "status list"
  | BridgeBody "bridge_stats option"

record api_response =
  rs_Status :: nat
  rs_Body :: api_body

text \<open>What the handlers read; \<open>dp_BrokerReady\<close> and \<open>dp_Bridge\<close> are what the collaborators answer.\<close>

record api_deps =
  dp_Index :: "plant_index option"
  dp_Latest :: latest
  dp_Health :: "health option"
  dp_BrokerReady :: "bool option"
  dp_Bridge :: "bridge_stats option"
  dp_Version :: string

abbreviation ok_response :: "api_body \<Rightarrow> api_response option" where
  "ok_response b \<equiv> Some \<lparr>rs_Status = 200, rs_Body = b\<rparr>"

abbreviation error_response :: "nat \<Rightarrow> string \<Rightarrow> string \<Rightarrow> api_response option" where
  "error_response st txt1 rid \<equiv> Some \<lparr>rs_Status = st, rs_Body = ErrorBody txt1 rid\<rparr>"

section \<open>Handlers\<close>

definition api_healthz :: "api_deps \<Rightarrow> api_response option" where
  "api_healthz d = ok_response (HealthBody (dp_Version d))"

definition api_readyz :: "api_deps \<Rightarrow> api_response option" where
  "api_readyz d =
     (let (plant_ok1, plant_c) =
            (case dp_Index d of
               None \<Rightarrow> (False, ''no tags loaded'')
             | Some ix \<Rightarrow>
                 if TagCount ix = 0 then (False, ''no tags loaded'')
                 else (True, FormatInt (int (length (index_Assets ix))) @ '' assets, '' @ FormatInt (TagCount ix) @ '' tags''));
          (broker_ok, broker_c) =
            (if dp_BrokerReady d = Some True then (True, ''connected'') else (False, ''not connected''));
          ok = (plant_ok1 \<and> broker_ok);
          bridge_c = (case dp_Bridge d of
                        None \<Rightarrow> []
                      | Some b \<Rightarrow> [(''bridge'', if st_SinkUp b then ''forwarding'' else ''sink down, buffering'')])
      in case (case dp_Health d of None \<Rightarrow> Some [] | Some h \<Rightarrow>
                 (case health_Snapshot h of
                    None \<Rightarrow> None
                  | Some sts \<Rightarrow> Some [(''sources'', FormatInt (int (length (filter st_Up sts))) @ ''/'' @
                                         FormatInt (int (length sts)) @ '' up'')])) of
           None \<Rightarrow> None
         | Some sources_c \<Rightarrow>
             Some \<lparr>rs_Status = (if ok then 200 else 503),
                   rs_Body = ReadyBody \<lparr>rd_Status = (if ok then ''ready'' else ''not ready''),
                     rd_Components = (''plant'', plant_c) # (''broker'', broker_c) # sources_c @ bridge_c\<rparr>\<rparr>)"

definition assetView :: "plant_index \<Rightarrow> asset_ref \<Rightarrow> asset_view" where
  "assetView ix ref =
     (let a = ar_Asset ref; p = ix_plant ix
      in \<lparr>av_ID = as_ID a, av_Class = as_Class a, av_Description = as_Description a, av_Source = as_Source a,
          av_Area = ar_Area ref, av_Line = ar_Line ref, av_Cell = ar_Cell ref,
          av_Tags = map (\<lambda>t. \<lparr>tv_Name = tg_Name t, tv_Description = tg_Description t, tv_Unit = tg_Unit t,
            tv_DataType = tg_DataType t, tv_Range = tg_Range t,
            tv_Topic = topic_String \<lparr>t_enterprise = pt_Enterprise p, t_site = pt_Site p, t_area = ar_Area ref,
              t_line = ar_Line ref, t_cell = ar_Cell ref, t_tag = tg_Name t\<rparr>\<rparr>) (as_Tags a)\<rparr>)"

definition api_assets :: "api_deps \<Rightarrow> api_response option" where
  "api_assets d =
     (case dp_Index d of
        None \<Rightarrow> None
      | Some ix \<Rightarrow> ok_response (AssetsBody (pt_Enterprise (ix_plant ix)) (pt_Site (ix_plant ix)) (map (assetView ix) (index_Assets ix))))"

definition api_asset :: "string \<Rightarrow> string \<Rightarrow> api_deps \<Rightarrow> api_response option" where
  "api_asset rid aid d =
     (case dp_Index d of
        None \<Rightarrow> None
      | Some ix \<Rightarrow>
          (case index_Asset ix aid of
             None \<Rightarrow> error_response 404 ''asset not found'' rid
           | Some ref \<Rightarrow> ok_response (AssetBody (assetView ix ref))))"

definition api_latest :: "string \<Rightarrow> string \<Rightarrow> api_deps \<Rightarrow> api_response option" where
  "api_latest rid aid d =
     (case dp_Index d of
        None \<Rightarrow> None
      | Some ix \<Rightarrow>
          (case index_Asset ix aid of
             None \<Rightarrow> error_response 404 ''asset not found'' rid
           | Some ref \<Rightarrow>
               ok_response (LatestBody (as_ID (ar_Asset ref)) (as_Class (ar_Asset ref)) (as_Source (ar_Asset ref))
                 (case latest_Asset (dp_Latest d) aid of None \<Rightarrow> [] | Some ms \<Rightarrow> ms))))"

text \<open>The error text of \<^verbatim>\<open>ValidateFilter\<close>; \<^verbatim>\<open>%q\<close> quotes the filter.\<close>

definition filter_error_text :: "(string \<Rightarrow> string) \<Rightarrow> string \<Rightarrow> filter_error \<Rightarrow> string" where
  "filter_error_text quote f e =
     (case e of
        FilterEmpty \<Rightarrow> ''uns: empty filter''
      | HashNotLast \<Rightarrow> ''uns: '' @ [char_of (39 :: nat)] @ ''#'' @ [char_of (39 :: nat)] @ '' must be the last segment in '' @ quote f
      | PartialWildcard \<Rightarrow> ''uns: wildcard must occupy a whole segment in '' @ quote f
      | EmptyFilterSegment \<Rightarrow> ''uns: empty segment in filter '' @ quote f)"

text \<open>A topic without a tag reference dereferences the nil asset of the zero reference.\<close>

definition topic_entry :: "api_deps \<Rightarrow> plant_index \<Rightarrow> string \<Rightarrow> topic_view option" where
  "topic_entry d ix t =
     (case TagByTopic ix t of
        None \<Rightarrow> None
      | Some ref \<Rightarrow>
          Some \<lparr>pv_Topic = t, pv_AssetID = as_ID (ar_Asset (tr_Ref ref)), pv_Tag = tg_Name (tr_Tag ref),
                pv_Source = as_Source (ar_Asset (tr_Ref ref)),
                pv_Quality = map_option me_Quality (latest_Topic (dp_Latest d) t),
                pv_LastSeen = map_option me_Timestamp (latest_Topic (dp_Latest d) t)\<rparr>)"

definition api_topics :: "(string \<Rightarrow> string) \<Rightarrow> string \<Rightarrow> string \<Rightarrow> api_deps \<Rightarrow> api_response option" where
  "api_topics quote rid filt d =
     (case (if filt = [] then None else ValidateFilter filt) of
        Some e \<Rightarrow> error_response 400 (filter_error_text quote filt e) rid
      | None \<Rightarrow>
          (case dp_Index d of
             None \<Rightarrow> None
           | Some ix \<Rightarrow>
               (case those (map (topic_entry d ix) (filter (\<lambda>t. filt = [] \<or> MatchFilter filt t) (index_Topics ix))) of
                  None \<Rightarrow> None
                | Some out \<Rightarrow>
                    let p = ix_plant ix
                    in ok_response (TopicsBody (pt_Enterprise p @ ''/'' @ pt_Site p) out
                         (concat (map (\<lambda>s. [LifecycleTopic (pt_Enterprise p) (pt_Site p) (so_Name s) (message_type_String Birth),
                                            LifecycleTopic (pt_Enterprise p) (pt_Site p) (so_Name s) (message_type_String Death)])
                           (pt_Sources p)))))))"

definition api_sources :: "api_deps \<Rightarrow> api_response option" where
  "api_sources d =
     (case dp_Health d of
        None \<Rightarrow> None
      | Some h \<Rightarrow>
          (case health_Snapshot h of
             None \<Rightarrow> None
           | Some sts \<Rightarrow> ok_response (SourcesBody (length (filter st_Up sts)) sts)))"

definition api_bridge :: "api_deps \<Rightarrow> api_response option" where
  "api_bridge d = ok_response (BridgeBody (dp_Bridge d))"

section \<open>Middleware\<close>

datatype api_request =
    Healthz | Readyz | GetAssets | GetAsset string | GetLatest string | GetTopics string | GetSources | GetBridge

fun api_route :: "(string \<Rightarrow> string) \<Rightarrow> string \<Rightarrow> api_request \<Rightarrow> api_deps \<Rightarrow> api_response option" where
  "api_route quote rid Healthz d = api_healthz d"
| "api_route quote rid Readyz d = api_readyz d"
| "api_route quote rid GetAssets d = api_assets d"
| "api_route quote rid (GetAsset aid) d = api_asset rid aid d"
| "api_route quote rid (GetLatest aid) d = api_latest rid aid d"
| "api_route quote rid (GetTopics f) d = api_topics quote rid f d"
| "api_route quote rid GetSources d = api_sources d"
| "api_route quote rid GetBridge d = api_bridge d"

text \<open>The metrics that the middleware keeps: requests in flight, and the status of each one counted.\<close>

record api_metrics =
  am_Inflight :: int
  am_Requests :: "nat list"

definition instrument :: "api_response option \<Rightarrow> api_metrics \<Rightarrow> api_response option \<times> api_metrics" where
  "instrument res m =
     (let m1 = m\<lparr>am_Inflight := am_Inflight m + 1\<rparr>
      in case res of
           None \<Rightarrow> (None, m1)
         | Some r \<Rightarrow> (Some r, m1\<lparr>am_Inflight := am_Inflight m1 - 1, am_Requests := am_Requests m1 @ [rs_Status r div 100]\<rparr>))"

definition requestID :: "string \<Rightarrow> string \<Rightarrow> string" where
  "requestID header uuid = (if header = [] \<or> length header > 128 then uuid else header)"

text \<open>
  \<^verbatim>\<open>recoverer(requestID(instrument(mux)))\<close>: the response and the request id that is set as a
  header. The recoverer writes its error with the context of the outer request, which has no id.
\<close>

definition api_serve ::
  "(string \<Rightarrow> string) \<Rightarrow> string \<Rightarrow> string \<Rightarrow> api_request \<Rightarrow> api_deps \<Rightarrow> api_metrics \<Rightarrow> (api_response \<times> string) \<times> api_metrics" where
  "api_serve quote header uuid req d m =
     (let rid = requestID header uuid
      in case instrument (api_route quote rid req d) m of
           (Some r, m1) \<Rightarrow> ((r, rid), m1)
         | (None, m1) \<Rightarrow> ((\<lparr>rs_Status = 500, rs_Body = ErrorBody ''internal error'' []\<rparr>, rid), m1))"

section \<open>The event stream\<close>

datatype sse_event = Subscribed_comment | Heartbeat int | Event nat message

record sse =
  se_ch :: "message list"
  se_cap :: nat
  se_dropped :: int
  se_id :: nat
  se_out :: "sse_event list"

definition default_buffer :: "int \<Rightarrow> nat" where
  "default_buffer n = (if n \<le> 0 then 256 else nat n)"

text \<open>The part before the loop: the filter, the subscription, the opening comment.\<close>

definition stream_open ::
  "(string \<Rightarrow> string) \<Rightarrow> string \<Rightarrow> string \<Rightarrow> bool \<Rightarrow> (string \<Rightarrow> string option) \<Rightarrow> int \<Rightarrow> api_response + string \<times> sse" where
  "stream_open quote rid param flusher subscribe buffer =
     (let filt = (if param = [] then ''#'' else param)
      in case ValidateFilter filt of
           Some e \<Rightarrow> Inl \<lparr>rs_Status = 400, rs_Body = ErrorBody (filter_error_text quote filt e) rid\<rparr>
         | None \<Rightarrow>
             if \<not> flusher then Inl \<lparr>rs_Status = 500, rs_Body = ErrorBody ''streaming unsupported'' rid\<rparr>
             else (case subscribe filt of
                     Some e \<Rightarrow> Inl \<lparr>rs_Status = 503, rs_Body = ErrorBody e rid\<rparr>
                   | None \<Rightarrow> Inr (filt, \<lparr>se_ch = [], se_cap = default_buffer buffer, se_dropped = 0, se_id = 0,
                                         se_out = [Subscribed_comment]\<rparr>)))"

text \<open>A message arrives from the broker, the ticker fires, a message is taken from the buffer.\<close>

datatype sse_label = SseArrive message | SseTick | SseTake

fun sse_step :: "(message \<Rightarrow> bool) \<Rightarrow> sse_label \<Rightarrow> sse \<Rightarrow> sse option" where
  "sse_step encodable (SseArrive m) s =
     Some (if length (se_ch s) < se_cap s then s\<lparr>se_ch := se_ch s @ [m]\<rparr> else s\<lparr>se_dropped := se_dropped s + 1\<rparr>)"
| "sse_step encodable SseTick s = Some (s\<lparr>se_out := se_out s @ [Heartbeat (se_dropped s)]\<rparr>)"
| "sse_step encodable SseTake s =
     (case se_ch s of
        [] \<Rightarrow> None
      | m # ms \<Rightarrow>
          let s1 = s\<lparr>se_ch := ms, se_id := se_id s + 1\<rparr>
          in Some (if encodable m then s1\<lparr>se_out := se_out s1 @ [Event (se_id s1) m]\<rparr> else s1))"

fun sse_run :: "(message \<Rightarrow> bool) \<Rightarrow> sse_label list \<Rightarrow> sse \<Rightarrow> sse option" where
  "sse_run en [] s = Some s"
| "sse_run en (x # xs) s = (case sse_step en x s of None \<Rightarrow> None | Some s1 \<Rightarrow> sse_run en xs s1)"

section \<open>Lemmas\<close>

definition arrivals :: "sse_label list \<Rightarrow> message list" where
  "arrivals xs = concat (map (\<lambda>x. case x of SseArrive m \<Rightarrow> [m] | _ \<Rightarrow> []) xs)"

definition sse_events :: "sse_event list \<Rightarrow> (nat \<times> message) list" where
  "sse_events os = concat (map (\<lambda>e. case e of Event k m \<Rightarrow> [(k, m)] | _ \<Rightarrow> []) os)"

text \<open>\<open>sent\<close> are the messages taken from the buffer so far.\<close>

definition sse_inv :: "(message \<Rightarrow> bool) \<Rightarrow> message list \<Rightarrow> message list \<Rightarrow> sse \<Rightarrow> bool" where
  "sse_inv en arr sent s \<longleftrightarrow> subseq (sent @ se_ch s) arr \<and> int (length (sent @ se_ch s)) + se_dropped s = int (length arr) \<and>
     length (se_ch s) \<le> se_cap s \<and> se_id s = length sent \<and>
     sse_events (se_out s) = filter (\<lambda>(k, m). en m) (enumerate 1 sent)"

lemma sse_events_append [simp]: "sse_events (xs @ ys) = sse_events xs @ sse_events ys"
  by (simp add: sse_events_def)

lemma sse_events_simps [simp]: "sse_events [Event k m] = [(k, m)]" "sse_events [Heartbeat d] = []" "sse_events [Subscribed_comment] = []"
  by (simp_all add: sse_events_def)

lemma subseq_snoc: "subseq xs ys \<Longrightarrow> subseq xs (ys @ [y])"
  by (metis append_Nil2 list_emb_append_mono list_emb_Nil)

lemma sse_step_inv:
  assumes "sse_inv en arr sent s" "sse_step en x s = Some s1"
  shows "\<exists>sent1. sse_inv en (arr @ arrivals [x]) sent1 s1"
proof (cases x)
  case (SseArrive m)
  show ?thesis
  proof (cases "length (se_ch s) < se_cap s")
    case True
    have "subseq (sent @ se_ch s @ [m]) (arr @ [m])"
      using assms(1) list_emb_append_mono [of "(=)" "sent @ se_ch s" arr "[m]" "[m]"] by (simp add: sse_inv_def)
    then have "sse_inv en (arr @ arrivals [x]) sent s1"
      using assms True by (auto simp: SseArrive sse_inv_def arrivals_def)
    then show ?thesis by blast
  next
    case False
    then have "sse_inv en (arr @ arrivals [x]) sent s1"
      using assms by (auto simp: SseArrive sse_inv_def arrivals_def subseq_snoc)
    then show ?thesis by blast
  qed
next
  case SseTick
  then have "sse_inv en (arr @ arrivals [x]) sent s1" using assms by (auto simp: sse_inv_def arrivals_def)
  then show ?thesis by blast
next
  case SseTake
  then obtain m ms where ch: "se_ch s = m # ms" using assms(2) by (auto split: list.splits)
  have "enumerate 1 (sent @ [m]) = enumerate 1 sent @ [(Suc (length sent), m)]"
    by (simp add: enumerate_append_eq)
  then have "sse_inv en (arr @ arrivals [x]) (sent @ [m]) s1"
    using assms ch by (auto simp: SseTake sse_inv_def arrivals_def Let_def split: if_splits)
  then show ?thesis by blast
qed

lemma sse_run_inv:
  "sse_inv en arr sent s \<Longrightarrow> sse_run en xs s = Some s1 \<Longrightarrow> \<exists>sent1. sse_inv en (arr @ arrivals xs) sent1 s1"
proof (induction xs arbitrary: arr sent s)
  case (Cons x xs)
  then obtain s2 where s2: "sse_step en x s = Some s2" "sse_run en xs s2 = Some s1" by (auto split: option.splits)
  obtain sent2 where "sse_inv en (arr @ arrivals [x]) sent2 s2" using sse_step_inv [OF Cons.prems(1) s2(1)] by blast
  from Cons.IH [OF this s2(2)] show ?case by (simp add: arrivals_def)
qed (auto simp: arrivals_def)

text \<open>The view of a tag of the plant.\<close>

definition view_of :: "latest \<Rightarrow> tag_ref \<Rightarrow> topic_view" where
  "view_of l tr =
     \<lparr>pv_Topic = tr_key tr, pv_AssetID = as_ID (ar_Asset (tr_Ref tr)), pv_Tag = tg_Name (tr_Tag tr), pv_Source = tr_source tr,
      pv_Quality = map_option me_Quality (latest_Topic l (tr_key tr)),
      pv_LastSeen = map_option me_Timestamp (latest_Topic l (tr_key tr))\<rparr>"

lemma those_map_Some: "(\<And>x. x \<in> set xs \<Longrightarrow> f x = Some (g x)) \<Longrightarrow> those (map f xs) = Some (map g xs)"
  by (induction xs) auto

lemma topic_entry_plant:
  assumes "plant_ok p" "t \<in> set (index_Topics (plant_Index p))"
  shows "\<exists>tr \<in> set (plant_tag_refs p). tr_key tr = t \<and> topic_entry d (plant_Index p) t = Some (view_of (dp_Latest d) tr)"
proof -
  have dk: "distinct (map tr_key (plant_tag_refs p))"
    using assms(1) unfolding plant_tag_refs_keys plant_ok_def by blast
  obtain tr where tr: "tr \<in> set (plant_tag_refs p)" "tr_key tr = t"
    using assms(2) by (auto simp: index_Topics_def plant_Index_effect(4) [OF assms(1)])
  then have "TagByTopic (plant_Index p) t = Some tr"
    unfolding TagByTopic_def plant_Index_effect(3) [OF assms(1)] using dk
    by (auto simp: map_of_eq_Some_iff comp_def rev_map [symmetric] intro!: map_of_is_SomeI)
  then show ?thesis using tr by (auto simp: topic_entry_def view_of_def)
qed

lemma api_topics_plant:
  assumes "plant_ok p" "dp_Index d = Some (plant_Index p)" "f = [] \<or> ValidateFilter f = None"
  shows "\<exists>out lifecycle. api_topics quote rid f d = ok_response (TopicsBody (pt_Enterprise p @ ''/'' @ pt_Site p) out lifecycle) \<and>
    map pv_Topic out = filter (\<lambda>t. f = [] \<or> MatchFilter f t) (sort (map tr_key (plant_tag_refs p))) \<and>
    set out = view_of (dp_Latest d) ` {tr \<in> set (plant_tag_refs p). f = [] \<or> MatchFilter f (tr_key tr)}"
proof -
  let ?ix = "plant_Index p" and ?m = "\<lambda>t. f = [] \<or> MatchFilter f t"
  have topics: "index_Topics ?ix = sort (map tr_key (plant_tag_refs p))"
    by (simp add: index_Topics_def plant_Index_effect(4) [OF assms(1)])
  have "\<forall>t \<in> set (index_Topics ?ix). \<exists>tr. tr \<in> set (plant_tag_refs p) \<and> tr_key tr = t \<and>
      topic_entry d ?ix t = Some (view_of (dp_Latest d) tr)"
    using topic_entry_plant [OF assms(1)] by blast
  then obtain r where r: "\<And>t. t \<in> set (index_Topics ?ix) \<Longrightarrow>
      r t \<in> set (plant_tag_refs p) \<and> tr_key (r t) = t \<and> topic_entry d ?ix t = Some (view_of (dp_Latest d) (r t))"
    by metis
  let ?ts = "filter ?m (index_Topics ?ix)"
  define out where "out = map (\<lambda>t. view_of (dp_Latest d) (r t)) ?ts"
  have "those (map (topic_entry d ?ix) ?ts) = Some out"
    unfolding out_def by (rule those_map_Some) (use r in auto)
  then have a: "\<exists>lc. api_topics quote rid f d = ok_response (TopicsBody (pt_Enterprise p @ ''/'' @ pt_Site p) out lc)"
    using assms(2,3) plant_Index_effect(2) [OF assms(1)] by (auto simp: api_topics_def Let_def)
  have "map pv_Topic out = map (\<lambda>t. t) ?ts"
    unfolding out_def map_map by (rule map_cong [OF refl]) (use r in \<open>simp add: view_of_def\<close>)
  then have b: "map pv_Topic out = ?ts" by simp
  have same: "r (tr_key tr) = tr" if "tr \<in> set (plant_tag_refs p)" for tr
  proof -
    have "tr_key tr \<in> set (index_Topics ?ix)" using that by (simp add: topics)
    moreover have "distinct (map tr_key (plant_tag_refs p))"
      using assms(1) unfolding plant_tag_refs_keys plant_ok_def by blast
    ultimately show ?thesis using r that by (auto simp: distinct_map inj_on_def)
  qed
  have "set out = (\<lambda>t. view_of (dp_Latest d) (r t)) ` {t \<in> tr_key ` set (plant_tag_refs p). ?m t}"
    unfolding out_def by (simp add: topics)
  also have "\<dots> = (\<lambda>tr. view_of (dp_Latest d) (r (tr_key tr))) ` {tr \<in> set (plant_tag_refs p). ?m (tr_key tr)}"
    by blast
  also have "\<dots> = view_of (dp_Latest d) ` {tr \<in> set (plant_tag_refs p). ?m (tr_key tr)}"
    by (rule image_cong [OF refl]) (simp add: same)
  finally show ?thesis using a b topics by auto
qed

lemma api_route_plant:
  assumes "plant_ok p" "dp_Index d = Some (plant_Index p)" "dp_Health d = Some h" "health_Snapshot h \<noteq> None"
  shows "\<exists>r. api_route quote rid req d = Some r \<and> rs_Status r \<in> {200, 400, 404, 503}"
proof (cases req)
  case (GetTopics f)
  show ?thesis
  proof (cases "f = [] \<or> ValidateFilter f = None")
    case True
    from api_topics_plant [OF assms(1,2) this, of quote rid] show ?thesis by (auto simp: GetTopics)
  qed (auto simp: GetTopics api_topics_def)
qed (use assms in \<open>auto simp: api_healthz_def api_readyz_def api_assets_def api_asset_def api_latest_def api_sources_def
      api_bridge_def Let_def split: option.splits prod.splits\<close>)

section \<open>Properties\<close>

text \<open>
  C34: the event stream accounts for every message. Whatever the interleaving of arrivals, ticks and
  writes, an arrival never blocks, what was taken from the buffer and what is still in it is a
  subsequence of the arrivals, the drop counter is exactly what is missing, the buffer keeps
  its bound, and the events written are the messages taken, in order, numbered from 1.
\<close>

theorem sse_accounts_for_messages:
  assumes "stream_open quote rid param fl sub n = Inr (f, s0)" "sse_run en xs s0 = Some s"
  shows "\<exists>sent. subseq (sent @ se_ch s) (arrivals xs) \<and>
    int (length (sent @ se_ch s)) + se_dropped s = int (length (arrivals xs)) \<and>
    length (se_ch s) \<le> default_buffer n \<and>
    sse_events (se_out s) = filter (\<lambda>(k, m). en m) (enumerate 1 sent) \<and>
    (\<forall>m. \<exists>s'. sse_step en (SseArrive m) s = Some s')"
proof -
  have s0: "s0 = \<lparr>se_ch = [], se_cap = default_buffer n, se_dropped = 0, se_id = 0, se_out = [Subscribed_comment]\<rparr>"
    using assms(1) by (auto simp: stream_open_def Let_def split: option.splits if_splits)
  have "sse_inv en [] [] s0" by (simp add: sse_inv_def s0)
  from sse_run_inv [OF this assms(2)] obtain sent where inv: "sse_inv en (arrivals xs) sent s" by auto
  have "se_cap s' = se_cap s1" if "sse_run en ys s1 = Some s'" for ys s1 s'
    using that
  proof (induction ys arbitrary: s1)
    case (Cons y ys)
    then obtain s2 where s2: "sse_step en y s1 = Some s2" "sse_run en ys s2 = Some s'" by (auto split: option.splits)
    have "se_cap s2 = se_cap s1" using s2(1) by (cases y) (auto simp: Let_def split: if_splits list.splits)
    then show ?case using Cons.IH [OF s2(2)] by simp
  qed simp
  from this [OF assms(2)] have "se_cap s = default_buffer n" by (simp add: s0)
  then show ?thesis using inv unfolding sse_inv_def by auto
qed

theorem sse_accounts_for_messages_witness:
  "let m = \<lparr>m_topic = ''a'', m_payload = [], m_retain = False, m_at = 0\<rparr>
   in \<exists>f s0 s. stream_open id [] [] True (\<lambda>_. None) 1 = Inr (f, s0) \<and>
        sse_run (\<lambda>_. True) [SseArrive m, SseArrive m, SseTake, SseTick] s0 = Some s \<and>
        se_out s = [Subscribed_comment, Event 1 m, Heartbeat 1] \<and>
        (\<exists>sent. int (length (sent @ se_ch s)) + se_dropped s = 2)"
proof -
  define m where "m = \<lparr>m_topic = ''a'', m_payload = [], m_retain = False, m_at = 0\<rparr>"
  define s0 where "s0 = \<lparr>se_ch = [], se_cap = 1, se_dropped = 0, se_id = 0, se_out = [Subscribed_comment]\<rparr>"
  have o: "stream_open id [] [] True (\<lambda>_. None) 1 = Inr (''#'', s0)"
    by (simp add: stream_open_def ValidateFilter_def contains_any_def default_buffer_def s0_def)
  obtain s where s: "sse_run (\<lambda>_. True) [SseArrive m, SseArrive m, SseTake, SseTick] s0 = Some s"
    "se_out s = [Subscribed_comment, Event 1 m, Heartbeat 1]"
    by (simp add: s0_def)
  from sse_accounts_for_messages [OF o s(1)] have "\<exists>sent. int (length (sent @ se_ch s)) + se_dropped s = 2"
    by (auto simp: arrivals_def)
  then show ?thesis using o s unfolding Let_def m_def [symmetric] by blast
qed


definition sample_deps :: api_deps where
  "sample_deps = \<lparr>dp_Index = Some (plant_Index sample_plant), dp_Latest = NewLatest, dp_Health = Some NewHealth,
     dp_BrokerReady = Some True, dp_Bridge = None, dp_Version = ''dev''\<rparr>"


text \<open>
  The topic list. For a parsed plant and an absent or well-formed filter the answer lists
  exactly the topics of the plant's tags that the filter matches, each once and in order,
  with the asset, tag and source of the tag that publishes on it and its cached quality; a
  malformed filter is answered with 400.
\<close>

theorem topics_endpoint_exact:
  assumes "asset_Parse yaml y = Inr p" "dp_Index d = Some (plant_Index p)"
  shows "if f = [] \<or> ValidateFilter f = None
    then \<exists>ns out lifecycle. api_topics quote rid f d = Some \<lparr>rs_Status = 200, rs_Body = TopicsBody ns out lifecycle\<rparr> \<and>
      sorted_wrt (<) (map pv_Topic out) \<and>
      set out = view_of (dp_Latest d) ` {tr \<in> set (plant_tag_refs p). f = [] \<or> MatchFilter f (tr_key tr)}
    else \<exists>e. api_topics quote rid f d = Some \<lparr>rs_Status = 400, rs_Body = ErrorBody e rid\<rparr>"
proof (cases "f = [] \<or> ValidateFilter f = None")
  case True
  have ok: "plant_ok p" using asset_Parse_ok [OF assms(1)] by blast
  have dk: "distinct (map tr_key (plant_tag_refs p))"
    using ok unfolding plant_tag_refs_keys plant_ok_def by blast
  obtain out lc where o: "api_topics quote rid f d = ok_response (TopicsBody (pt_Enterprise p @ ''/'' @ pt_Site p) out lc)"
    "map pv_Topic out = filter (\<lambda>t. f = [] \<or> MatchFilter f t) (sort (map tr_key (plant_tag_refs p)))"
    "set out = view_of (dp_Latest d) ` {tr \<in> set (plant_tag_refs p). f = [] \<or> MatchFilter f (tr_key tr)}"
    using api_topics_plant [OF ok assms(2) True, of quote rid] by blast
  have "sorted_wrt (<) (map pv_Topic out)"
    unfolding o(2) strict_sorted_iff using dk by (simp add: sorted_wrt_filter)
  then show ?thesis using True o(1,3) by auto
qed (auto simp: api_topics_def)

theorem topics_endpoint_exact_witness:
  "\<exists>ns out lifecycle. api_topics id [] [] sample_deps = Some \<lparr>rs_Status = 200, rs_Body = TopicsBody ns out lifecycle\<rparr> \<and>
     set out = view_of NewLatest ` set (plant_tag_refs sample_plant)"
  using topics_endpoint_exact [OF sample_plant_parses, of sample_deps "[]" id "[]"] by (auto simp: sample_deps_def)

end
