(* ===== verification/Plc_Sim.thy ===== *)
theory Plc_Sim
  imports Line_Sim Modbus_Link Modbus_Regs
begin

text \<open>
  The PLC simulator, \<^verbatim>\<open>cmd/plc-sim/main.go\<close>: the registers it keeps for the packaging line and
  one turn of its loop, on top of the line model, the register codec and the register bank.
  Flags, signals, the listener and log output are left out.
\<close>

section \<open>Registers\<close>

text \<open>The loop over the three float signals of \<^verbatim>\<open>writeRegisters\<close>.\<close>

fun encode_floats :: "byte_order \<Rightarrow> float64 list \<Rightarrow> regs_error + uint16 list" where
  "encode_floats order [] = Inr []"
| "encode_floats order (v # vs) =
     (case Encode Float32 order v of
        Inl e \<Rightarrow> Inl e
      | Inr regs \<Rightarrow> (case encode_floats order vs of Inl e \<Rightarrow> Inl e | Inr rest \<Rightarrow> Inr (regs @ rest)))"

datatype plc_error = EncodeFailed regs_error | BankFailed mb_error

definition writeRegisters :: "memory_bank \<Rightarrow> snapshot \<Rightarrow> byte_order \<Rightarrow> plc_error + memory_bank" where
  "writeRegisters bank s order =
     (case encode_floats order [sn_Speed s, sn_Temperature s, sn_Vibration s] of
        Inl e \<Rightarrow> Inl (EncodeFailed e)
      | Inr floats \<Rightarrow>
          let holding1 = floats @ [sn_State s]
          in (case Encode UInt32 order (fl_of_int (uint (sn_Count s))) of
                Inl e \<Rightarrow> Inl (EncodeFailed e)
              | Inr count \<Rightarrow>
                  (case SetHolding bank 0 (holding1 @ count) of
                     Inl e \<Rightarrow> Inl (BankFailed e)
                   | Inr bank1 \<Rightarrow>
                       (case Encode Int16 order (fl_mul (sn_Ambient s) (Fin 10)) of
                          Inl e \<Rightarrow> Inl (EncodeFailed e)
                        | Inr ambient \<Rightarrow>
                            (case Encode UInt16 order (fl_mul (sn_Pressure s) (Fin 100)) of
                               Inl e \<Rightarrow> Inl (EncodeFailed e)
                             | Inr pressure \<Rightarrow>
                                 (case SetInput bank1 0 (ambient @ pressure) of
                                    Inl e \<Rightarrow> Inl (BankFailed e)
                                  | Inr bank2 \<Rightarrow> Inr bank2))))))"

text \<open>The start of \<^verbatim>\<open>run\<close>, and what it does on a tick.\<close>

definition plc_start :: "(int \<Rightarrow> 'r) \<Rightarrow> int \<Rightarrow> byte_order \<Rightarrow> plc_error + 'r sim_line \<times> memory_bank" where
  "plc_start new_source seed order =
     (let line = NewLine new_source seed
      in case writeRegisters (NewMemoryBank 16 8) (line_Snapshot line) order of
           Inl e \<Rightarrow> Inl e
         | Inr bank \<Rightarrow> Inr (line, bank))"

definition plc_tick ::
  "(float64 \<Rightarrow> float64) \<Rightarrow> 'r rand_ops \<Rightarrow> duration \<Rightarrow> byte_order \<Rightarrow> 'r sim_line \<times> memory_bank \<Rightarrow> plc_error + 'r sim_line \<times> memory_bank" where
  "plc_tick E R tick order x =
     (case x of (line, bank) \<Rightarrow>
        let line1 = line_Step E R tick line
        in (case writeRegisters bank (line_Snapshot line1) order of
              Inl e \<Rightarrow> Inl e
            | Inr bank1 \<Rightarrow> Inr (line1, bank1)))"

fun plc_run ::
  "(float64 \<Rightarrow> float64) \<Rightarrow> 'r rand_ops \<Rightarrow> duration \<Rightarrow> byte_order \<Rightarrow> nat \<Rightarrow> 'r sim_line \<times> memory_bank \<Rightarrow> plc_error + 'r sim_line \<times> memory_bank" where
  "plc_run E R tick order 0 x = Inr x"
| "plc_run E R tick order (Suc n) x =
     (case plc_tick E R tick order x of Inl e \<Rightarrow> Inl e | Inr x1 \<Rightarrow> plc_run E R tick order n x1)"

section \<open>What a client reads\<close>

lemma Decode_Encode_float:
  "Encode Float32 order v = Inr regs \<Longrightarrow> Decode Float32 order regs = Inr (Float32frombits (Float32bits (fl_to32 v)))"
  by (auto simp: Encode_def Decode_def canonical_fromCanonical length_fromCanonical)

lemma Encode_Some:
  "\<exists>regs. Encode Float32 order v = Inr regs \<and> length regs = 2 \<and>
     Decode Float32 order regs = Inr (Float32frombits (Float32bits (fl_to32 v)))"
  "\<exists>regs. Encode UInt32 order v = Inr regs \<and> length regs = 2 \<and> Decode UInt32 order regs = Inr (Fin (of_int (clamped v 0 4294967295)))"
  "\<exists>regs. Encode Int16 order v = Inr regs \<and> length regs = 1 \<and> Decode Int16 order regs = Inr (Fin (of_int (clamped v (- 32768) 32767)))"
  "\<exists>regs. Encode UInt16 order v = Inr regs \<and> length regs = 1 \<and> Decode UInt16 order regs = Inr (Fin (of_int (clamped v 0 65535)))"
proof -
  have len: "length regs = unat (Words t)" if "Decode t order regs = Inr w" for t regs w
    using that by (auto simp: Decode_def split: if_splits)
  show "\<exists>regs. Encode Float32 order v = Inr regs \<and> length regs = 2 \<and>
     Decode Float32 order regs = Inr (Float32frombits (Float32bits (fl_to32 v)))"
    by (auto simp: Encode_def Decode_def canonical_fromCanonical length_fromCanonical)
  show "\<exists>regs. Encode UInt32 order v = Inr regs \<and> length regs = 2 \<and> Decode UInt32 order regs = Inr (Fin (of_int (clamped v 0 4294967295)))"
    using Decode_int_type [of UInt32 0 4294967295 order v] len [of UInt32] by fastforce
  show "\<exists>regs. Encode Int16 order v = Inr regs \<and> length regs = 1 \<and> Decode Int16 order regs = Inr (Fin (of_int (clamped v (- 32768) 32767)))"
    using Decode_int_type [of Int16 "- 32768" 32767 order v] len [of Int16] by fastforce
  show "\<exists>regs. Encode UInt16 order v = Inr regs \<and> length regs = 1 \<and> Decode UInt16 order regs = Inr (Fin (of_int (clamped v 0 65535)))"
    using Decode_int_type [of UInt16 0 65535 order v] len [of UInt16] by fastforce
qed

text \<open>The tables that hold a snapshot; \<open>slice\<close> is what a read of a register range sees.\<close>

definition reg_slice :: "uint16 list \<Rightarrow> nat \<Rightarrow> nat \<Rightarrow> uint16 list" where
  "reg_slice table addr n = take n (drop addr table)"

definition shows_line :: "byte_order \<Rightarrow> snapshot \<Rightarrow> memory_bank \<Rightarrow> bool" where
  "shows_line order s b \<longleftrightarrow> length (holding b) = 16 \<and> length (input b) = 8 \<and>
     Decode Float32 order (reg_slice (holding b) 0 2) = Inr (Float32frombits (Float32bits (fl_to32 (sn_Speed s)))) \<and>
     Decode Float32 order (reg_slice (holding b) 2 2) = Inr (Float32frombits (Float32bits (fl_to32 (sn_Temperature s)))) \<and>
     Decode Float32 order (reg_slice (holding b) 4 2) = Inr (Float32frombits (Float32bits (fl_to32 (sn_Vibration s)))) \<and>
     reg_slice (holding b) 6 1 = [sn_State s] \<and>
     Decode UInt32 order (reg_slice (holding b) 7 2) = Inr (Fin (of_int (uint (sn_Count s)))) \<and>
     Decode Int16 order (reg_slice (input b) 0 1) =
       Inr (Fin (of_int (clamped (fl_mul (sn_Ambient s) (Fin 10)) (- 32768) 32767))) \<and>
     Decode UInt16 order (reg_slice (input b) 1 1) =
       Inr (Fin (of_int (clamped (fl_mul (sn_Pressure s) (Fin 100)) 0 65535)))"

lemma writeRegisters_shows:
  assumes "length (holding b) = 16" "length (input b) = 8"
  shows "\<exists>b'. writeRegisters b s order = Inr b' \<and> shows_line order s b'"
proof -
  obtain f1 where f1: "Encode Float32 order (sn_Speed s) = Inr f1" "length f1 = 2"
    "Decode Float32 order f1 = Inr (Float32frombits (Float32bits (fl_to32 (sn_Speed s))))" using Encode_Some(1) by blast
  obtain f2 where f2: "Encode Float32 order (sn_Temperature s) = Inr f2" "length f2 = 2"
    "Decode Float32 order f2 = Inr (Float32frombits (Float32bits (fl_to32 (sn_Temperature s))))" using Encode_Some(1) by blast
  obtain f3 where f3: "Encode Float32 order (sn_Vibration s) = Inr f3" "length f3 = 2"
    "Decode Float32 order f3 = Inr (Float32frombits (Float32bits (fl_to32 (sn_Vibration s))))" using Encode_Some(1) by blast
  let ?n = "uint (sn_Count s)"
  have n: "0 \<le> ?n" "?n \<le> 4294967295" using uint_bounded [of "sn_Count s"] by (simp_all add: word_size)
  have "fl_of_int ?n = Fin (of_int ?n)" by (rule fl_of_int_exact) (use n in auto)
  then have "clamped (fl_of_int ?n) 0 4294967295 = ?n" using clamped_of_int [OF n] by simp
  then obtain c where c: "Encode UInt32 order (fl_of_int ?n) = Inr c" "length c = 2" "Decode UInt32 order c = Inr (Fin (of_int ?n))"
    using Encode_Some(2) [of order "fl_of_int ?n"] by auto
  obtain a where a: "Encode Int16 order (fl_mul (sn_Ambient s) (Fin 10)) = Inr a" "length a = 1"
    "Decode Int16 order a = Inr (Fin (of_int (clamped (fl_mul (sn_Ambient s) (Fin 10)) (- 32768) 32767)))"
    using Encode_Some(3) by blast
  obtain p where p: "Encode UInt16 order (fl_mul (sn_Pressure s) (Fin 100)) = Inr p" "length p = 1"
    "Decode UInt16 order p = Inr (Fin (of_int (clamped (fl_mul (sn_Pressure s) (Fin 100)) 0 65535)))"
    using Encode_Some(4) by blast
  have w: "writeRegisters b s order =
      Inr (b\<lparr>holding := f1 @ f2 @ f3 @ [sn_State s] @ c @ drop 9 (holding b), input := a @ p @ drop 2 (input b)\<rparr>)"
    using f1(1,2) f2(1,2) f3(1,2) c(1,2) a(1,2) p(1,2) assms
    by (simp add: writeRegisters_def SetHolding_def SetInput_def bank_write_def eval_nat_numeral)
  moreover have "shows_line order s (b\<lparr>holding := f1 @ f2 @ f3 @ [sn_State s] @ c @ drop 9 (holding b), input := a @ p @ drop 2 (input b)\<rparr>)"
    using f1(2,3) f2(2,3) f3(2,3) c(2,3) a(2,3) p(2,3) assms by (simp add: shows_line_def reg_slice_def)
  ultimately show ?thesis by blast
qed

lemma plc_run_shows:
  assumes "shows_line order (line_Snapshot line) b"
  shows "\<exists>line' b'. plc_run E R tick order n (line, b) = Inr (line', b') \<and>
    line' = (line_Step E R tick ^^ n) line \<and> shows_line order (line_Snapshot line') b'"
  using assms
proof (induction n arbitrary: line b)
  case (Suc n)
  let ?l = "line_Step E R tick line"
  obtain b1 where b1: "writeRegisters b (line_Snapshot ?l) order = Inr b1" "shows_line order (line_Snapshot ?l) b1"
    using writeRegisters_shows [of b] Suc.prems unfolding shows_line_def by blast
  from Suc.IH [OF b1(2)] show ?case
    by (simp add: plc_tick_def b1(1) Let_def funpow_swap1)
qed simp

lemma swap_small:
  assumes "uint (w :: uint16) < 256"
  shows "uint (get_uint16 [lo_byte w, hi_byte w]) = 256 * uint w"
proof -
  have d: "uint (drop_bit 8 w) = 0" using assms unfolding unsigned_drop_bit_eq by (simp add: drop_bit_eq_div take_bit_eq_mod)
  then have h: "hi_byte w = 0" unfolding hi_byte_def by (metis uint_0_iff unsigned_0)
  have "uint (lo_byte w) = uint w" using assms by (simp add: lo_byte_def unsigned_ucast_eq take_bit_eq_mod)
  then have l: "uint (ucast (lo_byte w) :: uint16) = uint w" using assms by (simp add: unsigned_ucast_eq take_bit_eq_mod)
  have "uint (push_bit 8 (ucast (lo_byte w)) :: uint16) = 256 * uint w"
    using assms l unfolding unsigned_push_bit_eq by (simp add: take_bit_eq_mod push_bit_eq_mult)
  then show ?thesis by (simp add: h)
qed

section \<open>Properties\<close>

text \<open>
  C36: the register map of the simulator. After any number of ticks the simulator is running, and a
  client that reads the nine holding registers and the two input registers through the
  Modbus server decodes, at the addresses of the printed map and in the configured byte
  order, the binary32 forms of speed, temperature and vibration, the state, the bottle
  count, and ambient temperature and pressure scaled by 10 and 100 and cut to their types.
\<close>

theorem plc_registers_readable:
  assumes "c_faults (cl_conn cl) = []" "rd_avail (c_rd (cl_conn cl)) = []"
  shows "\<exists>x0 line b. plc_start ns seed order = Inr x0 \<and> plc_run E R tick order n x0 = Inr (line, b) \<and>
    line = (line_Step E R tick ^^ n) (NewLine ns seed) \<and>
    (let s = line_Snapshot line; f32 = (\<lambda>v. Float32frombits (Float32bits (fl_to32 v)))
     in \<exists>regs inp. fst (readRegisters (server_peer b) False cl FuncReadHoldingRegisters unit 0 9) = Inr regs \<and>
        fst (readRegisters (server_peer b) False cl FuncReadInputRegisters unit 0 2) = Inr inp \<and>
        Decode Float32 order (take 2 regs) = Inr (f32 (sn_Speed s)) \<and>
        Decode Float32 order (take 2 (drop 2 regs)) = Inr (f32 (sn_Temperature s)) \<and>
        Decode Float32 order (take 2 (drop 4 regs)) = Inr (f32 (sn_Vibration s)) \<and>
        regs ! 6 = sn_State s \<and>
        Decode UInt32 order (drop 7 regs) = Inr (Fin (of_int (uint (sn_Count s)))) \<and>
        Decode Int16 order (take 1 inp) = Inr (Fin (of_int (clamped (fl_mul (sn_Ambient s) (Fin 10)) (- 32768) 32767))) \<and>
        Decode UInt16 order (drop 1 inp) = Inr (Fin (of_int (clamped (fl_mul (sn_Pressure s) (Fin 100)) 0 65535))))"
proof -
  have "length (holding (NewMemoryBank 16 8)) = 16" "length (input (NewMemoryBank 16 8)) = 8" by (simp_all add: NewMemoryBank_def)
  from writeRegisters_shows [OF this, of "line_Snapshot (NewLine ns seed)" order] obtain b0
    where b0: "plc_start ns seed order = Inr (NewLine ns seed, b0)" "shows_line order (line_Snapshot (NewLine ns seed)) b0"
    by (auto simp: plc_start_def)
  obtain line b where b: "plc_run E R tick order n (NewLine ns seed, b0) = Inr (line, b)"
    "line = (line_Step E R tick ^^ n) (NewLine ns seed)" "shows_line order (line_Snapshot line) b"
    using plc_run_shows [OF b0(2)] by blast
  note S = b(3) [unfolded shows_line_def]
  have q: "\<exists>req. ReadRegistersRequest fn 0 qty = Inr req"
    if "fn \<in> {FuncReadHoldingRegisters, FuncReadInputRegisters}" "qty \<in> {2, 9}" for fn qty
    using that by (auto simp: ReadRegistersRequest_def MaxRegistersPerRead_def address_overflow_def)
  have rd: "fst (readRegisters (server_peer b) False cl fn unit 0 qty) =
      Inr (take (unat qty) (if fn = FuncReadHoldingRegisters then holding b else input b))"
    if fn: "fn \<in> {FuncReadHoldingRegisters, FuncReadInputRegisters}" "qty \<in> {2, 9}"
      "unat qty \<le> length (if fn = FuncReadHoldingRegisters then holding b else input b)" for fn qty
  proof -
    obtain req where "ReadRegistersRequest fn 0 qty = Inr req" using q [OF fn(1,2)] by blast
    from read_through_server [OF this assms(1), of "[]" b unit] assms(2) fn(3) show ?thesis
      by (auto simp: Let_def)
  qed
  have ne: "FuncReadInputRegisters \<noteq> FuncReadHoldingRegisters"
    by (simp add: FuncReadInputRegisters_def FuncReadHoldingRegisters_def)
  have h: "fst (readRegisters (server_peer b) False cl FuncReadHoldingRegisters unit 0 9) = Inr (take 9 (holding b))"
    using rd [of FuncReadHoldingRegisters 9] S by simp
  have i: "fst (readRegisters (server_peer b) False cl FuncReadInputRegisters unit 0 2) = Inr (take 2 (input b))"
    using rd [of FuncReadInputRegisters 2] S ne by simp
  have "take 1 (drop 6 (holding b)) = [holding b ! 6]"
    using S by (simp add: take_Suc_conv_app_nth)
  then have "take 9 (holding b) ! 6 = sn_State (line_Snapshot line)" using S by (simp add: reg_slice_def)
  moreover have "take 2 (take 9 (holding b)) = reg_slice (holding b) 0 2" "take 2 (drop 2 (take 9 (holding b))) = reg_slice (holding b) 2 2"
    "take 2 (drop 4 (take 9 (holding b))) = reg_slice (holding b) 4 2" "drop 7 (take 9 (holding b)) = reg_slice (holding b) 7 2"
    "take 1 (take 2 (input b)) = reg_slice (input b) 0 1" "drop 1 (take 2 (input b)) = reg_slice (input b) 1 1"
    by (simp_all add: reg_slice_def drop_take)
  ultimately show ?thesis using b0(1) b h i S by (auto simp: Let_def)
qed

theorem plc_registers_readable_witness:
  "\<exists>line b. plc_run (\<lambda>x. Fin 1) const_rand (seconds 1) CDAB 3 (NewLine (\<lambda>_. ()) 42, the (case plc_start (\<lambda>_. ()) 42 CDAB of Inr (_, b) \<Rightarrow> Some b | Inl _ \<Rightarrow> None)) = Inr (line, b)"
proof -
  define cl :: client where "cl = \<lparr>cl_conn = \<lparr>c_rd = \<lparr>rd_avail = [], rd_end = Timeout\<rparr>, c_out = [], c_faults = []\<rparr>, cl_tid = 0\<rparr>"
  have "c_faults (cl_conn cl) = []" "rd_avail (c_rd (cl_conn cl)) = []" by (simp_all add: cl_def)
  from plc_registers_readable [OF this, of "\<lambda>_. ()" 42 CDAB "\<lambda>x. Fin 1" const_rand "seconds 1" 3 1]
  obtain x0 line b where x: "plc_start (\<lambda>_. ()) 42 CDAB = Inr x0" "plc_run (\<lambda>x. Fin 1) const_rand (seconds 1) CDAB 3 x0 = Inr (line, b)"
    by blast
  have "fst x0 = NewLine (\<lambda>_. ()) 42" using x(1) by (auto simp: plc_start_def Let_def split: sum.splits)
  then have "(NewLine (\<lambda>_. ()) 42, the (case plc_start (\<lambda>_. ()) 42 CDAB of Inr (_, b) \<Rightarrow> Some b | Inl _ \<Rightarrow> None)) = x0"
    using x(1) by (cases x0) simp
  then show ?thesis using x(2) by auto
qed

text \<open>
  The byte order is applied to some of the 16-bit registers only. With an order that swaps
  bytes, ambient temperature and pressure are written swapped, as the codec reads them, but
  the state is written as it is: read in that order every state but 0 comes out 256 times
  too large, and read in the order \<^verbatim>\<open>ABCD\<close> the state is right.
\<close>

theorem plc_state_ignores_byte_order:
  assumes "order \<in> {DCBA, BADC}" "length (holding b) = 16" "length (input b) = 8" "sn_State s < 256"
  shows "\<exists>b'. writeRegisters b s order = Inr b' \<and>
    Decode UInt16 order (reg_slice (holding b') 6 1) = Inr (Fin (of_int (256 * uint (sn_State s)))) \<and>
    Decode UInt16 ABCD (reg_slice (holding b') 6 1) = Inr (Fin (of_int (uint (sn_State s)))) \<and>
    Decode Int16 order (reg_slice (input b') 0 1) =
      Inr (Fin (of_int (clamped (fl_mul (sn_Ambient s) (Fin 10)) (- 32768) 32767)))"
proof -
  obtain b' where b': "writeRegisters b s order = Inr b'" "shows_line order s b'" using writeRegisters_shows [OF assms(2,3)] by blast
  let ?w = "sn_State s"
  have lt: "uint ?w < 256" using assms(4) by (simp add: word_less_def)
  have exact: "fl_of_int k = Fin (of_int k)" if "0 \<le> k" "k \<le> 65535" for k by (rule fl_of_int_exact) (use that in auto)
  have abcd: "get_uint16 [hi_byte ?w, lo_byte ?w] = ?w"
    using word_of_hi_lo [of ?w] by (simp add: word_of_bytes_def)
  show ?thesis
    using b' assms(1) lt exact [of "uint ?w"] exact [of "256 * uint ?w"] uint_ge_0 [of ?w] abcd swap_small [OF lt]
    by (auto simp: shows_line_def Decode_def simp del: get_uint16.simps)
qed

theorem plc_state_ignores_byte_order_witness:
  "let s = \<lparr>sn_Speed = Fin 480, sn_Temperature = Fin 70, sn_Vibration = Fin 2, sn_State = Running, sn_Count = 7,
             sn_Ambient = Fin 22, sn_Pressure = Fin 6\<rparr>
   in \<exists>b'. writeRegisters (NewMemoryBank 16 8) s DCBA = Inr b' \<and>
        Decode UInt16 DCBA (reg_slice (holding b') 6 1) = Inr (Fin 512) \<and>
        Decode UInt16 ABCD (reg_slice (holding b') 6 1) = Inr (Fin 2)"
  using plc_state_ignores_byte_order [of DCBA "NewMemoryBank 16 8"
      "\<lparr>sn_Speed = Fin 480, sn_Temperature = Fin 70, sn_Vibration = Fin 2, sn_State = Running, sn_Count = 7,
        sn_Ambient = Fin 22, sn_Pressure = Fin 6\<rparr>"]
  by (auto simp: NewMemoryBank_def Running_def Let_def)

end
