(* ===== verification/Mqtt_Broker.thy ===== *)
theory Mqtt_Broker
  imports Ports Uns_Topic
begin

text \<open>
  The MQTT adapter, \<^verbatim>\<open>internal/adapters/mqtt/broker.go\<close>: its configuration defaults, the
  dispatch of incoming messages and the book-keeping of subscriptions. The client library is a
  parameter: the answer of a call to it is an argument of the step in which it returns, and
  \<open>mt_server\<close> records the filters that the server has acknowledged. A call of the adapter is cut
  where it releases its mutex, so that calls interleave. TLS, credentials, the last will and
  log output are not modelled.
\<close>

section \<open>Configuration\<close>

record mqtt_config =
  mc_ClientID :: string
  mc_QoS :: byte
  mc_KeepAlive :: uint16
  mc_ConnectTimeout :: duration

definition mqtt_defaults :: "mqtt_config \<Rightarrow> mqtt_config" where
  "mqtt_defaults c =
     (let c1 = (if mc_QoS c > 1 then c\<lparr>mc_QoS := 1\<rparr> else c);
          c2 = (if mc_KeepAlive c1 = 0 then c1\<lparr>mc_KeepAlive := 30\<rparr> else c1);
          c3 = (if mc_ConnectTimeout c2 \<le> 0 then c2\<lparr>mc_ConnectTimeout := seconds 10\<rparr> else c2)
      in if mc_ClientID c3 = [] then c3\<lparr>mc_ClientID := ''plantstream''\<rparr> else c3)"

definition reconnect_backoff :: "nat \<Rightarrow> duration" where
  "reconnect_backoff attempt = min (2 ^ min attempt 5 * seconds 1) (seconds 30)"

text \<open>The delay of the last will: the doubling happens in the 16 bits of the keep-alive.\<close>

definition will_delay :: "uint16 \<Rightarrow> uint32" where
  "will_delay keepalive = ucast (2 * keepalive)"

section \<open>State\<close>

record mqtt_sub =
  ms_id :: nat
  ms_filter :: string
  ms_ended :: bool

record mqtt_broker =
  mt_subs :: "mqtt_sub list"
  mt_next :: nat
  mt_connected :: bool
  mt_closed :: bool
  mt_server :: "string set"
  mt_subscribing :: "(nat \<times> string) list"
  mt_unsubscribing :: "string list"
  mt_resubscribing :: "string list list"

definition mqtt_fresh :: mqtt_broker where
  "mqtt_fresh = \<lparr>mt_subs = [], mt_next = 0, mt_connected = True, mt_closed = False, mt_server = {},
     mt_subscribing = [], mt_unsubscribing = [], mt_resubscribing = []\<rparr>"

definition filters_of :: "mqtt_broker \<Rightarrow> string set" where
  "filters_of b = ms_filter ` set (mt_subs b)"

section \<open>Operations\<close>

text \<open>\<^verbatim>\<open>onPublish\<close>: the subscriptions whose handlers are called, and whether any matched.\<close>

definition onPublish :: "string \<Rightarrow> mqtt_broker \<Rightarrow> nat list \<times> bool" where
  "onPublish t b =
     (let targets = filter (\<lambda>s. MatchFilter (ms_filter s) t) (mt_subs b)
      in (map ms_id (filter (\<lambda>s. \<not> ms_ended s) targets), targets \<noteq> []))"

datatype mqtt_error = MqttFilter filter_error | MqttClosed

definition subscribe_begin :: "string \<Rightarrow> mqtt_broker \<Rightarrow> (mqtt_error + nat) \<times> mqtt_broker" where
  "subscribe_begin f b =
     (case ValidateFilter f of
        Some e \<Rightarrow> (Inl (MqttFilter e), b)
      | None \<Rightarrow>
          if mt_closed b then (Inl MqttClosed, b)
          else (Inr (mt_next b),
                b\<lparr>mt_subs := mt_subs b @ [\<lparr>ms_id = mt_next b, ms_filter = f, ms_ended = False\<rparr>],
                  mt_next := mt_next b + 1, mt_subscribing := mt_subscribing b @ [(mt_next b, f)]\<rparr>))"

text \<open>The client library returns; on an error the subscription is taken back.\<close>

definition subscribe_end :: "nat \<Rightarrow> string \<Rightarrow> bool \<Rightarrow> mqtt_broker \<Rightarrow> mqtt_broker option" where
  "subscribe_end i f ok b =
     (if (i, f) \<notin> set (mt_subscribing b) then None
      else let b1 = b\<lparr>mt_subscribing := remove1 (i, f) (mt_subscribing b)\<rparr>
           in Some (if ok then b1\<lparr>mt_server := insert f (mt_server b)\<rparr>
                    else b1\<lparr>mt_subs := filter (\<lambda>s. ms_id s \<noteq> i) (mt_subs b)\<rparr>))"

definition unsubscribe_begin :: "nat \<Rightarrow> string \<Rightarrow> mqtt_broker \<Rightarrow> mqtt_broker" where
  "unsubscribe_begin i f b =
     (let subs = filter (\<lambda>s. ms_id s \<noteq> i) (mt_subs b);
          still = (\<exists>s \<in> set subs. ms_filter s = f);
          b1 = b\<lparr>mt_subs := subs\<rparr>
      in if \<not> still \<and> \<not> mt_closed b then b1\<lparr>mt_unsubscribing := mt_unsubscribing b @ [f]\<rparr> else b1)"

definition unsubscribe_end :: "string \<Rightarrow> bool \<Rightarrow> mqtt_broker \<Rightarrow> mqtt_broker option" where
  "unsubscribe_end f ok b =
     (if f \<notin> set (mt_unsubscribing b) then None
      else let b1 = b\<lparr>mt_unsubscribing := remove1 f (mt_unsubscribing b)\<rparr>
           in Some (if ok then b1\<lparr>mt_server := mt_server b - {f}\<rparr> else b1))"

text \<open>The connection comes up, with or without the session kept; \<^verbatim>\<open>resubscribe\<close> runs in a goroutine.\<close>

definition connection_up :: "bool \<Rightarrow> mqtt_broker \<Rightarrow> mqtt_broker" where
  "connection_up session b =
     b\<lparr>mt_connected := True, mt_server := (if session then mt_server b else {}),
       mt_resubscribing := mt_resubscribing b @ [remdups (map ms_filter (mt_subs b))]\<rparr>"

definition resubscribe_end :: "bool \<Rightarrow> mqtt_broker \<Rightarrow> mqtt_broker option" where
  "resubscribe_end ok b =
     (case mt_resubscribing b of
        [] \<Rightarrow> None
      | fs # rest \<Rightarrow>
          Some (b\<lparr>mt_resubscribing := rest, mt_server := (if ok then mt_server b \<union> set fs else mt_server b)\<rparr>))"

definition connection_down :: "mqtt_broker \<Rightarrow> mqtt_broker" where
  "connection_down b = b\<lparr>mt_connected := False\<rparr>"

text \<open>The context of a subscriber ends; \<^verbatim>\<open>onPublish\<close> skips it from then on.\<close>

definition context_ended :: "nat \<Rightarrow> mqtt_broker \<Rightarrow> mqtt_broker" where
  "context_ended i b = b\<lparr>mt_subs := map (\<lambda>s. if ms_id s = i then s\<lparr>ms_ended := True\<rparr> else s) (mt_subs b)\<rparr>"

definition mqtt_Ready :: "mqtt_broker \<Rightarrow> bool" where
  "mqtt_Ready b = (mt_connected b \<and> \<not> mt_closed b)"

definition mqtt_Close :: "mqtt_broker \<Rightarrow> mqtt_broker" where
  "mqtt_Close b = b\<lparr>mt_closed := True\<rparr>"

definition mqtt_Publish :: "string option \<Rightarrow> mqtt_broker \<Rightarrow> port_error option" where
  "mqtt_Publish answer b = (if mt_closed b then Some ErrClosed else map_option ErrIO answer)"

section \<open>Calls that do not overlap\<close>

datatype mqtt_op =
    CallSubscribe string bool
  | CallUnsubscribe nat string bool
  | CallReconnect bool bool
  | CallEnded nat

fun mqtt_call :: "mqtt_op \<Rightarrow> mqtt_broker \<Rightarrow> mqtt_broker option" where
  "mqtt_call (CallSubscribe f ok) b =
     (case subscribe_begin f b of (Inl _, b1) \<Rightarrow> Some b1 | (Inr i, b1) \<Rightarrow> subscribe_end i f ok b1)"
| "mqtt_call (CallUnsubscribe i f ok) b =
     (let b1 = unsubscribe_begin i f b in if f \<in> set (mt_unsubscribing b1) then unsubscribe_end f ok b1 else Some b1)"
| "mqtt_call (CallReconnect session ok) b = resubscribe_end ok (connection_up session (connection_down b))"
| "mqtt_call (CallEnded i) b = Some (context_ended i b)"

fun mqtt_calls :: "mqtt_op list \<Rightarrow> mqtt_broker \<Rightarrow> mqtt_broker option" where
  "mqtt_calls [] b = Some b"
| "mqtt_calls (c # cs) b = (case mqtt_call c b of None \<Rightarrow> None | Some b1 \<Rightarrow> mqtt_calls cs b1)"

text \<open>A reconnect either keeps the session or subscribes again with success.\<close>

definition recovered :: "mqtt_op \<Rightarrow> bool" where
  "recovered c = (case c of CallReconnect session ok \<Rightarrow> session \<or> ok | _ \<Rightarrow> True)"

definition book_ok :: "mqtt_broker \<Rightarrow> bool" where
  "book_ok b \<longleftrightarrow> filters_of b \<subseteq> mt_server b \<and> mt_subscribing b = [] \<and> mt_unsubscribing b = [] \<and> mt_resubscribing b = [] \<and>
     (\<forall>s \<in> set (mt_subs b). ms_id s < mt_next b)"

lemma mqtt_call_ok:
  assumes "book_ok b" "recovered c"
  shows "\<exists>b'. mqtt_call c b = Some b' \<and> book_ok b'"
proof (cases c)
  case (CallSubscribe f ok)
  have "filter (\<lambda>s. ms_id s \<noteq> mt_next b) (mt_subs b) = mt_subs b"
    using assms(1) by (auto simp: book_ok_def filter_id_conv)
  then show ?thesis
    using assms(1) by (auto simp: CallSubscribe subscribe_begin_def subscribe_end_def book_ok_def filters_of_def Let_def
        split: option.splits)
next
  case (CallUnsubscribe i f ok)
  then show ?thesis
    using assms(1) by (auto simp: unsubscribe_begin_def unsubscribe_end_def book_ok_def filters_of_def Let_def)
next
  case (CallReconnect session ok)
  then show ?thesis
    using assms by (auto simp: connection_up_def connection_down_def resubscribe_end_def book_ok_def filters_of_def recovered_def)
next
  case (CallEnded i)
  have "ms_filter ` set (map (\<lambda>s. if ms_id s = i then s\<lparr>ms_ended := True\<rparr> else s) xs) = ms_filter ` set xs" for xs :: "mqtt_sub list"
    by (induction xs) auto
  then show ?thesis using assms(1) by (auto simp: CallEnded context_ended_def book_ok_def filters_of_def)
qed

lemma mqtt_calls_ok:
  "book_ok b \<Longrightarrow> \<forall>c \<in> set cs. recovered c \<Longrightarrow> \<exists>b'. mqtt_calls cs b = Some b' \<and> book_ok b'"
proof (induction cs arbitrary: b)
  case (Cons c cs)
  then obtain b1 where "mqtt_call c b = Some b1" "book_ok b1" using mqtt_call_ok [of b c] by auto
  then show ?case using Cons by simp
qed simp

section \<open>Properties\<close>



text \<open>
  Overlapping calls. A caller that unsubscribes the last subscription of a filter decides
  so under the mutex and tells the server after it; a new subscription of the filter
  whose call to the server comes in between succeeds and is then silently dropped by the
  server, until the next reconnect.
\<close>

theorem mqtt_unsubscribe_race:
  "\<exists>b1 b3 b4. mqtt_calls [CallSubscribe ''a/#'' True] mqtt_fresh = Some b1 \<and>
     subscribe_begin ''a/#'' (unsubscribe_begin 0 ''a/#'' b1) = (Inr 1, b3) \<and>
     (case subscribe_end 1 ''a/#'' True b3 of None \<Rightarrow> None | Some b \<Rightarrow> unsubscribe_end ''a/#'' True b) = Some b4 \<and>
     map ms_id (mt_subs b4) = [1] \<and> mt_subscribing b4 = [] \<and> mt_unsubscribing b4 = [] \<and> mt_server b4 = {}"
proof -
  have v: "ValidateFilter ''a/#'' = None" by (simp add: ValidateFilter_def contains_any_def)
  show ?thesis
    by (simp add: subscribe_begin_def subscribe_end_def unsubscribe_begin_def unsubscribe_end_def mqtt_fresh_def v Let_def)
qed

text \<open>The delay of the last will wraps for a keep-alive of \<open>2 ^ 15\<close> seconds or more.\<close>

lemma will_delay_wraps: "uint (will_delay k) = (2 * uint k) mod 65536"
  by (simp add: will_delay_def unsigned_ucast_eq uint_word_ariths take_bit_eq_mod)

lemma reconnect_backoff_bounds: "seconds 1 \<le> reconnect_backoff a \<and> reconnect_backoff a \<le> seconds 30"
proof -
  have "(1 :: int) \<le> 2 ^ min a 5" by simp
  then show ?thesis by (simp add: reconnect_backoff_def min_def)
qed

end
