(* ===== verification/Mqtt_Connect.thy ===== *)
theory Mqtt_Connect
  imports Mqtt_Broker
begin

text \<open>
  Connecting the MQTT adapter, \<^verbatim>\<open>New\<close>, \<^verbatim>\<open>Publish\<close>, \<^verbatim>\<open>resubscribe\<close> and \<^verbatim>\<open>Close\<close> of
  \<^verbatim>\<open>internal/adapters/mqtt/broker.go\<close>, down to what is handed to the client library: its
  configuration record, the packets and the calls. Parsing of the URL, the construction of the
  connection and the wait for the first one are parameters by their results.
\<close>

section \<open>Configuration of the connection\<close>

record mqtt_options =
  mx_Config :: mqtt_config
  mx_URL :: string
  mx_Username :: string
  mx_Password :: string
  mx_Will :: "message option"

record will_message =
  wm_Topic :: string
  wm_Payload :: "byte list"
  wm_QoS :: byte
  wm_Retain :: bool

record client_config =
  cc_ServerURL :: string
  cc_KeepAlive :: uint16
  cc_CleanStart :: bool
  cc_SessionExpiry :: nat
  cc_ConnectTimeout :: duration
  cc_ClientID :: string
  cc_Credentials :: "(string \<times> byte list) option"
  cc_Will :: "will_message option"
  cc_WillDelay :: "uint32 option"

definition client_config_of :: "mqtt_options \<Rightarrow> client_config" where
  "client_config_of opts =
     (let c = mx_Config opts;
          c0 = \<lparr>cc_ServerURL = mx_URL opts, cc_KeepAlive = mc_KeepAlive c, cc_CleanStart = True, cc_SessionExpiry = 60,
                cc_ConnectTimeout = mc_ConnectTimeout c, cc_ClientID = mc_ClientID c, cc_Credentials = None,
                cc_Will = None, cc_WillDelay = None\<rparr>;
          c1 = (if mx_Username opts \<noteq> []
                then c0\<lparr>cc_Credentials := Some (mx_Username opts, bytes_of_string (mx_Password opts))\<rparr> else c0)
      in case mx_Will opts of
           None \<Rightarrow> c1
         | Some w \<Rightarrow>
             c1\<lparr>cc_Will := Some \<lparr>wm_Topic = m_topic w, wm_Payload = m_payload w, wm_QoS = mc_QoS c, wm_Retain = m_retain w\<rparr>,
                cc_WillDelay := Some (will_delay (cc_KeepAlive c1))\<rparr>)"

section \<open>New\<close>

datatype connect_error = InvalidURL string | ConnectionFailed string | ConnectTimeout string string

text \<open>The calls that \<^verbatim>\<open>New\<close> makes to the client library.\<close>

datatype connect_call = NewConnection client_config | AwaitConnection duration | Disconnect

definition mqtt_New ::
  "(string \<Rightarrow> string option) \<Rightarrow> (client_config \<Rightarrow> string option) \<Rightarrow> string option \<Rightarrow> mqtt_options \<Rightarrow>
     connect_call list \<times> (connect_error + mqtt_config \<times> mqtt_broker)" where
  "mqtt_New url_host new_connection awaited opts0 =
     (if url_host (mx_URL opts0) = None \<or> url_host (mx_URL opts0) = Some []
      then ([], Inl (InvalidURL (mx_URL opts0)))
      else let opts = opts0\<lparr>mx_Config := mqtt_defaults (mx_Config opts0)\<rparr>; cc = client_config_of opts
           in case new_connection cc of
                Some e \<Rightarrow> ([NewConnection cc], Inl (ConnectionFailed e))
              | None \<Rightarrow>
                  (case awaited of
                     Some e \<Rightarrow> ([NewConnection cc, AwaitConnection (mc_ConnectTimeout (mx_Config opts)), Disconnect],
                                 Inl (ConnectTimeout (mx_URL opts) e))
                   | None \<Rightarrow> ([NewConnection cc, AwaitConnection (mc_ConnectTimeout (mx_Config opts))],
                               Inr (mx_Config opts, mqtt_fresh))))"

section \<open>Packets\<close>

record publish_packet =
  pp_Topic :: string
  pp_Payload :: "byte list"
  pp_QoS :: byte
  pp_Retain :: bool

definition publish_packet_of :: "mqtt_config \<Rightarrow> message \<Rightarrow> publish_packet" where
  "publish_packet_of cfg msg =
     \<lparr>pp_Topic = m_topic msg, pp_Payload = m_payload msg, pp_QoS = mc_QoS cfg, pp_Retain = m_retain msg\<rparr>"

definition received_message :: "publish_packet \<Rightarrow> gotime \<Rightarrow> message" where
  "received_message p now = \<lparr>m_topic = pp_Topic p, m_payload = pp_Payload p, m_retain = pp_Retain p, m_at = now\<rparr>"

text \<open>\<^verbatim>\<open>resubscribe\<close>: the options of its one request, none without subscriptions.\<close>

definition resubscribe_request :: "mqtt_config \<Rightarrow> mqtt_broker \<Rightarrow> (string \<times> byte) list option" where
  "resubscribe_request cfg b =
     (let filters = remdups (map ms_filter (mt_subs b))
      in if length filters = 0 then None else Some (map (\<lambda>f. (f, mc_QoS cfg)) filters))"

datatype disconnect_answer = Disconnected | ConnectionDown | DisconnectFailed string

definition mqtt_Close_error :: "disconnect_answer \<Rightarrow> mqtt_broker \<Rightarrow> string option" where
  "mqtt_Close_error answer b =
     (if mt_closed b then None
      else case answer of DisconnectFailed e \<Rightarrow> Some e | _ \<Rightarrow> None)"

section \<open>Properties\<close>

lemma mqtt_defaults_range:
  "mc_QoS (mqtt_defaults c) \<le> 1" "mc_KeepAlive (mqtt_defaults c) \<noteq> 0" "0 < mc_ConnectTimeout (mqtt_defaults c)"
  "mc_ClientID (mqtt_defaults c) \<noteq> []"
  by (simp_all add: mqtt_defaults_def Let_def not_less)

lemma uint16_double: "uint (will_delay k) = (2 * uint k) mod 65536"
proof -
  have "uint (will_delay k) = uint (2 * k)" by (simp add: will_delay_def uint_up_ucast is_up)
  also have "\<dots> = (2 * uint k) mod 65536" by (simp add: uint_mult_lem uint_word_ariths)
  finally show ?thesis .
qed

text \<open>
  C39: the connection. \<^verbatim>\<open>New\<close> returns a broker exactly when the URL has a host, the connection can be
  made and comes up in time; a connection that does not come up is disconnected again. What the
  client library gets is within its ranges, and the delay of the last will is twice the keep
  alive as long as that fits in 16 bits; from 32768 seconds on it wraps around.
\<close>

theorem mqtt_New_exact:
  "((\<exists>x. snd (mqtt_New url_host conn awaited opts) = Inr x) \<longleftrightarrow>
      (\<exists>h. url_host (mx_URL opts) = Some h \<and> h \<noteq> []) \<and>
      conn (client_config_of (opts\<lparr>mx_Config := mqtt_defaults (mx_Config opts)\<rparr>)) = None \<and> awaited = None) \<and>
   (Disconnect \<in> set (fst (mqtt_New url_host conn awaited opts)) \<longleftrightarrow>
      (\<exists>e. snd (mqtt_New url_host conn awaited opts) = Inl (ConnectTimeout (mx_URL opts) e))) \<and>
   (NewConnection cc \<in> set (fst (mqtt_New url_host conn awaited opts)) \<longrightarrow>
      cc_KeepAlive cc \<noteq> 0 \<and> 0 < cc_ConnectTimeout cc \<and> cc_ClientID cc \<noteq> [] \<and>
      (\<forall>w. cc_Will cc = Some w \<longrightarrow> wm_QoS w \<le> 1 \<and>
         (\<exists>d. cc_WillDelay cc = Some d \<and> (uint d = 2 * uint (cc_KeepAlive cc) \<longleftrightarrow> uint (cc_KeepAlive cc) < 32768))))"
proof -
  have d: "uint (will_delay k) = 2 * uint k \<longleftrightarrow> uint k < 32768" for k :: uint16
  proof -
    have "0 \<le> uint k" "uint k < 65536" using uint_lt2p [of k] by simp_all
    then show ?thesis unfolding uint16_double by (cases "uint k < 32768") (auto simp: mod_pos_pos_trivial)
  qed
  have cc: "cc_KeepAlive c \<noteq> 0 \<and> 0 < cc_ConnectTimeout c \<and> cc_ClientID c \<noteq> [] \<and>
      (\<forall>w. cc_Will c = Some w \<longrightarrow> wm_QoS w \<le> 1 \<and>
         (\<exists>d. cc_WillDelay c = Some d \<and> (uint d = 2 * uint (cc_KeepAlive c) \<longleftrightarrow> uint (cc_KeepAlive c) < 32768)))"
    if "c = client_config_of (opts\<lparr>mx_Config := mqtt_defaults (mx_Config opts)\<rparr>)" for c
    unfolding that using mqtt_defaults_range [of "mx_Config opts"] d
    by (auto simp: client_config_of_def Let_def split: option.splits)
  show ?thesis
    using cc by (auto simp: mqtt_New_def Let_def split: option.splits)
qed

theorem mqtt_New_exact_witness:
  "\<exists>cc. NewConnection cc \<in> set (fst (mqtt_New (\<lambda>_. Some ''localhost:1883'') (\<lambda>_. None) None
      \<lparr>mx_Config = \<lparr>mc_ClientID = [], mc_QoS = 2, mc_KeepAlive = 0, mc_ConnectTimeout = 0\<rparr>, mx_URL = ''mqtt://localhost:1883'',
       mx_Username = [], mx_Password = [], mx_Will = None\<rparr>)) \<and> cc_KeepAlive cc \<noteq> 0 \<and> cc_ClientID cc \<noteq> []"
proof -
  let ?o = "\<lparr>mx_Config = \<lparr>mc_ClientID = [], mc_QoS = 2, mc_KeepAlive = 0, mc_ConnectTimeout = 0\<rparr>, mx_URL = ''mqtt://localhost:1883'',
       mx_Username = [], mx_Password = [], mx_Will = None\<rparr>"
  obtain cc where "NewConnection cc \<in> set (fst (mqtt_New (\<lambda>_. Some ''localhost:1883'') (\<lambda>_. None) None ?o))"
    by (simp add: mqtt_New_def Let_def)
  then show ?thesis
    using mqtt_New_exact [of "\<lambda>_. Some ''localhost:1883''" "\<lambda>_. None" None ?o cc] by blast
qed

text \<open>A message published by one node and received by another keeps everything but its time.\<close>

lemma publish_receive:
  "received_message (publish_packet_of cfg msg) now = msg\<lparr>m_at := now\<rparr>"
  by (simp add: received_message_def publish_packet_of_def)

text \<open>After a reconnect the request names every filter of an open subscription once.\<close>

lemma resubscribe_request_complete:
  "resubscribe_request cfg b = Some req \<Longrightarrow> distinct (map fst req) \<and> set (map fst req) = filters_of b"
  "resubscribe_request cfg b = None \<longleftrightarrow> mt_subs b = []"
  by (auto simp: resubscribe_request_def Let_def filters_of_def image_image comp_def split: if_splits)

end
