(* ===== verification/Bridge_History.thy ===== *)
theory Bridge_History
  imports Bridge
begin

text \<open>
  What a sink sees of the bridge when a send that reports an error may still have had its
  effect: the sink of \<open>Bridge\<close> either accepts a message or does not, a remote log may store
  it although the acknowledgement was lost. A history variable records every call of
  \<^verbatim>\<open>Send\<close> with its outcome; the bridge with the history simulates the bridge without it, and for
  every topic the calls are the messages in the order of their arrival, each repeated until it
  is acknowledged or evicted.
\<close>

section \<open>Repetitions\<close>

text \<open>\<open>stutters xs ys\<close>: \<open>ys\<close> is \<open>xs\<close> with every element repeated one or more times.\<close>

inductive stutters :: "'a list \<Rightarrow> 'a list \<Rightarrow> bool" where
  stutters_Nil: "stutters [] []"
| stutters_new: "stutters xs ys \<Longrightarrow> stutters (xs @ [x]) (ys @ [x])"
| stutters_again: "stutters (xs @ [x]) ys \<Longrightarrow> stutters (xs @ [x]) (ys @ [x])"

inductive_simps stutters_Nil_right [simp]: "stutters xs []"
inductive_simps stutters_Nil_left [simp]: "stutters [] ys"

lemma stutters_set: "stutters xs ys \<Longrightarrow> set ys = set xs"
  by (induction rule: stutters.induct) auto

lemma stutters_length: "stutters xs ys \<Longrightarrow> length xs \<le> length ys"
  by (induction rule: stutters.induct) auto

lemma stutters_map: "stutters xs ys \<Longrightarrow> stutters (map f xs) (map f ys)"
  by (induction rule: stutters.induct)
    (auto intro: stutters_Nil stutters_new dest: stutters_again)

text \<open>The blocks of repetitions, written out.\<close>

lemma stutters_blocks:
  "stutters xs ys \<Longrightarrow>
     \<exists>ns. length ns = length xs \<and> (\<forall>n \<in> set ns. 0 < n) \<and> ys = concat (map2 replicate ns xs)"
proof (induction rule: stutters.induct)
  case (stutters_new xs ys x)
  then obtain ns where "length ns = length xs" "\<forall>n \<in> set ns. 0 < n" "ys = concat (map2 replicate ns xs)" by blast
  then show ?case by (intro exI [of _ "ns @ [1]"]) auto
next
  case (stutters_again xs x ys)
  then obtain ns where ns: "length ns = length (xs @ [x])" "\<forall>n \<in> set ns. 0 < n"
    "ys = concat (map2 replicate ns (xs @ [x]))" by blast
  then obtain ms n where n: "ns = ms @ [n]" by (cases ns rule: rev_cases) auto
  have "ys @ [x] = concat (map2 replicate (ms @ [Suc n]) (xs @ [x]))"
    using ns(1,3) n by (simp add: replicate_append_same)
  then show ?case using ns n by (intro exI [of _ "ms @ [Suc n]"]) auto
qed simp

section \<open>The history variable\<close>

text \<open>
  The remote log behind a sink: the messages it holds, each with whether the bridge was told.
  \<open>R k h\<close> relates the state of the sink to the log; \<open>grew k k'\<close> tells whether a send that led from
  \<open>k\<close> to \<open>k'\<close> has written the message.
\<close>

type_synonym remote = "(message \<times> bool) list"

definition acked :: "remote \<Rightarrow> message list" where
  "acked h = map fst (filter snd h)"

definition logged :: "('s \<Rightarrow> 's \<Rightarrow> bool) \<Rightarrow> 's sink_ops \<Rightarrow> ('s \<times> remote) sink_ops" where
  "logged grew S =
     \<lparr>s_send = (\<lambda>x m (k, h). case s_send S x m k of
                 (e, k') \<Rightarrow> (e, (k', if grew k k' then h @ [(m, e = None)] else h))),
      s_ready = (\<lambda>(k, h). s_ready S k)\<rparr>"

definition logged_env :: "('s \<Rightarrow> 's \<Rightarrow> bool) \<Rightarrow> 's \<times> remote \<Rightarrow> 's \<times> remote \<Rightarrow> bool" where
  "logged_env E = (\<lambda>(k, h) (k', h'). E k k' \<and> h' = h)"

definition with_log :: "remote \<Rightarrow> ('q, 's) bridge \<Rightarrow> ('q, 's \<times> remote) bridge" where
  "with_log h s =
     \<lparr>br_cfg = br_cfg s, br_in = br_in s, br_queue = br_queue s, br_sink = (br_sink s, h), br_sinkUp = br_sinkUp s,
      br_forwarded = br_forwarded s, br_spilled = br_spilled s, br_lost = br_lost s, br_backoff = br_backoff s,
      br_timer = br_timer s, br_ctxDone = br_ctxDone s, br_subscribed = br_subscribed s, br_pc = br_pc s\<rparr>"

lemma acked_simps [simp]: "acked [] = []" "acked (h @ [(m, a)]) = acked h @ (if a then [m] else [])"
  by (simp_all add: acked_def)

text \<open>The history changes nothing of what the bridge does.\<close>

lemma with_log_sel [simp]:
  "br_cfg (with_log h s) = br_cfg s" "br_in (with_log h s) = br_in s" "br_queue (with_log h s) = br_queue s"
  "br_sink (with_log h s) = (br_sink s, h)" "br_sinkUp (with_log h s) = br_sinkUp s"
  "br_forwarded (with_log h s) = br_forwarded s" "br_spilled (with_log h s) = br_spilled s"
  "br_lost (with_log h s) = br_lost s" "br_backoff (with_log h s) = br_backoff s"
  "br_timer (with_log h s) = br_timer s" "br_ctxDone (with_log h s) = br_ctxDone s"
  "br_subscribed (with_log h s) = br_subscribed s" "br_pc (with_log h s) = br_pc s"
  by (simp_all add: with_log_def)

lemma with_log_upd:
  "(with_log h s)\<lparr>br_in := i\<rparr> = with_log h (s\<lparr>br_in := i\<rparr>)"
  "(with_log h s)\<lparr>br_queue := q\<rparr> = with_log h (s\<lparr>br_queue := q\<rparr>)"
  "(with_log h s)\<lparr>br_sink := (k, h')\<rparr> = with_log h' (s\<lparr>br_sink := k\<rparr>)"
  "(with_log h s)\<lparr>br_sinkUp := u\<rparr> = with_log h (s\<lparr>br_sinkUp := u\<rparr>)"
  "(with_log h s)\<lparr>br_forwarded := n\<rparr> = with_log h (s\<lparr>br_forwarded := n\<rparr>)"
  "(with_log h s)\<lparr>br_spilled := n\<rparr> = with_log h (s\<lparr>br_spilled := n\<rparr>)"
  "(with_log h s)\<lparr>br_lost := n\<rparr> = with_log h (s\<lparr>br_lost := n\<rparr>)"
  "(with_log h s)\<lparr>br_backoff := d\<rparr> = with_log h (s\<lparr>br_backoff := d\<rparr>)"
  "(with_log h s)\<lparr>br_timer := t\<rparr> = with_log h (s\<lparr>br_timer := t\<rparr>)"
  "(with_log h s)\<lparr>br_ctxDone := u\<rparr> = with_log h (s\<lparr>br_ctxDone := u\<rparr>)"
  "(with_log h s)\<lparr>br_subscribed := u\<rparr> = with_log h (s\<lparr>br_subscribed := u\<rparr>)"
  "(with_log h s)\<lparr>br_pc := p\<rparr> = with_log h (s\<lparr>br_pc := p\<rparr>)"
  by (simp_all add: with_log_def)

lemma with_log_New [simp]: "with_log h (bridge_New cfg k q) = bridge_New cfg (k, h) q"
  by (simp add: with_log_def bridge_New_def Let_def)

lemma with_log_onMessage: "onMessage m (with_log h s) = with_log h (onMessage m s)"
  by (simp add: onMessage_def with_log_upd)

lemma with_log_spill: "spill Q m (with_log h s) = with_log h (spill Q m s)"
  by (simp add: spill_def with_log_upd split: prod.splits option.splits)

lemma with_log_fail: "fail b (with_log h s) = with_log h (fail b s)"
  by (simp add: fail_def with_log_upd)

lemma with_log_after_replay: "after_replay Q site ok (with_log h s) = with_log h (after_replay Q site ok s)"
  by (cases site) (simp_all add: with_log_upd with_log_fail)

lemma with_log_timer: "timer_case Q (with_log h s) = with_log h (timer_case Q s)"
  by (simp add: timer_case_def Let_def with_log_upd)

lemma with_log_send:
  "send S m s = (e, s') \<Longrightarrow> \<exists>h'. send (logged grew S) m (with_log h s) = (e, with_log h' s')"
  by (auto simp: send_def logged_def with_log_upd split: prod.splits option.splits)

lemma with_log_replay_iter:
  assumes "replay_iter Q S s = (x, s')"
  shows "\<exists>h'. replay_iter Q (logged grew S) (with_log h s) = (x, with_log h' s')"
proof (cases "\<exists>m q. \<not> br_ctxDone s \<and> q_peek Q (br_queue s) = (Inr (Some m), q)")
  case True
  then obtain m q where p: "\<not> br_ctxDone s" "q_peek Q (br_queue s) = (Inr (Some m), q)" by blast
  obtain e s1 where e: "send S m (s\<lparr>br_queue := q\<rparr>) = (e, s1)" by force
  then obtain h' where "send (logged grew S) m (with_log h (s\<lparr>br_queue := q\<rparr>)) = (e, with_log h' s1)"
    using with_log_send by blast
  then show ?thesis using assms p e
    by (auto simp: replay_iter_def with_log_upd split: option.splits prod.splits)
next
  case False
  then show ?thesis using assms
    by (auto simp: replay_iter_def with_log_upd Let_def split: if_splits prod.splits sum.splits option.splits)
qed

lemma with_log_replay_step:
  "\<exists>h'. replay_step Q (logged grew S) site i (with_log h s) = with_log h' (replay_step Q S site i s)"
proof (cases "replay_iter Q S s")
  case (Pair x s')
  from with_log_replay_iter [OF this, of grew h]
  obtain h' where h': "replay_iter Q (logged grew S) (with_log h s) = (x, with_log h' s')" by blast
  then show ?thesis using Pair
    by (cases x) (auto simp: replay_step_def with_log_upd with_log_after_replay simp del: after_replay.simps)
qed

lemma with_log_notified:
  "\<exists>h'. notified_step Q (logged grew S) (with_log h s) = with_log h' (notified_step Q S s)"
proof (cases "inbox_pop (br_in s)")
  case (Pair om i)
  show ?thesis
  proof (cases om)
    case None
    then show ?thesis using Pair by (auto simp: notified_step_def with_log_upd)
  next
    case (Some m)
    obtain e s1 where e: "send S m (s\<lparr>br_in := i\<rparr>) = (e, s1)" by force
    then obtain h' where "send (logged grew S) m (with_log h (s\<lparr>br_in := i\<rparr>)) = (e, with_log h' s1)"
      using with_log_send by blast
    then show ?thesis using Pair Some e
      by (auto simp: notified_step_def with_log_upd with_log_spill Let_def split: option.splits)
  qed
qed

lemma with_log_drain: "drain_step Q (with_log h s) = with_log h (drain_step Q s)"
  by (auto simp: drain_step_def with_log_upd with_log_spill split: prod.splits option.splits)

lemma with_log_forward:
  assumes "forward_step Q S s = Some s'"
  shows "\<exists>h'. forward_step Q (logged grew S) (with_log h s) = Some (with_log h' s')"
  using assms with_log_replay_step [of Q grew S] with_log_notified [of Q grew S]
  by (auto simp: forward_step_def with_log_upd with_log_drain with_log_fail split: bridge_pc.splits)

text \<open>The label of the step with the history.\<close>

fun with_log_label :: "remote \<Rightarrow> 's bridge_label \<Rightarrow> ('s \<times> remote) bridge_label" where
  "with_log_label h (SinkChange k) = SinkChange (k, h)"
| "with_log_label h (Subscribe ok) = Subscribe ok"
| "with_log_label h (Arrive m) = Arrive m"
| "with_log_label h Cancel = Cancel"
| "with_log_label h Forward = Forward"
| "with_log_label h SelDone = SelDone"
| "with_log_label h SelTimer = SelTimer"
| "with_log_label h SelNotify = SelNotify"

lemma arrival_with_log [simp]: "arrival (with_log_label h l) = arrival l"
  by (cases l) simp_all

lemma with_log_step:
  assumes "bridge_step Q S E l s = Some s'"
  shows "\<exists>h'. bridge_step Q (logged grew S) (logged_env E) (with_log_label h l) (with_log h s) = Some (with_log h' s')"
proof (cases l)
  case Forward
  then show ?thesis using with_log_forward [of Q S s s'] assms by simp
qed (use assms in \<open>auto simp: with_log_upd with_log_onMessage with_log_timer logged_env_def split: if_splits\<close>)

lemma with_log_run:
  assumes "admissible_run Q S E storable s ls s'"
  shows "\<exists>h' ls'. admissible_run Q (logged grew S) (logged_env E) storable (with_log h s) ls' (with_log h' s') \<and>
     map arrival ls' = map arrival ls"
  using assms
proof (induction rule: admissible_run.induct)
  case (adm_Nil s)
  then show ?case by (intro exI [of _ h] exI [of _ "[]"]) (simp add: admissible_run.adm_Nil)
next
  case (adm_snoc s ls s1 l s2)
  then obtain h1 ls' where 1: "admissible_run Q (logged grew S) (logged_env E) storable (with_log h s) ls' (with_log h1 s1)"
    "map arrival ls' = map arrival ls" by blast
  obtain h2 where "bridge_step Q (logged grew S) (logged_env E) (with_log_label h1 l) (with_log h1 s1) = Some (with_log h2 s2)"
    using with_log_step [OF adm_snoc.hyps(2)] by blast
  from admissible_run.adm_snoc [OF 1(1) this] 1(2) adm_snoc.hyps(3)
  show ?case by (intro exI [of _ h2] exI [of _ "ls' @ [with_log_label h1 l]"]) simp
qed

section \<open>Order of what the remote log holds\<close>

text \<open>
  \<open>all\<close> are the arrivals of a topic, \<open>acc\<close> its acknowledged messages, \<open>A\<close> the log, \<open>P\<close> what is
  still on its way: the log repeats messages of a list \<open>ys\<close> that contains the acknowledged
  ones, or also the first of those still on their way.
\<close>

definition order_inv :: "'a list \<Rightarrow> 'a list \<Rightarrow> 'a list \<Rightarrow> 'a list \<Rightarrow> bool" where
  "order_inv all acc A P \<longleftrightarrow>
     (\<exists>ys. subseq (ys @ P) all \<and> subseq acc ys \<and>
        (stutters ys A \<or> (\<exists>m ps. P = m # ps \<and> stutters (ys @ [m]) A)))"

lemma order_inv_start: "order_inv P [] [] P"
  unfolding order_inv_def by (intro exI [of _ "[]"]) simp

lemma order_inv_idle:
  assumes "order_inv all acc A P" "subseq P' (P @ ins)"
  shows "order_inv (all @ ins) acc A P'"
proof -
  obtain ys where ys: "subseq (ys @ P) all" "subseq acc ys"
    and st: "stutters ys A \<or> (\<exists>m ps. P = m # ps \<and> stutters (ys @ [m]) A)"
    using assms(1) by (auto simp: order_inv_def)
  have up: "subseq (zs @ P') (all @ ins)" if "subseq (zs @ P') ((ys @ P) @ ins)" for zs
    using that ys(1) by (meson list_emb_append_mono subseq_order.order_refl subseq_order.trans)
  show ?thesis
  proof (cases "stutters ys A")
    case True
    have "subseq (ys @ P') ((ys @ P) @ ins)" using assms(2) by (simp add: subseq_append')
    then show ?thesis using up True ys(2) by (auto simp: order_inv_def)
  next
    case False
    then obtain m ps where m: "P = m # ps" "stutters (ys @ [m]) A" using st by blast
    show ?thesis
    proof (cases "subseq P' (ps @ ins)")
      case True
      then have "subseq ((ys @ [m]) @ P') ((ys @ P) @ ins)" by (simp add: m(1) subseq_append')
      moreover have "subseq acc (ys @ [m])" using ys(2) by (rule subseq_rev_drop_many)
      ultimately show ?thesis using up m(2) unfolding order_inv_def by blast
    next
      case False
      then obtain ps' where "P' = m # ps'" using assms(2) m(1) by (cases P') (auto split: if_splits)
      moreover have "subseq (ys @ P') ((ys @ P) @ ins)" using assms(2) by (simp add: subseq_append')
      ultimately show ?thesis using up m(2) ys(2) unfolding order_inv_def by blast
    qed
  qed
qed

lemma order_inv_again:
  assumes "order_inv all acc A (m # ps)"
  shows "order_inv all acc (A @ [m]) (m # ps)"
  using assms stutters_new [of _ A m] stutters_again [of _ m A] unfolding order_inv_def by blast

lemma order_inv_ack:
  assumes "order_inv all acc A (m # ps)"
  shows "order_inv all (acc @ [m]) (A @ [m]) ps"
proof -
  obtain ys where "subseq (ys @ m # ps) all" "subseq acc ys" "stutters ys A \<or> stutters (ys @ [m]) A"
    using assms by (auto simp: order_inv_def)
  then show ?thesis using stutters_new [of ys A m] stutters_again [of ys m A]
    unfolding order_inv_def by (intro exI [of _ "ys @ [m]"]) (auto intro: list_emb_append_mono)
qed

lemma order_inv_result:
  assumes "order_inv all acc A P"
  shows "\<exists>xs. stutters xs A \<and> subseq xs all \<and> subseq acc xs \<and> (acc @ P = all \<and> P = [] \<longrightarrow> xs = all)"
proof -
  obtain ys where ys: "subseq (ys @ P) all" "subseq acc ys"
    and st: "stutters ys A \<or> (\<exists>m ps. P = m # ps \<and> stutters (ys @ [m]) A)"
    using assms by (auto simp: order_inv_def)
  from st show ?thesis
  proof (elim disjE exE conjE)
    assume "stutters ys A"
    moreover have "subseq ys all" using ys(1) by (meson list_emb_append2 subseq_order.trans subseq_rev_drop_many subseq_order.order_refl)
    ultimately show ?thesis using ys by (intro exI [of _ ys]) (auto intro: subseq_order.antisym)
  next
    fix m ps assume "P = m # ps" "stutters (ys @ [m]) A"
    moreover have "subseq (ys @ [m]) (ys @ P)" by (simp add: \<open>P = m # ps\<close> subseq_append')
    then have "subseq (ys @ [m]) all" using ys(1) by (rule subseq_order.trans)
    ultimately show ?thesis using ys(2) by (intro exI [of _ "ys @ [m]"]) (simp add: subseq_rev_drop_many)
  qed
qed

definition pending :: "('q \<Rightarrow> message list) \<Rightarrow> string \<Rightarrow> ('q, 's) bridge \<Rightarrow> message list" where
  "pending con t s = of_topic t (con (br_queue s)) @ fifo (br_in s) t"

text \<open>
  A sink whose sends are written to a remote log: one that reports success has been written,
  one that reports an error may have been.
\<close>

locale remote_sink =
  queue_contract Q invar contents storable
  for Q :: "'q queue_ops" and invar contents storable +
  fixes S :: "'s sink_ops" and E :: "'s \<Rightarrow> 's \<Rightarrow> bool"
    and R :: "'s \<Rightarrow> remote \<Rightarrow> bool" and grew :: "'s \<Rightarrow> 's \<Rightarrow> bool"
  assumes sent: "R k h \<Longrightarrow> s_send S x m k = (None, k') \<Longrightarrow> grew k k' \<and> R k' (h @ [(m, True)])"
    and unsure: "R k h \<Longrightarrow> s_send S x m k = (Some e, k') \<Longrightarrow> R k' (if grew k k' then h @ [(m, False)] else h)"
    and idle: "R k h \<Longrightarrow> E k k' \<Longrightarrow> R k' h"

sublocale remote_sink \<subseteq> hist: bridge_env Q invar contents storable "logged grew S" "\<lambda>(k, h). R k h"
  "\<lambda>(k, h). acked h" "logged_env E"
proof unfold_locales
  fix c m s s' assume "case s of (k, h) \<Rightarrow> R k h" "s_send (logged grew S) c m s = (None, s')"
  then show "(case s' of (k, h) \<Rightarrow> R k h) \<and> (case s' of (k, h) \<Rightarrow> acked h) = (case s of (k, h) \<Rightarrow> acked h) @ [m]"
    using sent by (fastforce simp: logged_def split: prod.splits)
next
  fix c m e s s' assume "case s of (k, h) \<Rightarrow> R k h" "s_send (logged grew S) c m s = (Some e, s')"
  then show "(case s' of (k, h) \<Rightarrow> R k h) \<and> (case s' of (k, h) \<Rightarrow> acked h) = (case s of (k, h) \<Rightarrow> acked h)"
    using unsure by (fastforce simp: logged_def split: prod.splits if_splits)
next
  fix k k' assume "case k of (k, h) \<Rightarrow> R k h" "logged_env E k k'"
  then show "(case k' of (k, h) \<Rightarrow> R k h) \<and> (case k' of (k, h) \<Rightarrow> acked h) = (case k of (k, h) \<Rightarrow> acked h)"
    using idle by (auto simp: logged_env_def)
qed

context remote_sink
begin

lemma send_log:
  assumes "send (logged grew S) m s = (e, s')"
  shows "br_in s' = br_in s \<and> br_queue s' = br_queue s \<and>
    (snd (br_sink s') = snd (br_sink s) \<or> snd (br_sink s') = snd (br_sink s) @ [(m, e = None)])"
  using assms by (auto simp: send_def logged_def split: prod.splits option.splits if_splits)

text \<open>A step writes nothing, or the message that is first in line for its topic.\<close>

definition writes :: "('q, 's \<times> remote) bridge \<Rightarrow> ('q, 's \<times> remote) bridge \<Rightarrow> bool" where
  "writes s s' \<longleftrightarrow> snd (br_sink s') = snd (br_sink s) \<or>
     (\<exists>m a ps. snd (br_sink s') = snd (br_sink s) @ [(m, a)] \<and> pending contents (m_topic m) s = m # ps)"

lemma writes_same: "br_sink s' = br_sink s \<Longrightarrow> writes s s'"
  by (simp add: writes_def)

lemma writes_cong: "br_sink s' = br_sink s'' \<Longrightarrow> writes s s' \<longleftrightarrow> writes s s''"
  by (simp add: writes_def)

lemma spill_sink [simp]: "br_sink (spill Q m s) = br_sink s"
  by (auto simp: spill_def split: prod.splits option.splits)

lemma after_replay_sink [simp]: "br_sink (after_replay Q site ok s) = br_sink s"
  by (cases site) (simp_all add: fail_def)

lemma writes_replay_iter:
  assumes s: "hist.good s" and it: "replay_iter Q (logged grew S) s = (x, s')"
  shows "writes s s'"
proof (cases "br_ctxDone s")
  case True
  then show ?thesis using it by (simp add: replay_iter_def writes_same)
next
  case False
  have "invar (br_queue s)" using s by (simp add: hist.good_def)
  from peek_law [OF this] obtain q where q:
    "q_peek Q (br_queue s) = (Inr (case contents (br_queue s) of [] \<Rightarrow> None | m # _ \<Rightarrow> Some m), q)" by blast
  show ?thesis
  proof (cases "contents (br_queue s)")
    case Nil
    then show ?thesis using it False q by (auto simp: replay_iter_def writes_same)
  next
    case (Cons m ms)
    obtain e s1 where e: "send (logged grew S) m (s\<lparr>br_queue := q\<rparr>) = (e, s1)" by force
    have "br_sink s' = br_sink s1"
      using it False q Cons e by (auto simp: replay_iter_def split: option.splits prod.splits)
    moreover have "writes s s1"
      using send_log [OF e] Cons by (auto simp: writes_def pending_def)
    ultimately show ?thesis using writes_cong by blast
  qed
qed

lemma writes_notified:
  assumes s: "hist.good s"
  shows "writes s (notified_step Q (logged grew S) s)"
proof (cases "inbox_pop (br_in s)")
  case (Pair om i)
  have inv: "inbox_inv (br_in s)" and q: "invar (br_queue s)" using s by (simp_all add: hist.good_def)
  show ?thesis
  proof (cases om)
    case None
    then show ?thesis using Pair by (simp add: notified_step_def writes_same)
  next
    case (Some m)
    note pop = Pair [unfolded Some]
    obtain e s1 where e: "send (logged grew S) m (s\<lparr>br_in := i\<rparr>) = (e, s1)" by force
    have front: "fifo (br_in s) (m_topic m) = m # fifo i (m_topic m)"
      using inbox_pop_SomeE [OF inv pop] by (metis (mono_tags, lifting) append_Cons append_Nil filter.simps)
    have "writes s s1" if "q_len Q (br_queue s) = 0"
      using send_log [OF e] that front len_zero [OF q] by (auto simp: writes_def pending_def)
    then show ?thesis using pop e len_law [OF q]
      by (auto simp: notified_step_def Let_def writes_same writes_cong [of "(spill Q m s1)\<lparr>br_pc := SendFailed\<rparr>" s1]
          split: option.splits)
  qed
qed

lemma writes_forward:
  assumes s: "hist.good s" and st: "forward_step Q (logged grew S) s = Some s'"
  shows "writes s s'"
proof (cases "br_pc s")
  case (Replaying site i)
  obtain x s1 where x: "replay_iter Q (logged grew S) s = (x, s1)" by force
  have "br_sink s' = br_sink s \<or> br_sink s' = br_sink s1"
    using st Replaying x
    by (cases x) (auto simp: forward_step_def replay_step_def simp del: after_replay.simps)
  then show ?thesis using writes_replay_iter [OF s x] writes_same writes_cong by metis
next
  case Notified
  then show ?thesis using st writes_notified [OF s] by (simp add: forward_step_def)
next
  case Draining
  then show ?thesis using st
    by (auto simp: forward_step_def drain_step_def intro!: writes_same split: prod.splits option.splits)
qed (use st in \<open>auto simp: forward_step_def fail_def intro!: writes_same split: if_splits\<close>)

lemma writes_step:
  assumes s: "hist.good s" and st: "bridge_step Q (logged grew S) (logged_env E) l s = Some s'"
  shows "snd (br_sink s') = snd (br_sink s) \<or> writes s s' \<and> arrival l = []"
proof (cases l)
  case Forward
  then show ?thesis using st writes_forward [OF s] by simp
qed (use st in \<open>auto simp: onMessage_def timer_case_def Let_def logged_env_def split: if_splits\<close>)

definition ordered :: "('q, 's \<times> remote) bridge \<Rightarrow> message list \<Rightarrow> bool" where
  "ordered s all \<longleftrightarrow>
     (\<forall>t. order_inv (of_topic t all) (of_topic t (acked (snd (br_sink s))))
        (of_topic t (map fst (snd (br_sink s)))) (pending contents t s))"

lemma ordered_step:
  assumes s: "hist.good s" and o: "ordered s all"
    and st: "bridge_step Q (logged grew S) (logged_env E) l s = Some s'"
    and adm: "\<forall>m \<in> set (arrival l). storable m \<and> push_safe m (br_in s)"
  shows "ordered s' (all @ arrival l)"
  unfolding ordered_def
proof
  fix t
  let ?h = "snd (br_sink s)" and ?h' = "snd (br_sink s')"
  let ?P = "pending contents t s" and ?P' = "pending contents t s'" and ?ins = "of_topic t (arrival l)"
  let ?goal = "order_inv (of_topic t (all @ arrival l)) (of_topic t (acked ?h')) (of_topic t (map fst ?h')) ?P'"
  have fl: "subseq (of_topic t (acked ?h') @ ?P') (of_topic t (acked ?h) @ ?P @ ?ins)"
  proof -
    have "flow_ok Q contents (\<lambda>(k, h). acked h) s (arrival l) s'"
      using hist.moves_step [OF s st adm] by (simp add: hist.moves_def)
    then have "subseq (bridge_flow contents (\<lambda>(k, h). acked h) t s')
        (bridge_flow contents (\<lambda>(k, h). acked h) t s @ ?ins)"
      by (simp add: flow_ok_def)
    then show ?thesis by (simp add: bridge_flow_def pending_def split_beta)
  qed
  have ot: "order_inv (of_topic t all) (of_topic t (acked ?h)) (of_topic t (map fst ?h)) ?P"
    using o by (simp add: ordered_def)
  have keep: ?goal if "of_topic t (acked ?h') = of_topic t (acked ?h)"
    "of_topic t (map fst ?h') = of_topic t (map fst ?h)"
  proof -
    have "subseq ?P' (?P @ ?ins)" using fl that(1) by (simp add: subseq_append')
    then show ?goal using order_inv_idle [OF ot] that by simp
  qed
  from writes_step [OF s st] consider "?h' = ?h" | m a ps where "?h' = ?h @ [(m, a)]"
    "pending contents (m_topic m) s = m # ps" "arrival l = []"
    by (auto simp: writes_def)
  then show ?goal
  proof cases
    case 1
    then show ?goal using keep by simp
  next
    case (2 m a ps)
    show ?goal
    proof (cases "m_topic m = t")
      case False
      then show ?goal using keep 2 by auto
    next
      case True
      then have P: "?P = m # ps" using 2 by simp
      show ?goal
      proof (cases a)
        case True
        then have "subseq ?P' ps" using fl 2 P \<open>m_topic m = t\<close> by (simp add: subseq_append')
        then show ?goal
          using order_inv_idle [OF order_inv_ack [OF ot [unfolded P]], of ?P' "[]"] 2 True \<open>m_topic m = t\<close> by simp
      next
        case False
        then have "subseq ?P' ?P" using fl 2 by (simp add: subseq_append')
        then show ?goal
          using order_inv_idle [OF order_inv_again [OF ot [unfolded P]], of ?P' "[]"] 2 P False \<open>m_topic m = t\<close> by simp
      qed
    qed
  qed
qed

lemma ordered_run:
  assumes "admissible_run Q (logged grew S) (logged_env E) storable s ls s'" "hist.good s" "ordered s all"
  shows "ordered s' (all @ concat (map arrival ls))"
  using assms
proof (induction)
  case (adm_snoc s ls s1 l s2)
  have "hist.good s1" using hist.run_moves [OF adm_snoc.hyps(1)] adm_snoc.prems by (simp add: hist.moves_def)
  from ordered_step [OF this _ adm_snoc.hyps(2,3)] adm_snoc show ?case by fastforce
qed simp

text \<open>
  The remote log of a run from the start. \<open>h\<close> is what was written since, in order; the last
  conjunct speaks of runs in which nothing was evicted and nothing is on its way any more.
\<close>

lemma remote_log_ordered:
  assumes q: "invar q" and k: "R k []"
    and run: "admissible_run Q S E storable (bridge_New cfg k q) ls s"
  shows "\<exists>h. R (br_sink s) h \<and>
    (\<forall>t. \<exists>xs. stutters xs (of_topic t (map fst h)) \<and>
       subseq xs (of_topic t (contents q @ concat (map arrival ls))) \<and> subseq (of_topic t (acked h)) xs \<and>
       (bridge_losses Q s = q_dropped Q q \<and> contents (br_queue s) = [] \<and> total (br_in s) = 0 \<longrightarrow>
          xs = of_topic t (contents q @ concat (map arrival ls))))"
proof -
  let ?all = "contents q @ concat (map arrival ls)"
  let ?s0 = "bridge_New cfg (k, [] :: remote) q"
  obtain h ls' where L: "admissible_run Q (logged grew S) (logged_env E) storable ?s0 ls' (with_log h s)"
    "map arrival ls' = map arrival ls"
    using with_log_run [OF run, of grew "[]"] by auto
  have i: "br_queue ?s0 = q" "br_sink ?s0 = (k, [])" "inbox_inv (br_in ?s0)" "\<And>t. fifo (br_in ?s0) t = []"
    "dropped (br_in ?s0) = 0" "total (br_in ?s0) = 0"
    using bridge_New_inbox [of cfg "(k, [])" q] by (auto simp: bridge_New_def Let_def)
  have g: "hist.good ?s0" using q k i by (simp add: hist.good_def)
  have m: "hist.moves ?s0 (concat (map arrival ls)) (with_log h s)"
    using hist.run_moves [OF L(1) g] L(2) by simp
  have "ordered ?s0 (contents q)"
    by (auto simp: ordered_def i pending_def intro: order_inv_start)
  from ordered_run [OF L(1) g this] have o: "ordered (with_log h s) ?all" using L(2) by simp
  have gs: "hist.good (with_log h s)" using m by (simp add: hist.moves_def)
  then have r: "R (br_sink s) h" by (simp add: hist.good_def)
  have quiet: "of_topic t (acked h) @ pending contents t s = of_topic t ?all \<and> pending contents t s = []"
    if "bridge_losses Q s = q_dropped Q q" "contents (br_queue s) = []" "total (br_in s) = 0" for t
  proof -
    have "fifo (br_in s) t = []" using gs that(3) inbox_pop_NoneE [of "br_in s" "br_in s"]
      by (auto simp: hist.good_def inbox_pop_def)
    moreover have "bridge_losses Q (with_log h s) = bridge_losses Q ?s0"
      using that(1) i by (simp add: bridge_losses_def)
    moreover have "bridge_losses Q (with_log h s) = bridge_losses Q ?s0 \<longrightarrow>
        bridge_flow contents (\<lambda>(k, h). acked h) t (with_log h s) =
        bridge_flow contents (\<lambda>(k, h). acked h) t ?s0 @ of_topic t (concat (map arrival ls))"
      using m unfolding hist.moves_def flow_ok_def by blast
    ultimately show ?thesis
      using that(2) i by (simp add: bridge_flow_def pending_def)
  qed
  have "\<exists>xs. stutters xs (of_topic t (map fst h)) \<and> subseq xs (of_topic t ?all) \<and> subseq (of_topic t (acked h)) xs \<and>
      (of_topic t (acked h) @ pending contents t s = of_topic t ?all \<and> pending contents t s = [] \<longrightarrow> xs = of_topic t ?all)" for t
    using order_inv_result o by (fastforce simp: ordered_def pending_def)
  then show ?thesis using r quiet by (intro exI [of _ h]) blast
qed

end

text \<open>The in-memory sink writes exactly what it acknowledges.\<close>

definition mem_sink_log :: "mem_sink \<Rightarrow> remote \<Rightarrow> bool" where
  "mem_sink_log k h \<longleftrightarrow> ms_max k = 0 \<and> h = map (\<lambda>m. (m, True)) (ms_messages k)"

interpretation mem_remote: remote_sink mem_queue_ops mq_inv mq_items "\<lambda>_. True" mem_sink_ops mem_sink_env
  mem_sink_log "\<lambda>k k'. ms_messages k' \<noteq> ms_messages k"
  by unfold_locales
    (auto simp: mem_sink_log_def mem_sink_ops_def sink_Send_def mem_sink_env_def SetFail_def split: if_splits)

end
