(* ===== verification/Kafka_Sink.thy ===== *)
theory Kafka_Sink
  imports Ports Uns_Payload
begin

text \<open>
  The Kafka sink, \<^verbatim>\<open>internal/adapters/kafka/sink.go\<close>. The franz-go client is code of another
  package: a value of \<open>kgo_ops\<close> over a client state, whose construction is a parameter. What
  the sink relies on of it is \<open>kafka_cluster\<close>: the documented behaviour of a synchronous,
  acknowledged produce.
\<close>

section \<open>Records and the client\<close>

record kafka_config =
  kc_Brokers :: "string list"
  kc_Topic :: string
  kc_ClientID :: string
  kc_DeliveryTimeout :: duration

text \<open>A record as the sink builds it; the zero timestamp leaves the choice to the client.\<close>

record kafka_record =
  kr_Key :: "byte list"
  kr_Value :: "byte list"
  kr_Headers :: "(string \<times> byte list) list"
  kr_Timestamp :: gotime

datatype acks = AllISRAcks
datatype compression = SnappyCompression | NoCompression

record kgo_options =
  ko_SeedBrokers :: "string list"
  ko_ClientID :: string
  ko_Topic :: string
  ko_Acks :: acks
  ko_Compression :: "compression list"
  ko_DeliveryTimeout :: duration
  ko_Linger :: duration
  ko_AutoTopic :: bool

text \<open>The first argument of \<open>kgo_Ping\<close> and \<open>kgo_ProduceSync\<close> is whether the context has ended.\<close>

record 'c kgo_ops =
  kgo_Ping :: "bool \<Rightarrow> 'c \<Rightarrow> string option \<times> 'c"
  kgo_ProduceSync :: "bool \<Rightarrow> kafka_record \<Rightarrow> 'c \<Rightarrow> string option \<times> 'c"
  kgo_Flush :: "'c \<Rightarrow> string option \<times> 'c"
  kgo_Close :: "'c \<Rightarrow> 'c"

section \<open>Construction\<close>

record 'c kafka_sink =
  ks_cl :: 'c
  ks_topic :: string
  ks_ready :: bool
  ks_closed :: bool

datatype kafka_error = NoBroker | NoTopic | NewClientFailed string

definition kafka_defaults :: "kafka_config \<Rightarrow> kafka_config" where
  "kafka_defaults c0 =
     (let c1 = (if kc_DeliveryTimeout c0 \<le> 0 then c0\<lparr>kc_DeliveryTimeout := seconds 10\<rparr> else c0);
          c2 = (if kc_DeliveryTimeout c1 < seconds 1 then c1\<lparr>kc_DeliveryTimeout := seconds 1\<rparr> else c1)
      in if kc_ClientID c2 = [] then c2\<lparr>kc_ClientID := ''plantstream-bridge''\<rparr> else c2)"

definition kafka_options :: "kafka_config \<Rightarrow> kgo_options" where
  "kafka_options c =
     \<lparr>ko_SeedBrokers = kc_Brokers c, ko_ClientID = kc_ClientID c, ko_Topic = kc_Topic c, ko_Acks = AllISRAcks,
      ko_Compression = [SnappyCompression, NoCompression], ko_DeliveryTimeout = kc_DeliveryTimeout c,
      ko_Linger = millis 5, ko_AutoTopic = True\<rparr>"

definition kafka_New ::
  "'c kgo_ops \<Rightarrow> (kgo_options \<Rightarrow> string + 'c) \<Rightarrow> bool \<Rightarrow> kafka_config \<Rightarrow> kafka_error + 'c kafka_sink" where
  "kafka_New K mk ctxDone cfg0 =
     (if length (kc_Brokers cfg0) = 0 then Inl NoBroker
      else if kc_Topic cfg0 = [] then Inl NoTopic
      else let cfg = kafka_defaults cfg0
           in case mk (kafka_options cfg) of
                Inl e \<Rightarrow> Inl (NewClientFailed e)
              | Inr cl \<Rightarrow>
                  (case kgo_Ping K ctxDone cl of
                     (Some _, cl') \<Rightarrow> Inr \<lparr>ks_cl = cl', ks_topic = kc_Topic cfg, ks_ready = False, ks_closed = False\<rparr>
                   | (None, cl') \<Rightarrow> Inr \<lparr>ks_cl = cl', ks_topic = kc_Topic cfg, ks_ready = True, ks_closed = False\<rparr>))"

section \<open>Operations\<close>

definition kafka_record_of :: "message \<Rightarrow> kafka_record" where
  "kafka_record_of msg =
     \<lparr>kr_Key = bytes_of_string (m_topic msg), kr_Value = m_payload msg,
      kr_Headers = [(''uns-topic'', bytes_of_string (m_topic msg)),
                    (''edge-ts-ms'', bytes_of_string (FormatInt (UnixMilli (m_at msg))))],
      kr_Timestamp = (if m_at msg \<noteq> zero_time then m_at msg else zero_time)\<rparr>"

definition kafka_Send ::
  "'c kgo_ops \<Rightarrow> bool \<Rightarrow> message \<Rightarrow> 'c kafka_sink \<Rightarrow> port_error option \<times> 'c kafka_sink" where
  "kafka_Send K ctxDone msg s =
     (if ks_closed s then (Some ErrClosed, s)
      else case kgo_ProduceSync K ctxDone (kafka_record_of msg) (ks_cl s) of
             (Some e, cl) \<Rightarrow> (Some (ErrIO (''kafka: produce '' @ m_topic msg @ '': '' @ e)), s\<lparr>ks_cl := cl, ks_ready := False\<rparr>)
           | (None, cl) \<Rightarrow> (None, s\<lparr>ks_cl := cl, ks_ready := True\<rparr>))"

definition kafka_Ready :: "'c kafka_sink \<Rightarrow> bool" where
  "kafka_Ready s = (ks_ready s \<and> \<not> ks_closed s)"

definition kafka_Close :: "'c kgo_ops \<Rightarrow> 'c kafka_sink \<Rightarrow> string option \<times> 'c kafka_sink" where
  "kafka_Close K s =
     (if ks_closed s then (None, s)
      else case kgo_Flush K (ks_cl s) of
             (err, cl) \<Rightarrow> (err, s\<lparr>ks_cl := kgo_Close K cl, ks_closed := True\<rparr>))"

definition kafka_ops :: "'c kgo_ops \<Rightarrow> 'c kafka_sink sink_ops" where
  "kafka_ops K = \<lparr>s_send = kafka_Send K, s_ready = kafka_Ready\<rparr>"

section \<open>What is relied on of the cluster\<close>

text \<open>
  \<open>recs c\<close> are the records of this producer that the cluster holds, in the order in which
  they were produced. A produce that returns no error has been stored by all in-sync
  replicas; one that returns an error may have been stored, when the acknowledgement was
  lost. Records with equal keys go to the same partition, so that the content of a
  partition is a selection of \<open>recs\<close> by key.
\<close>

definition kafka_cluster :: "'c kgo_ops \<Rightarrow> ('c \<Rightarrow> bool) \<Rightarrow> ('c \<Rightarrow> kafka_record list) \<Rightarrow> bool" where
  "kafka_cluster K live recs \<longleftrightarrow>
     (\<forall>c x r c'. live c \<longrightarrow> kgo_ProduceSync K x r c = (None, c') \<longrightarrow> live c' \<and> recs c' = recs c @ [r]) \<and>
     (\<forall>c x r e c'. live c \<longrightarrow> kgo_ProduceSync K x r c = (Some e, c') \<longrightarrow>
        live c' \<and> (recs c' = recs c \<or> recs c' = recs c @ [r])) \<and>
     (\<forall>c x e c'. live c \<longrightarrow> kgo_Ping K x c = (e, c') \<longrightarrow> live c' \<and> recs c' = recs c)"

definition partition_log :: "(byte list \<Rightarrow> nat) \<Rightarrow> kafka_record list \<Rightarrow> nat \<Rightarrow> kafka_record list" where
  "partition_log part rs p = filter (\<lambda>r. part (kr_Key r) = p) rs"

lemma bytes_of_string_inject: "bytes_of_string s = bytes_of_string t \<longleftrightarrow> s = t"
  by (metis string_of_bytes_of_string)

lemma kafka_defaults_ok:
  "kc_Brokers (kafka_defaults c) = kc_Brokers c" "kc_Topic (kafka_defaults c) = kc_Topic c"
  "seconds 1 \<le> kc_DeliveryTimeout (kafka_defaults c)" "kc_ClientID (kafka_defaults c) \<noteq> []"
  by (simp_all add: kafka_defaults_def Let_def)

lemma produce_ok:
  "kafka_cluster K live recs \<Longrightarrow> live c \<Longrightarrow> kgo_ProduceSync K x r c = (None, c') \<Longrightarrow>
     live c' \<and> recs c' = recs c @ [r]"
  unfolding kafka_cluster_def by blast

lemma produce_error:
  "kafka_cluster K live recs \<Longrightarrow> live c \<Longrightarrow> kgo_ProduceSync K x r c = (Some e, c') \<Longrightarrow>
     live c' \<and> (recs c' = recs c \<or> recs c' = recs c @ [r])"
  unfolding kafka_cluster_def by blast

lemma ping_ok:
  "kafka_cluster K live recs \<Longrightarrow> live c \<Longrightarrow> kgo_Ping K x c = (e, c') \<Longrightarrow> live c' \<and> recs c' = recs c"
  unfolding kafka_cluster_def by blast

lemma kafka_New_invar:
  assumes K: "kafka_cluster K live recs" and new: "kafka_New K mk x cfg = Inr k"
    and mk: "\<And>opts c. mk opts = Inr c \<Longrightarrow> live c \<and> recs c = []"
  shows "live (ks_cl k) \<and> recs (ks_cl k) = [] \<and> \<not> ks_closed k"
proof -
  obtain cl e where "mk (kafka_options (kafka_defaults cfg)) = Inr cl" "kgo_Ping K x cl = (e, ks_cl k)" "\<not> ks_closed k"
    using new by (auto simp: kafka_New_def Let_def split: if_splits sum.splits prod.splits option.splits)
  then show ?thesis using mk ping_ok [OF K] by metis
qed

lemma kafka_Send_ok:
  assumes K: "kafka_cluster K live recs" "live (ks_cl k)" and s: "kafka_Send K x m k = (None, k')"
  shows "live (ks_cl k') \<and> recs (ks_cl k') = recs (ks_cl k) @ [kafka_record_of m] \<and> kafka_Ready k'"
proof -
  have "kgo_ProduceSync K x (kafka_record_of m) (ks_cl k) = (None, ks_cl k')" "kafka_Ready k'"
    using s by (auto simp: kafka_Send_def kafka_Ready_def split: if_splits prod.splits option.splits)
  then show ?thesis using produce_ok [OF K] by blast
qed

lemma kafka_Send_error:
  assumes K: "kafka_cluster K live recs" "live (ks_cl k)" and s: "kafka_Send K x m k = (Some e, k')"
  shows "live (ks_cl k') \<and> \<not> kafka_Ready k' \<and>
    (recs (ks_cl k') = recs (ks_cl k) \<or> recs (ks_cl k') = recs (ks_cl k) @ [kafka_record_of m])"
proof -
  have "(k' = k \<and> ks_closed k) \<or> (\<exists>e'. kgo_ProduceSync K x (kafka_record_of m) (ks_cl k) = (Some e', ks_cl k') \<and> \<not> ks_ready k')"
    using s by (auto simp: kafka_Send_def split: if_splits prod.splits option.splits)
  then show ?thesis using produce_error [OF K] K(2) unfolding kafka_Ready_def by blast
qed

section \<open>The readiness that the health endpoint shows\<close>

datatype kafka_call = CallSend bool message | CallClose

text \<open>The state after a sequence of calls, and what each \<^verbatim>\<open>Send\<close> returned.\<close>

fun kafka_calls :: "'c kgo_ops \<Rightarrow> kafka_call list \<Rightarrow> 'c kafka_sink \<Rightarrow> port_error option list \<times> 'c kafka_sink" where
  "kafka_calls K [] s = ([], s)"
| "kafka_calls K (CallSend x m # cs) s =
     (case kafka_Send K x m s of (e, s1) \<Rightarrow> case kafka_calls K cs s1 of (es, s2) \<Rightarrow> (e # es, s2))"
| "kafka_calls K (CallClose # cs) s = kafka_calls K cs (snd (kafka_Close K s))"

lemma kafka_calls_closed:
  "ks_closed s \<Longrightarrow> kafka_calls K cs s = (map (\<lambda>_. Some ErrClosed) (filter (\<lambda>c. c \<noteq> CallClose) cs), s)"
  by (induction K cs s rule: kafka_calls.induct) (auto simp: kafka_Send_def kafka_Close_def)

lemma kafka_calls_open:
  assumes "\<not> ks_closed s" "CallClose \<notin> set cs" "kafka_calls K cs s = (es, s')"
  shows "\<not> ks_closed s' \<and> ks_ready s' = (if es = [] then ks_ready s else last es = None)"
  using assms
proof (induction K cs s arbitrary: es s' rule: kafka_calls.induct)
  case (2 K x m cs s)
  obtain e s1 where e: "kafka_Send K x m s = (e, s1)" by force
  then have s1: "\<not> ks_closed s1" "ks_ready s1 = (e = None)"
    using 2(2) by (auto simp: kafka_Send_def split: prod.splits option.splits)
  obtain es1 s2 where r: "kafka_calls K cs s1 = (es1, s2)" by force
  with 2(4) e have "es = e # es1" "s' = s2" by auto
  then show ?case using 2(1) [OF e [symmetric] s1(1) _ r] 2(3) s1(2) by simp
qed auto

lemma kafka_calls_append:
  "kafka_calls K (cs @ ds) s =
     (case kafka_calls K cs s of (es, s1) \<Rightarrow> case kafka_calls K ds s1 of (fs, s2) \<Rightarrow> (es @ fs, s2))"
  by (induction K cs s rule: kafka_calls.induct) (auto split: prod.splits)

text \<open>
  C40: the readiness of the sink that the health endpoint reports. After any sequence of sends and
  closes of an open sink it is ready exactly when it has not been closed and the last send
  was acknowledged (before the first send: when the start-up ping was answered). Once closed it
  rejects every send and never touches the client again.
\<close>

theorem kafka_ready_exact:
  assumes "\<not> ks_closed s" "kafka_calls K cs s = (es, s')"
  shows "(kafka_Ready s' \<longleftrightarrow> CallClose \<notin> set cs \<and> (if es = [] then kafka_Ready s else last es = None)) \<and>
    (\<forall>pre post. cs = pre @ CallClose # post \<and> CallClose \<notin> set pre \<longrightarrow>
       ks_cl s' = ks_cl (snd (kafka_Close K (snd (kafka_calls K pre s)))) \<and>
       es = fst (kafka_calls K pre s) @ replicate (length (filter (\<lambda>c. c \<noteq> CallClose) post)) (Some ErrClosed))"
proof -
  have closing: "ks_closed s' \<and> ks_cl s' = ks_cl (snd (kafka_Close K (snd (kafka_calls K pre s)))) \<and>
      es = fst (kafka_calls K pre s) @ replicate (length (filter (\<lambda>c. c \<noteq> CallClose) post)) (Some ErrClosed)"
    if cs: "cs = pre @ CallClose # post" "CallClose \<notin> set pre" for pre post
  proof -
    obtain fs s1 where s1: "kafka_calls K pre s = (fs, s1)" by force
    let ?s2 = "snd (kafka_Close K s1)"
    have "ks_closed ?s2" by (simp add: kafka_Close_def split: prod.splits)
    from kafka_calls_closed [OF this, of K post] show ?thesis
      using assms(2) cs(1) s1 \<open>ks_closed ?s2\<close> by (auto simp: kafka_calls_append map_replicate_const)
  qed
  show ?thesis
  proof (cases "CallClose \<in> set cs")
    case True
    then obtain pre post where "cs = pre @ CallClose # post" "CallClose \<notin> set pre" by (metis split_list_first)
    from closing [OF this] have "\<not> kafka_Ready s'" by (simp add: kafka_Ready_def)
    then show ?thesis using closing True by blast
  next
    case False
    then show ?thesis using kafka_calls_open [OF assms(1) False assms(2)] assms(1)
      by (auto simp: kafka_Ready_def)
  qed
qed

definition flaky_cluster :: "kafka_record list kgo_ops" where
  "flaky_cluster =
     \<lparr>kgo_Ping = (\<lambda>x c. (None, c)),
      kgo_ProduceSync = (\<lambda>x r c. (if c = [] then Some ''timeout'' else None, c @ [r])),
      kgo_Flush = (\<lambda>c. (None, c)), kgo_Close = (\<lambda>c. c)\<rparr>"

lemma flaky_cluster_ok: "kafka_cluster flaky_cluster (\<lambda>_. True) (\<lambda>c. c)"
  by (simp add: kafka_cluster_def flaky_cluster_def)

definition sample_kafka :: "kafka_record list kafka_sink" where
  "sample_kafka = \<lparr>ks_cl = [], ks_topic = ''uns.events'', ks_ready = True, ks_closed = False\<rparr>"

lemma sample_kafka_New:
  "kafka_New flaky_cluster (\<lambda>_. Inr []) False
     \<lparr>kc_Brokers = [''localhost:9092''], kc_Topic = ''uns.events'', kc_ClientID = [], kc_DeliveryTimeout = 0\<rparr> = Inr sample_kafka"
  by (simp add: kafka_New_def kafka_defaults_def flaky_cluster_def sample_kafka_def Let_def)

definition sample_message :: message where
  "sample_message = \<lparr>m_topic = ''a/b'', m_payload = [7], m_retain = True, m_at = zero_time\<rparr>"

theorem kafka_ready_exact_witness:
  "\<not> kafka_Ready (snd (kafka_calls flaky_cluster [CallSend False sample_message] sample_kafka)) \<and>
   kafka_Ready (snd (kafka_calls flaky_cluster [CallSend False sample_message, CallSend False sample_message] sample_kafka))"
  using kafka_ready_exact [OF _ refl [of "kafka_calls flaky_cluster [CallSend False sample_message] sample_kafka", THEN trans [OF _ surjective_pairing]]]
    kafka_ready_exact [OF _ refl [of "kafka_calls flaky_cluster [CallSend False sample_message, CallSend False sample_message] sample_kafka", THEN trans [OF _ surjective_pairing]]]
  by (simp add: sample_kafka_def kafka_Send_def flaky_cluster_def)

text \<open>
  A message without a time: the record leaves its timestamp to the client, but its header still
  carries the milliseconds of the zero time, a moment in the year 1.
\<close>

lemma kafka_zero_time_header:
  "m_at m = zero_time \<Longrightarrow> kr_Timestamp (kafka_record_of m) = zero_time \<and>
     map_of (kr_Headers (kafka_record_of m)) ''edge-ts-ms'' = Some (bytes_of_string ''-62135596800000'')"
  by (simp add: kafka_record_of_def UnixMilli_def zero_time_def wrap64_def FormatInt_def FormatUint.simps char_of_def bit_0)

end
