(* ===== verification/Kafka_Delivery.thy ===== *)
theory Kafka_Delivery
  imports Bridge_History Disk_Queue Kafka_Sink
begin

text \<open>
  The bridge in front of Kafka with the queue on disk: \<^verbatim>\<open>docs/adr/0004\<close> promises at-least-once
  delivery in the order of each topic. The sink of \<open>Kafka_Sink\<close> is a \<open>remote_sink\<close> in the sense of
  \<open>Bridge_History\<close> for every client that behaves as \<open>kafka_cluster\<close> says.
\<close>

definition kafka_log ::
  "('c \<Rightarrow> bool) \<Rightarrow> ('c \<Rightarrow> kafka_record list) \<Rightarrow> kafka_record list \<Rightarrow> 'c kafka_sink \<Rightarrow> remote \<Rightarrow> bool" where
  "kafka_log live recs base k h \<longleftrightarrow>
     live (ks_cl k) \<and> recs (ks_cl k) = base @ map (kafka_record_of \<circ> fst) h"

lemma kafka_remote:
  assumes K: "kafka_cluster K live recs"
    and env: "\<And>k k'. E k k' \<Longrightarrow> live (ks_cl k) \<Longrightarrow> live (ks_cl k') \<and> recs (ks_cl k') = recs (ks_cl k)"
  shows "remote_sink disk_queue_ops dq_invar dq_contents dq_storable (kafka_ops K) E (kafka_log live recs base)
    (\<lambda>k k'. recs (ks_cl k') \<noteq> recs (ks_cl k))"
proof (intro remote_sink.intro remote_sink_axioms.intro disk_queue.queue_contract_axioms)
  fix k h x m k' assume "kafka_log live recs base k h" "s_send (kafka_ops K) x m k = (None, k')"
  then show "recs (ks_cl k') \<noteq> recs (ks_cl k) \<and> kafka_log live recs base k' (h @ [(m, True)])"
    using kafka_Send_ok [OF K, of k x m k'] by (simp add: kafka_log_def kafka_ops_def)
next
  fix k h x m e k' assume "kafka_log live recs base k h" "s_send (kafka_ops K) x m k = (Some e, k')"
  then show "kafka_log live recs base k' (if recs (ks_cl k') \<noteq> recs (ks_cl k) then h @ [(m, False)] else h)"
    using kafka_Send_error [OF K, of k x m e k'] by (auto simp: kafka_log_def kafka_ops_def)
next
  fix k h k' assume "kafka_log live recs base k h" "E k k'"
  then show "kafka_log live recs base k' h" using env [of k k'] by (simp add: kafka_log_def)
qed

interpretation flaky_remote: remote_sink disk_queue_ops dq_invar dq_contents dq_storable "kafka_ops flaky_cluster"
  "\<lambda>k k'. k' = k" "kafka_log (\<lambda>_. True) (\<lambda>c. c) []" "\<lambda>k k'. ks_cl k' \<noteq> ks_cl k"
  using kafka_remote [OF flaky_cluster_ok, of "\<lambda>k k'. k' = k" "[]"] by simp

lemma of_topic_records:
  "filter (\<lambda>r. kr_Key r = bytes_of_string t) (map kafka_record_of ms) = map kafka_record_of (of_topic t ms)"
  by (induction ms) (simp_all add: kafka_record_of_def bytes_of_string_inject)

lemma filter_partition:
  "filter (\<lambda>r. kr_Key r = key) (partition_log part rs (part key)) = filter (\<lambda>r. kr_Key r = key) rs"
  by (induction rs) (auto simp: partition_log_def)

text \<open>What the records behind a log say of one topic.\<close>

lemma kafka_log_topic:
  assumes "kafka_log live recs base k h" "stutters xs (of_topic t (map fst h))"
  shows "stutters (map kafka_record_of xs) (filter (\<lambda>r. kr_Key r = bytes_of_string t)
    (partition_log part (drop (length base) (recs (ks_cl k))) (part (bytes_of_string t))))"
proof -
  have "drop (length base) (recs (ks_cl k)) = map kafka_record_of (map fst h)"
    using assms(1) by (simp add: kafka_log_def)
  then show ?thesis using stutters_map [OF assms(2)] by (simp only: filter_partition of_topic_records)
qed

text \<open>
  C5: delivery to Kafka. Let the bridge run in any interleaving in front of a cluster that may
  lose acknowledgements. Then the records that the partition of a topic's key holds of that
  topic, behind those stored before, are the messages of the topic in the order of their
  arrival (the stored ones first), with nothing swapped and nothing foreign; a message occurs
  there more than once only in one block. If nothing was evicted and nothing is on its way any
  more, every message is there.
\<close>

theorem kafka_at_least_once:
  assumes K: "kafka_cluster K live recs" and k: "live (ks_cl k)" and q: "dq_invar q"
    and env: "\<And>k k'. E k k' \<Longrightarrow> live (ks_cl k) \<Longrightarrow> live (ks_cl k') \<and> recs (ks_cl k') = recs (ks_cl k)"
    and run: "admissible_run disk_queue_ops (kafka_ops K) E dq_storable (bridge_New cfg k q) ls s"
  shows "let key = bytes_of_string t; all = of_topic t (dq_contents q @ concat (map arrival ls));
             new = drop (length (recs (ks_cl k))) (recs (ks_cl (br_sink s)))
    in \<exists>xs. stutters (map kafka_record_of xs) (filter (\<lambda>r. kr_Key r = key) (partition_log part new (part key))) \<and>
         subseq xs all \<and>
         (bridge_losses disk_queue_ops s = dq_dropped q \<and> dq_contents (br_queue s) = [] \<and> total (br_in s) = 0 \<longrightarrow>
            xs = all)"
proof -
  note B = kafka_remote [OF K env, where base = "recs (ks_cl k)"]
  have k0: "kafka_log live recs (recs (ks_cl k)) k []" using k by (simp add: kafka_log_def)
  have d: "q_dropped disk_queue_ops q = dq_dropped q" by (simp add: disk_queue_ops_def)
  from remote_sink.remote_log_ordered [OF B q k0 run] obtain h where
    h: "kafka_log live recs (recs (ks_cl k)) (br_sink s) h" and
    "\<exists>xs. stutters xs (of_topic t (map fst h)) \<and>
      subseq xs (of_topic t (dq_contents q @ concat (map arrival ls))) \<and>
      (bridge_losses disk_queue_ops s = dq_dropped q \<and> dq_contents (br_queue s) = [] \<and> total (br_in s) = 0 \<longrightarrow>
         xs = of_topic t (dq_contents q @ concat (map arrival ls)))"
    unfolding d by blast
  then obtain xs where xs: "stutters xs (of_topic t (map fst h))"
    "subseq xs (of_topic t (dq_contents q @ concat (map arrival ls)))"
    "bridge_losses disk_queue_ops s = dq_dropped q \<and> dq_contents (br_queue s) = [] \<and> total (br_in s) = 0 \<longrightarrow>
       xs = of_topic t (dq_contents q @ concat (map arrival ls))"
    by blast
  then show ?thesis using kafka_log_topic [OF h xs(1)] by (auto simp: Let_def)
qed

text \<open>
  A run in front of a cluster that stores the first record but loses its acknowledgement: the
  message is kept for a retry although Kafka has it.
\<close>

definition kafka_bridge :: "(disk_queue, kafka_record list kafka_sink) bridge" where
  "kafka_bridge = bridge_New \<lparr>cf_Filter = [], cf_InboxSize = 0, cf_PerTopicMax = 0, cf_RetryMin = 0,
     cf_RetryMax = 0, cf_ReplayBatch = 0\<rparr> sample_kafka (fresh_queue 1000 100 False)"

lemma kafka_bridge_run:
  obtains s where "admissible_run disk_queue_ops (kafka_ops flaky_cluster) (\<lambda>k k'. k' = k) dq_storable kafka_bridge
      [Subscribe True, Arrive sample_msg, Forward, SelNotify, Forward] s"
    "ks_cl (br_sink s) = [kafka_record_of sample_msg]"
proof -
  let ?A = "admissible_run disk_queue_ops (kafka_ops flaky_cluster) (\<lambda>k k'. k' = k) dq_storable kafka_bridge"
  let ?m = sample_msg
  have v: "br_pc kafka_bridge = NotStarted" "br_queue kafka_bridge = fresh_queue 1000 100 False"
    "br_sink kafka_bridge = sample_kafka" "br_in kafka_bridge = newInbox 64 4096" "br_sinkUp kafka_bridge"
    "\<not> br_ctxDone kafka_bridge"
    by (simp_all add: kafka_bridge_def bridge_New_def Let_def bridge_defaults_def)
  have len: "q_len disk_queue_ops (fresh_queue 1000 100 False) = 0"
    by (simp add: disk_queue_ops_def fresh_queue_def empty_queue_def)
  define s1 where "s1 = kafka_bridge\<lparr>br_subscribed := True, br_backoff := cf_RetryMin (br_cfg kafka_bridge),
     br_timer := Some (cf_RetryMax (br_cfg kafka_bridge)), br_pc := Top\<rparr>"
  have 1: "?A [Subscribe True] s1"
    using adm_snoc [OF adm_Nil, of _ _ _ "Subscribe True" kafka_bridge s1] by (simp add: s1_def v)
  have safe: "push_safe ?m (newInbox 64 4096)" by (simp add: push_safe_def newInbox_def)
  have "int (length (fifo (newInbox 64 4096) (m_topic ?m))) < perTopic (newInbox 64 4096)"
    "total (newInbox 64 4096) < maxTotal (newInbox 64 4096)" by (simp_all add: newInbox_def fifo_def)
  from inbox_push_room [OF this] have push: "(snd (inbox_push ?m (newInbox 64 4096)))\<lparr>notify := False\<rparr> =
      (newInbox 64 4096)\<lparr>topics := [m_topic ?m \<mapsto> [?m]], ring := [m_topic ?m], total := 1\<rparr>"
    by (simp add: newInbox_def fifo_def)
  let ?s2 = "onMessage ?m s1"
  have 2: "?A [Subscribe True, Arrive ?m] ?s2"
    using adm_snoc [OF 1, of "Arrive ?m" ?s2] safe sample_storable by (simp add: s1_def v)
  let ?s3 = "?s2\<lparr>br_pc := Selecting\<rparr>"
  have 3: "?A [Subscribe True, Arrive ?m, Forward] ?s3"
    using adm_snoc [OF 2, of Forward ?s3] len by (simp add: forward_step_def onMessage_def s1_def v)
  let ?s4 = "?s3\<lparr>br_in := (br_in ?s3)\<lparr>notify := False\<rparr>, br_pc := Notified\<rparr>"
  have 4: "?A [Subscribe True, Arrive ?m, Forward, SelNotify] ?s4"
    using adm_snoc [OF 3, of SelNotify ?s4] by (simp add: onMessage_def)
  let ?s5 = "notified_step disk_queue_ops (kafka_ops flaky_cluster) ?s4"
  have 5: "?A [Subscribe True, Arrive ?m, Forward, SelNotify, Forward] ?s5"
    using adm_snoc [OF 4, of Forward ?s5] by (simp add: forward_step_def)
  have "br_in ?s4 = (newInbox 64 4096)\<lparr>topics := [m_topic ?m \<mapsto> [?m]], ring := [m_topic ?m], total := 1\<rparr>"
    using push by (simp add: onMessage_def s1_def v)
  then obtain i where "inbox_pop (br_in ?s4) = (Some ?m, i)"
    using inbox_pop_eval [of "br_in ?s4" "m_topic ?m" ?m "[]"] by (simp add: newInbox_def fifo_def)
  then have "br_sink ?s5 = sample_kafka\<lparr>ks_cl := [kafka_record_of ?m], ks_ready := False\<rparr>"
    using len by (simp add: notified_step_def send_def kafka_ops_def kafka_Send_def flaky_cluster_def
        sample_kafka_def onMessage_def s1_def v Let_def spill_def split: prod.splits option.splits)
  with 5 show thesis using that by simp
qed

theorem kafka_at_least_once_witness:
  "\<exists>(s :: (disk_queue, kafka_record list kafka_sink) bridge) xs. ks_cl (br_sink s) = [kafka_record_of sample_msg] \<and> subseq xs [sample_msg] \<and>
     stutters (map kafka_record_of xs)
       (filter (\<lambda>r. kr_Key r = bytes_of_string ''a/b'') (partition_log length (ks_cl (br_sink s)) 3))"
proof -
  obtain s where s: "admissible_run disk_queue_ops (kafka_ops flaky_cluster) (\<lambda>k k'. k' = k) dq_storable kafka_bridge
      [Subscribe True, Arrive sample_msg, Forward, SelNotify, Forward] s"
    "ks_cl (br_sink s) = [kafka_record_of sample_msg]" by (rule kafka_bridge_run)
  have q: "dq_invar (fresh_queue 1000 100 False)" using fresh_rep by (auto simp: dq_invar_def)
  have t: "of_topic ''a/b'' [sample_msg] = [sample_msg]" "length (bytes_of_string ''a/b'') = 3"
    by (simp_all add: sample_msg_def)
  from kafka_at_least_once [OF flaky_cluster_ok _ q _ s(1) [unfolded kafka_bridge_def], where t = "''a/b''" and part = length]
  obtain xs where "subseq xs (of_topic ''a/b'' [sample_msg])"
    "stutters (map kafka_record_of xs) (filter (\<lambda>r. kr_Key r = bytes_of_string ''a/b'')
       (partition_log length (ks_cl (br_sink s)) (length (bytes_of_string ''a/b''))))"
    by (auto simp: Let_def sample_kafka_def fresh_contents simp del: length_bytes_of_string filter.simps)
  then show ?thesis using s(2) unfolding t by blast
qed

end
