(* ===== verification/Observability.thy ===== *)
theory Observability
  imports Env_Config
begin

text \<open>
  Logging, tracing and metrics, \<^verbatim>\<open>internal/observability/observability.go\<close>. The logger, the
  OpenTelemetry SDK and the Prometheus registry are code of other packages: construction is
  modelled down to the arguments the repository gives them, their results are parameters.
\<close>

section \<open>Logging\<close>

datatype log_level = LevelDebug | LevelInfo | LevelWarn | LevelError

definition NewLogger :: "'w option \<Rightarrow> 'w \<Rightarrow> string \<Rightarrow> 'w \<times> log_level" where
  "NewLogger w stdout level =
     (case w of None \<Rightarrow> stdout | Some x \<Rightarrow> x,
      let l = ToLower level
      in if l = ''debug'' then LevelDebug
         else if l = ''warn'' \<or> l = ''warning'' then LevelWarn
         else if l = ''error'' then LevelError
         else LevelInfo)"

section \<open>Tracing\<close>

record tracing_config =
  tc_ServiceName :: string
  tc_ServiceVersion :: string
  tc_Endpoint :: string
  tc_Insecure :: bool
  tc_SampleRatio :: float64

datatype exporter_option = WithEndpoint string | WithInsecure

datatype ('res, 'exp) tracer_option =
    WithResource 'res | WithParentBasedRatio float64 | WithBatcher 'exp duration

datatype tracing_error = ResourceFailed string | ExporterFailed string

definition sample_ratio :: "float64 \<Rightarrow> float64" where
  "sample_ratio r = (if fl_le r (Fin 0) \<or> fl_less (Fin 1) r then Fin 1 else r)"

text \<open>
  The options of the tracer provider that \<^verbatim>\<open>SetupTracing\<close> installs; \<open>merge\<close> is the merge of the
  default resource with the service's attributes, \<open>exporter\<close> the construction of the exporter.
\<close>

definition SetupTracing ::
  "(string \<Rightarrow> string \<Rightarrow> string + 'res) \<Rightarrow> (exporter_option list \<Rightarrow> string + 'exp) \<Rightarrow> tracing_config \<Rightarrow>
     tracing_error + ('res, 'exp) tracer_option list" where
  "SetupTracing merge exporter cfg =
     (case merge (tc_ServiceName cfg) (tc_ServiceVersion cfg) of
        Inl e \<Rightarrow> Inl (ResourceFailed e)
      | Inr res \<Rightarrow>
          (let opts = [WithResource res, WithParentBasedRatio (sample_ratio (tc_SampleRatio cfg))]
           in if tc_Endpoint cfg \<noteq> []
              then (let eopts = [WithEndpoint (tc_Endpoint cfg)];
                        eopts = (if tc_Insecure cfg then eopts @ [WithInsecure] else eopts)
                    in case exporter eopts of
                         Inl e \<Rightarrow> Inl (ExporterFailed e)
                       | Inr x \<Rightarrow> Inr (opts @ [WithBatcher x (seconds 2)]))
              else Inr opts))"

section \<open>Metrics\<close>

datatype metric_kind = CounterKind | GaugeKind | HistogramKind "rat list"

record metric_opts =
  mo_Kind :: metric_kind
  mo_Namespace :: string
  mo_Subsystem :: string
  mo_Name :: string
  mo_Labels :: "string list"

definition plantstream_metric :: "metric_kind \<Rightarrow> string \<Rightarrow> string \<Rightarrow> string list \<Rightarrow> metric_opts" where
  "plantstream_metric k sub n ls =
     \<lparr>mo_Kind = k, mo_Namespace = ''plantstream'', mo_Subsystem = sub, mo_Name = n, mo_Labels = ls\<rparr>"

text \<open>The fields of \<^verbatim>\<open>Metrics\<close>, in the order in which \<^verbatim>\<open>NewMetrics\<close> fills them, and their options.\<close>

datatype metric_field =
    HTTPRequests | HTTPDuration | HTTPInflight | SSEClients | SourceUp | SourcePolls
  | PollDuration | Samples | Published | PublishErrors | QualityTrans | TagsByQuality
  | BridgeForwarded | BridgeSpilled | BridgeDropped | BridgeCoalesced | BridgeErrors | BridgeEvicted
  | BridgeQueueLen | BridgeQueueByte | BridgeSinkUp | BridgeLag

fun metric_opts_of :: "metric_field \<Rightarrow> metric_opts" where
  "metric_opts_of HTTPRequests = plantstream_metric CounterKind ''http'' ''requests_total'' [''method'', ''route'', ''status'']"
| "metric_opts_of HTTPDuration = plantstream_metric (HistogramKind [1/1000, 1/200, 1/100, 1/40, 1/20, 1/10, 1/4, 1/2, 1, 5/2]) ''http'' ''request_duration_seconds'' [''method'', ''route'']"
| "metric_opts_of HTTPInflight = plantstream_metric GaugeKind ''http'' ''inflight_requests'' []"
| "metric_opts_of SSEClients = plantstream_metric GaugeKind [] ''sse_clients'' []"
| "metric_opts_of SourceUp = plantstream_metric GaugeKind ''source'' ''up'' [''source'']"
| "metric_opts_of SourcePolls = plantstream_metric CounterKind ''source'' ''polls_total'' [''source'', ''result'']"
| "metric_opts_of PollDuration = plantstream_metric (HistogramKind [1/1000, 1/200, 1/100, 1/40, 1/20, 1/10, 1/4, 1/2, 1, 5/2, 5]) ''source'' ''poll_duration_seconds'' [''source'']"
| "metric_opts_of Samples = plantstream_metric CounterKind [] ''samples_total'' [''source'']"
| "metric_opts_of Published = plantstream_metric CounterKind ''uns'' ''published_total'' [''type'']"
| "metric_opts_of PublishErrors = plantstream_metric CounterKind ''uns'' ''publish_errors_total'' []"
| "metric_opts_of QualityTrans = plantstream_metric CounterKind ''quality'' ''transitions_total'' [''quality'', ''rule'']"
| "metric_opts_of TagsByQuality = plantstream_metric GaugeKind ''quality'' ''tags'' [''quality'']"
| "metric_opts_of BridgeForwarded = plantstream_metric CounterKind ''bridge'' ''forwarded_total'' []"
| "metric_opts_of BridgeSpilled = plantstream_metric CounterKind ''bridge'' ''spilled_total'' [''reason'']"
| "metric_opts_of BridgeDropped = plantstream_metric CounterKind ''bridge'' ''dropped_total'' []"
| "metric_opts_of BridgeCoalesced = plantstream_metric CounterKind ''bridge'' ''coalesced_total'' []"
| "metric_opts_of BridgeErrors = plantstream_metric CounterKind ''bridge'' ''sink_errors_total'' []"
| "metric_opts_of BridgeEvicted = plantstream_metric GaugeKind ''bridge'' ''queue_evicted_total'' []"
| "metric_opts_of BridgeQueueLen = plantstream_metric GaugeKind ''bridge'' ''queue_depth'' []"
| "metric_opts_of BridgeQueueByte = plantstream_metric GaugeKind ''bridge'' ''queue_bytes'' []"
| "metric_opts_of BridgeSinkUp = plantstream_metric GaugeKind ''bridge'' ''sink_up'' []"
| "metric_opts_of BridgeLag = plantstream_metric (HistogramKind [1/100, 1/20, 1/10, 1/2, 1, 5, 30, 120, 600, 3600]) ''bridge'' ''delivery_lag_seconds'' []"

definition metric_fields :: "metric_field list" where
  "metric_fields = [HTTPRequests, HTTPDuration, HTTPInflight, SSEClients, SourceUp, SourcePolls, PollDuration, Samples, Published, PublishErrors, QualityTrans, TagsByQuality, BridgeForwarded, BridgeSpilled, BridgeDropped, BridgeCoalesced, BridgeErrors, BridgeEvicted, BridgeQueueLen, BridgeQueueByte, BridgeSinkUp, BridgeLag]"

datatype collector_arg = GoCollector | ProcessCollector | Own metric_opts

text \<open>\<^verbatim>\<open>MustRegister\<close> of one collector after the other; \<open>None\<close> is its panic.\<close>

fun must_register :: "(collector_arg \<Rightarrow> 'r \<Rightarrow> 'r option) \<Rightarrow> collector_arg list \<Rightarrow> 'r \<Rightarrow> 'r option" where
  "must_register register [] r = Some r"
| "must_register register (c # cs) r =
     (case register c r of None \<Rightarrow> None | Some r' \<Rightarrow> must_register register cs r')"

definition NewMetrics :: "(collector_arg \<Rightarrow> 'r \<Rightarrow> 'r option) \<Rightarrow> 'r \<Rightarrow> 'r option" where
  "NewMetrics register newRegistry =
     must_register register ([GoCollector, ProcessCollector] @ map (\<lambda>f. Own (metric_opts_of f)) metric_fields) newRegistry"

section \<open>Properties\<close>

text \<open>
  What is relied on of the registry: \<open>names\<close> are the registered names, \<open>fq\<close> builds a name from its
  parts; the standard collectors use the prefixes \<^verbatim>\<open>go_\<close> and \<^verbatim>\<open>process_\<close>; a metric with a new name
  and increasing buckets is accepted.
\<close>

definition metric_name :: "(string \<Rightarrow> string \<Rightarrow> string \<Rightarrow> string) \<Rightarrow> metric_opts \<Rightarrow> string" where
  "metric_name fq m = fq (mo_Namespace m) (mo_Subsystem m) (mo_Name m)"

definition field_name :: "(string \<Rightarrow> string \<Rightarrow> string \<Rightarrow> string) \<Rightarrow> metric_field \<Rightarrow> string" where
  "field_name fq f = metric_name fq (metric_opts_of f)"

fun buckets_ok :: "metric_kind \<Rightarrow> bool" where
  "buckets_ok (HistogramKind bs) = sorted_wrt (<) bs"
| "buckets_ok _ = True"

definition registry_ok ::
  "(string \<Rightarrow> string \<Rightarrow> string \<Rightarrow> string) \<Rightarrow> (collector_arg \<Rightarrow> 'r \<Rightarrow> 'r option) \<Rightarrow> ('r \<Rightarrow> string set) \<Rightarrow> bool" where
  "registry_ok fq register names \<longleftrightarrow>
     (\<forall>a b c. a \<noteq> [] \<longrightarrow> c \<noteq> [] \<longrightarrow> fq a b c = a @ ''_'' @ (if b = [] then c else b @ ''_'' @ c)) \<and>
     (\<forall>r. (\<forall>n \<in> names r. \<not> has_prefix n ''go_'') \<longrightarrow>
        (\<exists>r' N. register GoCollector r = Some r' \<and> names r' = names r \<union> N \<and> (\<forall>n \<in> N. has_prefix n ''go_''))) \<and>
     (\<forall>r. (\<forall>n \<in> names r. \<not> has_prefix n ''process_'') \<longrightarrow>
        (\<exists>r' N. register ProcessCollector r = Some r' \<and> names r' = names r \<union> N \<and> (\<forall>n \<in> N. has_prefix n ''process_''))) \<and>
     (\<forall>m r. metric_name fq m \<notin> names r \<longrightarrow> buckets_ok (mo_Kind m) \<longrightarrow>
        (\<exists>r'. register (Own m) r = Some r' \<and> names r' = insert (metric_name fq m) (names r)))"

lemma all_metric_fields: "set metric_fields = UNIV"
proof -
  have "f \<in> set metric_fields" for f by (cases f) (simp_all add: metric_fields_def)
  then show ?thesis by blast
qed

lemma metric_names_distinct:
  assumes "registry_ok fq register names"
  shows "distinct (map (field_name fq) metric_fields)"
    "\<And>f. has_prefix (field_name fq f) ''plantstream_''"
proof -
  have fq: "fq ''plantstream'' b (x # c) = ''plantstream_'' @ (if b = [] then x # c else b @ ''_'' @ x # c)" for b c x
    using assms unfolding registry_ok_def by simp
  show "distinct (map (field_name fq) metric_fields)"
    by (simp add: metric_fields_def field_name_def metric_name_def plantstream_metric_def fq)
  show "has_prefix (field_name fq f) ''plantstream_''" for f
    by (cases f) (simp_all add: field_name_def metric_name_def plantstream_metric_def fq has_prefix_def)
qed

lemma prefix_nth: "has_prefix n p \<Longrightarrow> i < length p \<Longrightarrow> n ! i = p ! i"
  by (metis has_prefix_def nth_take)

lemma go_process:
  "has_prefix n ''go_'' \<Longrightarrow> \<not> has_prefix n ''process_''" "has_prefix n ''go_'' \<Longrightarrow> \<not> has_prefix n ''plantstream_''"
  "has_prefix n ''process_'' \<Longrightarrow> \<not> has_prefix n ''plantstream_''"
  using prefix_nth [of n "''go_''" 0] prefix_nth [of n "''process_''" 0] prefix_nth [of n "''process_''" 1]
    prefix_nth [of n "''plantstream_''" 0] prefix_nth [of n "''plantstream_''" 1] by auto

lemma buckets_increase: "buckets_ok (mo_Kind (metric_opts_of f))"
  by (cases f) (simp_all add: plantstream_metric_def)

lemma registry_laws:
  assumes "registry_ok fq register names"
  shows "(\<forall>n \<in> names r. \<not> has_prefix n ''go_'') \<Longrightarrow>
      \<exists>r' N. register GoCollector r = Some r' \<and> names r' = names r \<union> N \<and> (\<forall>n \<in> N. has_prefix n ''go_'')"
    and "(\<forall>n \<in> names r. \<not> has_prefix n ''process_'') \<Longrightarrow>
      \<exists>r' N. register ProcessCollector r = Some r' \<and> names r' = names r \<union> N \<and> (\<forall>n \<in> N. has_prefix n ''process_'')"
    and "field_name fq f \<notin> names r \<Longrightarrow>
      \<exists>r'. register (Own (metric_opts_of f)) r = Some r' \<and> names r' = insert (field_name fq f) (names r)"
proof -
  note R = assms [unfolded registry_ok_def, THEN conjunct2]
  show "(\<forall>n \<in> names r. \<not> has_prefix n ''go_'') \<Longrightarrow>
      \<exists>r' N. register GoCollector r = Some r' \<and> names r' = names r \<union> N \<and> (\<forall>n \<in> N. has_prefix n ''go_'')"
    by (rule R [THEN conjunct1, THEN spec, THEN mp])
  show "(\<forall>n \<in> names r. \<not> has_prefix n ''process_'') \<Longrightarrow>
      \<exists>r' N. register ProcessCollector r = Some r' \<and> names r' = names r \<union> N \<and> (\<forall>n \<in> N. has_prefix n ''process_'')"
    by (rule R [THEN conjunct2, THEN conjunct1, THEN spec, THEN mp])
  show "field_name fq f \<notin> names r \<Longrightarrow>
      \<exists>r'. register (Own (metric_opts_of f)) r = Some r' \<and> names r' = insert (field_name fq f) (names r)"
    unfolding field_name_def
    by (rule R [THEN conjunct2, THEN conjunct2, THEN spec, THEN spec, THEN mp, THEN mp, OF _ buckets_increase])
qed

lemma must_register_own:
  assumes R: "registry_ok fq register names"
    and "distinct (map (field_name fq) fs)"
    and "\<forall>f \<in> set fs. field_name fq f \<notin> names r"
  shows "\<exists>r'. must_register register (map (\<lambda>f. Own (metric_opts_of f)) fs) r = Some r' \<and>
    names r' = names r \<union> (field_name fq) ` set fs"
  using assms(2,3)
proof (induction fs arbitrary: r)
  case (Cons f fs)
  then obtain r1 where r1: "register (Own (metric_opts_of f)) r = Some r1"
    "names r1 = insert (field_name fq f) (names r)"
    using registry_laws(3) [OF R, of f r] by auto
  have "\<forall>g \<in> set fs. field_name fq g \<notin> names r1"
    using Cons.prems unfolding r1(2) by (auto simp: image_iff)
  from Cons.IH [OF _ this] Cons.prems(1) r1 show ?case by auto
qed simp


definition sample_fq :: "string \<Rightarrow> string \<Rightarrow> string \<Rightarrow> string" where
  "sample_fq a b c = (if c = [] then [] else join_with CHR ''_'' (filter (\<lambda>s. s \<noteq> []) [a, b, c]))"

fun sample_register :: "collector_arg \<Rightarrow> string list \<Rightarrow> string list option" where
  "sample_register GoCollector r = Some (''go_goroutines'' # r)"
| "sample_register ProcessCollector r = Some (''process_open_fds'' # r)"
| "sample_register (Own m) r =
     (if metric_name sample_fq m \<in> set r \<or> \<not> buckets_ok (mo_Kind m) then None else Some (metric_name sample_fq m # r))"

lemma sample_registry_ok: "registry_ok sample_fq sample_register set"
  unfolding registry_ok_def
proof (intro conjI allI impI)
  fix r :: "string list"
  show "\<exists>r' N. sample_register GoCollector r = Some r' \<and> set r' = set r \<union> N \<and> (\<forall>n \<in> N. has_prefix n ''go_'')"
    by (intro exI [of _ "''go_goroutines'' # r"] exI [of _ "{''go_goroutines''}"]) (simp add: has_prefix_def)
  show "\<exists>r' N. sample_register ProcessCollector r = Some r' \<and> set r' = set r \<union> N \<and> (\<forall>n \<in> N. has_prefix n ''process_'')"
    by (intro exI [of _ "''process_open_fds'' # r"] exI [of _ "{''process_open_fds''}"]) (simp add: has_prefix_def)
qed (simp_all add: sample_fq_def)


text \<open>
  The sampling ratio of a validated configuration. \<^verbatim>\<open>Validate\<close> accepts every ratio from 0 to 1, but a
  ratio of zero, which reads as sampling nothing, installs a sampler that takes every trace;
  every other accepted ratio is used as it is.
\<close>

theorem trace_ratio_zero_samples_all:
  assumes "config_Validate c = []"
    and "SetupTracing merge exporter \<lparr>tc_ServiceName = ''plantstream'', tc_ServiceVersion = ServiceVersion c,
      tc_Endpoint = OTelEndpoint c, tc_Insecure = OTelInsecure c, tc_SampleRatio = TraceSampleRatio c\<rparr> = Inr opts"
  shows "WithParentBasedRatio (if fl_eq (TraceSampleRatio c) (Fin 0) then Fin 1 else TraceSampleRatio c) \<in> set opts \<and>
    (OTelEndpoint c = [] \<longleftrightarrow> length opts = 2)"
proof -
  have "\<not> fl_less (TraceSampleRatio c) (Fin 0)" "\<not> fl_less (Fin 1) (TraceSampleRatio c)"
    using assms(1) by (simp_all add: Validate_usable config_usable_def)
  then have "sample_ratio (TraceSampleRatio c) =
      (if fl_eq (TraceSampleRatio c) (Fin 0) then Fin 1 else TraceSampleRatio c)"
    by (simp add: sample_ratio_def fl_le_def)
  then show ?thesis using assms(2)
    by (auto simp: SetupTracing_def Let_def split: sum.splits if_splits)
qed

theorem trace_ratio_zero_samples_all_witness:
  "config_Validate (NoConfig\<lparr>HTTPAddr := '':8080'', PlantFile := ''plant.yaml'', cf_Broker := ''memory'', cf_Sink := ''memory'',
     QueueMaxBytes := 1, BridgePerTopicMax := 1, BridgeInboxSize := 1, ShutdownTimeout := 1, StaleCheck := 1,
     TraceSampleRatio := Fin 0\<rparr>) = [] \<and>
   WithParentBasedRatio (Fin 1) \<in> set [WithResource (), WithParentBasedRatio (Fin 1) :: (unit, unit) tracer_option]"
proof -
  let ?c = "NoConfig\<lparr>HTTPAddr := '':8080'', PlantFile := ''plant.yaml'', cf_Broker := ''memory'', cf_Sink := ''memory'',
     QueueMaxBytes := 1, BridgePerTopicMax := 1, BridgeInboxSize := 1, ShutdownTimeout := 1, StaleCheck := 1,
     TraceSampleRatio := Fin 0\<rparr>"
  have v: "config_Validate ?c = []" by (simp add: Validate_usable config_usable_def NoConfig_def)
  have "SetupTracing (\<lambda>_ _. Inr ()) (\<lambda>_. Inr ()) \<lparr>tc_ServiceName = ''plantstream'', tc_ServiceVersion = ServiceVersion ?c,
      tc_Endpoint = OTelEndpoint ?c, tc_Insecure = OTelInsecure ?c, tc_SampleRatio = TraceSampleRatio ?c\<rparr> =
      Inr [WithResource (), WithParentBasedRatio (Fin 1)]"
    by (simp add: SetupTracing_def sample_ratio_def NoConfig_def fl_le_def)
  from trace_ratio_zero_samples_all [OF v this] v show ?thesis by simp
qed

end
