(* ===== verification/Plantstream_Main.thy ===== *)
theory Plantstream_Main
  imports Kafka_Delivery Mqtt_Connect Mem_Broker Observability Edge_Node
begin

text \<open>
  The process entry point, \<^verbatim>\<open>cmd/plantstream/main.go\<close>: \<^verbatim>\<open>run\<close> loads the configuration, builds the
  components, waits for the goroutines and releases what it has opened. The values that come
  from outside -- environment, files, answers of brokers -- are the fields of \<open>world\<close>; the
  result is the trace of resources opened and closed, and the error of the process. Interface
  values are sums of the adapters.
\<close>

section \<open>Interface values\<close>

datatype any_broker = MemoryBroker mem_broker | MqttBroker mqtt_config mqtt_broker
datatype 'c any_sink = MemorySink mem_sink | KafkaSink "'c kafka_sink"
datatype any_queue = MemoryQueue mem_queue | DiskQueue disk_queue

fun any_Send :: "'c kgo_ops \<Rightarrow> bool \<Rightarrow> message \<Rightarrow> 'c any_sink \<Rightarrow> port_error option \<times> 'c any_sink" where
  "any_Send K x m (MemorySink k) = apsnd MemorySink (sink_Send x m k)"
| "any_Send K x m (KafkaSink k) = apsnd KafkaSink (kafka_Send K x m k)"

fun any_Ready :: "'c any_sink \<Rightarrow> bool" where
  "any_Ready (MemorySink k) = sink_Ready k"
| "any_Ready (KafkaSink k) = kafka_Ready k"

definition any_sink_ops :: "'c kgo_ops \<Rightarrow> 'c any_sink sink_ops" where
  "any_sink_ops K = \<lparr>s_send = any_Send K, s_ready = any_Ready\<rparr>"

fun any_Push :: "message \<Rightarrow> any_queue \<Rightarrow> port_error option \<times> any_queue" where
  "any_Push m (MemoryQueue q) = apsnd MemoryQueue (mq_Push m q)"
| "any_Push m (DiskQueue q) = apsnd DiskQueue (dq_Push m q)"

fun any_Peek :: "any_queue \<Rightarrow> (port_error + message option) \<times> any_queue" where
  "any_Peek (MemoryQueue q) = apsnd MemoryQueue (mq_Peek q)"
| "any_Peek (DiskQueue q) = apsnd DiskQueue (dq_Peek q)"

fun any_Ack :: "any_queue \<Rightarrow> port_error option \<times> any_queue" where
  "any_Ack (MemoryQueue q) = apsnd MemoryQueue (mq_Ack q)"
| "any_Ack (DiskQueue q) = apsnd DiskQueue (dq_Ack q)"

fun any_count :: "(mem_queue \<Rightarrow> 'a) \<Rightarrow> (disk_queue \<Rightarrow> 'a) \<Rightarrow> any_queue \<Rightarrow> 'a" where
  "any_count f g (MemoryQueue q) = f q"
| "any_count f g (DiskQueue q) = g q"

definition any_queue_ops :: "any_queue queue_ops" where
  "any_queue_ops = \<lparr>q_push = any_Push, q_peek = any_Peek, q_ack = any_Ack, q_len = any_count mq_Len dq_count,
     q_bytes = any_count mq_bytes dq_bytes, q_dropped = any_count mq_dropped dq_dropped\<rparr>"

text \<open>Whatever queue is wired in keeps the contract of the port, for messages the disk format can hold.\<close>

fun any_contents :: "any_queue \<Rightarrow> message list" where
  "any_contents (MemoryQueue q) = mq_items q"
| "any_contents (DiskQueue q) = dq_contents q"

fun any_invar :: "any_queue \<Rightarrow> bool" where
  "any_invar (MemoryQueue q) = (mq_inv q \<and> (\<forall>m \<in> set (mq_items q). dq_storable m))"
| "any_invar (DiskQueue q) = dq_invar q"

interpretation any_queue: queue_contract any_queue_ops any_invar any_contents dq_storable
proof unfold_locales
  fix q m assume q: "any_invar q" and m: "dq_storable m"
  show "\<exists>k q'. q_push any_queue_ops m q = (None, q') \<and> any_invar q' \<and> k \<le> length (any_contents q) \<and>
      any_contents q' = drop k (any_contents q @ [m]) \<and>
      q_dropped any_queue_ops q' = q_dropped any_queue_ops q + int k"
  proof (cases q)
    case (MemoryQueue x)
    then obtain k y where y: "q_push mem_queue_ops m x = (None, y)" "mq_inv y" "k \<le> length (mq_items x)"
      "mq_items y = drop k (mq_items x @ [m])" "q_dropped mem_queue_ops y = q_dropped mem_queue_ops x + int k"
      using q mem_queue.push_law [of x m] by auto
    moreover have "dq_storable z" if "z \<in> set (mq_items y)" for z
      using that q m MemoryQueue in_set_dropD [of z k "mq_items x @ [m]"] unfolding y(4) by auto
    ultimately show ?thesis using MemoryQueue
      by (intro exI [of _ k] exI [of _ "MemoryQueue y"]) (simp add: any_queue_ops_def mem_queue_ops_def)
  next
    case (DiskQueue x)
    then show ?thesis using q m disk_queue.push_law [of x m]
      by (force simp: any_queue_ops_def disk_queue_ops_def)
  qed
next
  fix q assume q: "any_invar q"
  show "\<exists>q'. q_peek any_queue_ops q = (Inr (case any_contents q of [] \<Rightarrow> None | m # _ \<Rightarrow> Some m), q') \<and>
      any_invar q' \<and> any_contents q' = any_contents q \<and> q_dropped any_queue_ops q' = q_dropped any_queue_ops q"
    using q mem_queue.peek_law disk_queue.peek_law
    by (cases q) (force simp: any_queue_ops_def disk_queue_ops_def mem_queue_ops_def mq_Peek_def)+
next
  fix q assume q: "any_invar q"
  show "\<exists>q'. q_ack any_queue_ops q = (None, q') \<and> any_invar q' \<and> any_contents q' = tl (any_contents q) \<and>
      q_dropped any_queue_ops q' = q_dropped any_queue_ops q"
  proof (cases q)
    case (MemoryQueue x)
    then obtain y where "q_ack mem_queue_ops x = (None, y)" "mq_inv y" "mq_items y = tl (mq_items x)"
      "q_dropped mem_queue_ops y = q_dropped mem_queue_ops x"
      using q mem_queue.ack_law [of x] by auto
    then show ?thesis using MemoryQueue q list.set_sel(2) [of "mq_items x"]
      by (intro exI [of _ "MemoryQueue y"]) (cases "mq_items x"; auto simp: any_queue_ops_def mem_queue_ops_def)
  next
    case (DiskQueue x)
    then show ?thesis using q disk_queue.ack_law [of x]
      by (force simp: any_queue_ops_def disk_queue_ops_def)
  qed
next
  fix q assume "any_invar q"
  then show "q_len any_queue_ops q = int (length (any_contents q))"
    using disk_queue.len_law by (cases q) (auto simp: any_queue_ops_def disk_queue_ops_def mq_Len_def)
next
  fix q m assume "any_invar q" "m \<in> set (any_contents q)"
  then show "dq_storable m" using disk_queue.contents_storable by (cases q) auto
qed

section \<open>The world\<close>

record ('r, 'c) world =
  w_lookup :: "string \<rightharpoonup> string"
  w_ParseFloat :: "string \<Rightarrow> float64 option"
  w_ParseDuration :: "string \<Rightarrow> duration option"
  w_version :: string
  w_resource :: "string \<Rightarrow> string \<Rightarrow> string + unit"
  w_exporter :: "exporter_option list \<Rightarrow> string + unit"
  w_ReadFile :: "string \<Rightarrow> string + byte list"
  w_yaml :: "byte list \<Rightarrow> string + plant"
  w_now :: gotime
  w_marshal :: "payload \<Rightarrow> byte list option"
  w_url_host :: "string \<Rightarrow> string option"
  w_connection :: "client_config \<Rightarrow> string option"
  w_awaited :: "string option"
  w_sorter :: "modbus_tag list \<Rightarrow> modbus_tag list"
  w_rand :: "int \<Rightarrow> 'r"
  w_kgo :: "'c kgo_ops"
  w_NewClient :: "kgo_options \<Rightarrow> string + 'c"
  w_dir :: "string \<Rightarrow> disk_fs"

text \<open>\<^verbatim>\<open>asset.Load\<close>\<close>

datatype plant_error = ReadFailed string | ParseFailed parse_error

definition asset_Load :: "(string \<Rightarrow> string + byte list) \<Rightarrow> (byte list \<Rightarrow> string + plant) \<Rightarrow> string \<Rightarrow> plant_error + plant" where
  "asset_Load read yaml path =
     (case read path of
        Inl e \<Rightarrow> Inl (ReadFailed e)
      | Inr b \<Rightarrow> (case asset_Parse yaml b of Inl e \<Rightarrow> Inl (ParseFailed e) | Inr p \<Rightarrow> Inr p))"

section \<open>Choosing the adapters\<close>

definition default_client_id :: "config \<Rightarrow> plant \<Rightarrow> string" where
  "default_client_id cfg p = (if MQTTClientID cfg = [] then ''plantstream-'' @ pt_Site p else MQTTClientID cfg)"

definition will_payload :: "string \<Rightarrow> gotime \<Rightarrow> payload" where
  "will_payload clientID now =
     \<lparr>pl_Type = Death, pl_Timestamp = now, pl_Seq = 0, pl_Node = clientID, pl_Metrics = []\<rparr>"

definition broker_options :: "config \<Rightarrow> plant \<Rightarrow> byte list \<Rightarrow> mqtt_options" where
  "broker_options cfg p will =
     (let clientID = default_client_id cfg p
      in \<lparr>mx_Config = \<lparr>mc_ClientID = clientID, mc_QoS = MQTTQoS cfg, mc_KeepAlive = MQTTKeepAlive cfg,
                       mc_ConnectTimeout = MQTTConnectTmo cfg\<rparr>,
          mx_URL = MQTTURL cfg, mx_Username = MQTTUsername cfg, mx_Password = MQTTPassword cfg,
          mx_Will = Some \<lparr>m_topic = LifecycleTopic (pt_Enterprise p) (pt_Site p) clientID (message_type_String Death),
                          m_payload = will, m_retain = False, m_at = zero_time\<rparr>\<rparr>)"

datatype broker_error = WillNotMarshalled | MqttFailed connect_error

definition newBroker :: "('r, 'c) world \<Rightarrow> config \<Rightarrow> plant \<Rightarrow> broker_error + any_broker" where
  "newBroker w cfg p =
     (if cf_Broker cfg = ''mqtt''
      then (case w_marshal w (will_payload (default_client_id cfg p) (w_now w)) of
              None \<Rightarrow> Inl WillNotMarshalled
            | Some will \<Rightarrow>
                (case snd (mqtt_New (w_url_host w) (w_connection w) (w_awaited w) (broker_options cfg p will)) of
                   Inl e \<Rightarrow> Inl (MqttFailed e)
                 | Inr (c, b) \<Rightarrow> Inr (MqttBroker c b)))
      else Inr (MemoryBroker NewBroker))"

section \<open>Resources\<close>

text \<open>
  \<open>Opened\<close> is the success of a constructor whose value the process must release, \<open>Closed\<close> the call
  that releases it.
\<close>

datatype resource = SignalContext | Tracing | BrokerConn | SinkConn | QueueStore

datatype run_event = Opened resource | Closed resource | Served

datatype sink_error = SinkFailed kafka_error | QueueFailed port_error

definition kafka_config_of :: "config \<Rightarrow> kafka_config" where
  "kafka_config_of cfg =
     \<lparr>kc_Brokers = KafkaBrokers cfg, kc_Topic = KafkaTopic cfg, kc_ClientID = [], kc_DeliveryTimeout = 0\<rparr>"

definition new_sink :: "('r, 'c) world \<Rightarrow> config \<Rightarrow> kafka_error + 'c any_sink" where
  "new_sink w cfg =
     (if cf_Sink cfg = ''kafka''
      then (case kafka_New (w_kgo w) (w_NewClient w) False (kafka_config_of cfg) of
              Inl e \<Rightarrow> Inl e | Inr k \<Rightarrow> Inr (KafkaSink k))
      else Inr (MemorySink (NewSink 10000)))"

definition new_queue :: "('r, 'c) world \<Rightarrow> config \<Rightarrow> port_error + any_queue" where
  "new_queue w cfg =
     (if QueueDir cfg \<noteq> []
      then (case dq_Open (w_dir w (QueueDir cfg)) (QueueMaxBytes cfg) 0 (QueueSync cfg) of
              Inl (e, _) \<Rightarrow> Inl e | Inr q \<Rightarrow> Inr (DiskQueue q))
      else Inr (MemoryQueue (NewQueue (QueueMaxBytes cfg))))"

definition newSinkAndQueue ::
  "('r, 'c) world \<Rightarrow> config \<Rightarrow> run_event list \<times> (sink_error + 'c any_sink \<times> any_queue)" where
  "newSinkAndQueue w cfg =
     (case new_sink w cfg of
        Inl e \<Rightarrow> ([], Inl (SinkFailed e))
      | Inr k \<Rightarrow>
          (case new_queue w cfg of
             Inl e \<Rightarrow> ([Opened SinkConn, Closed SinkConn], Inl (QueueFailed e))
           | Inr q \<Rightarrow> ([Opened SinkConn, Opened QueueStore], Inr (k, q))))"

section \<open>run\<close>

datatype run_error =
    ConfigFailed load_error | TracingFailed tracing_error | PlantFailed plant_error | BrokerFailed broker_error
  | NodeFailed node_error | SinkOrQueueFailed sink_error | GroupFailed string

text \<open>What \<^verbatim>\<open>run\<close> has built when it starts the goroutines.\<close>

record ('r, 'c) wired =
  wi_cfg :: config
  wi_level :: log_level
  wi_plant :: plant
  wi_node :: "('r, any_broker) node"
  wi_bridge :: "(any_queue, 'c any_sink) bridge option"

definition service_version :: "('r, 'c) world \<Rightarrow> config \<Rightarrow> config" where
  "service_version w cfg =
     (if ServiceVersion cfg = ''dev'' \<and> w_version w \<noteq> ''dev'' then cfg\<lparr>ServiceVersion := w_version w\<rparr> else cfg)"

definition tracing_config_of :: "config \<Rightarrow> tracing_config" where
  "tracing_config_of cfg =
     \<lparr>tc_ServiceName = ''plantstream'', tc_ServiceVersion = ServiceVersion cfg, tc_Endpoint = OTelEndpoint cfg,
      tc_Insecure = OTelInsecure cfg, tc_SampleRatio = TraceSampleRatio cfg\<rparr>"

definition bridge_config_of :: "config \<Rightarrow> bridge_config" where
  "bridge_config_of cfg =
     \<lparr>cf_Filter = BridgeFilter cfg, cf_InboxSize = BridgeInboxSize cfg, cf_PerTopicMax = BridgePerTopicMax cfg,
      cf_RetryMin = 0, cf_RetryMax = 0, cf_ReplayBatch = 0\<rparr>"

text \<open>The deferred calls, the last one first, run when the function returns.\<close>

abbreviation returning :: "run_event list \<Rightarrow> resource list \<Rightarrow> 'e \<Rightarrow> run_event list \<times> ('e + 'a)" where
  "returning tr deferred e \<equiv> (tr @ map Closed deferred, Inl e)"

definition build_bridge ::
  "('r, 'c) world \<Rightarrow> config \<Rightarrow> run_event list \<times> (sink_error + (any_queue, 'c any_sink) bridge option)" where
  "build_bridge w cfg =
     (if BridgeEnabled cfg
      then (case newSinkAndQueue w cfg of
              (tr, Inl e) \<Rightarrow> (tr, Inl e)
            | (tr, Inr (k, q)) \<Rightarrow> (tr, Inr (Some (bridge_New (bridge_config_of cfg) k q))))
      else ([], Inr None))"

text \<open>The part of \<^verbatim>\<open>run\<close> from the broker on.\<close>

definition build_components ::
  "('r, 'c) world \<Rightarrow> config \<Rightarrow> plant \<Rightarrow> run_event list \<Rightarrow> resource list \<Rightarrow>
     run_event list \<times> (run_error + resource list \<times> ('r, 'c) wired)" where
  "build_components w cfg p tr0 ds0 =
     (case newBroker w cfg p of
        Inl e \<Rightarrow> returning tr0 ds0 (BrokerFailed e)
      | Inr b \<Rightarrow>
          (let tr = tr0 @ [Opened BrokerConn]; ds = BrokerConn # ds0
           in case edge_New (w_sorter w) (w_rand w) \<lparr>ec_StaleCheckInterval = StaleCheck cfg, ec_DeathTimeout = 0\<rparr>
                     (plant_Index p) b NewHealth of
                Inl e \<Rightarrow> returning tr ds (NodeFailed e)
              | Inr n \<Rightarrow>
                  (case build_bridge w cfg of
                     (tr1, Inl e) \<Rightarrow> returning (tr @ tr1) ds (SinkOrQueueFailed e)
                   | (tr1, Inr br) \<Rightarrow>
                       (tr @ tr1, Inr ((if br = None then [] else [QueueStore, SinkConn]) @ ds,
                          \<lparr>wi_cfg = cfg, wi_level = snd (NewLogger (Some ()) () (LogLevel cfg)), wi_plant = p, wi_node = n,
                           wi_bridge = br\<rparr>)))))"

definition startup ::
  "('r, 'c) world \<Rightarrow> run_event list \<times> (run_error + resource list \<times> ('r, 'c) wired)" where
  "startup w =
     (case LoadFrom (w_ParseFloat w) (w_ParseDuration w) (w_lookup w) of
        (_, Some e) \<Rightarrow> ([], Inl (ConfigFailed e))
      | (cfg0, None) \<Rightarrow>
          (let cfg = service_version w cfg0; tr = [Opened SignalContext]; ds = [SignalContext]
           in case SetupTracing (w_resource w) (w_exporter w) (tracing_config_of cfg) of
                Inl e \<Rightarrow> returning tr ds (TracingFailed e)
              | Inr _ \<Rightarrow>
                  (let tr = tr @ [Opened Tracing]; ds = Tracing # ds
                   in case asset_Load (w_ReadFile w) (w_yaml w) (PlantFile cfg) of
                        Inl e \<Rightarrow> returning tr ds (PlantFailed e)
                      | Inr p \<Rightarrow> build_components w cfg p tr ds)))"

text \<open>
  The results of the goroutines of the group in the order in which they return: \<^verbatim>\<open>Wait\<close> gives the
  first error, and \<^verbatim>\<open>run\<close> takes the end of the context as the normal end.
\<close>

datatype go_error = Canceled | Failed string

fun group_Wait :: "go_error option list \<Rightarrow> go_error option" where
  "group_Wait [] = None"
| "group_Wait (Some e # es) = Some e"
| "group_Wait (None # es) = group_Wait es"

definition group_result :: "go_error option list \<Rightarrow> run_error option" where
  "group_result outcomes = (case group_Wait outcomes of Some (Failed e) \<Rightarrow> Some (GroupFailed e) | _ \<Rightarrow> None)"

definition plantstream_run :: "('r, 'c) world \<Rightarrow> go_error option list \<Rightarrow> run_event list \<times> run_error option" where
  "plantstream_run w outcomes =
     (case startup w of
        (tr, Inl e) \<Rightarrow> (tr, Some e)
      | (tr, Inr (ds, wired)) \<Rightarrow> (tr @ [Served] @ map Closed ds, group_result outcomes))"

definition exit_status :: "('r, 'c) world \<Rightarrow> go_error option list \<Rightarrow> int" where
  "exit_status w outcomes = (if snd (plantstream_run w outcomes) = None then 0 else 1)"

section \<open>Properties\<close>

text \<open>Opening and closing nest; the stack holds what is open, the last one opened on top.\<close>

fun nesting :: "resource list \<Rightarrow> run_event list \<Rightarrow> resource list option" where
  "nesting ds [] = Some ds"
| "nesting ds (Opened r # es) = (if r \<in> set ds then None else nesting (r # ds) es)"
| "nesting ds (Closed r # es) = (case ds of [] \<Rightarrow> None | d # ds' \<Rightarrow> if d = r then nesting ds' es else None)"
| "nesting ds (Served # es) = nesting ds es"

lemma nesting_append: "nesting ds (es @ es') = (case nesting ds es of None \<Rightarrow> None | Some ds' \<Rightarrow> nesting ds' es')"
  by (induction ds es rule: nesting.induct) (auto split: list.splits)

lemma nesting_close: "nesting (ds @ ds') (map Closed ds) = Some ds'"
  by (induction ds) auto

lemma nesting_close_all: "nesting ds (map Closed ds) = Some []"
  using nesting_close [of ds "[]"] by simp

lemma newSinkAndQueue_nesting:
  assumes "newSinkAndQueue w cfg = (tr, r)" "SinkConn \<notin> set ds" "QueueStore \<notin> set ds"
  shows "nesting ds tr = Some (case r of Inl _ \<Rightarrow> ds | Inr _ \<Rightarrow> QueueStore # SinkConn # ds)" "Served \<notin> set tr"
  using assms by (auto simp: newSinkAndQueue_def split: sum.splits)

lemma build_bridge_nesting:
  assumes "build_bridge w cfg = (tr, r)" "SinkConn \<notin> set ds" "QueueStore \<notin> set ds"
  shows "nesting ds tr = Some (case r of Inl _ \<Rightarrow> ds | Inr None \<Rightarrow> ds | Inr (Some _) \<Rightarrow> QueueStore # SinkConn # ds)"
    "Served \<notin> set tr"
  using assms newSinkAndQueue_nesting [OF _ assms(2,3), of w cfg]
  by (auto simp: build_bridge_def split: if_splits prod.splits sum.splits)

lemma build_components_nesting:
  assumes "nesting [] tr0 = Some ds0" "set ds0 \<subseteq> {SignalContext, Tracing}" "Served \<notin> set tr0"
    and "build_components w cfg p tr0 ds0 = (tr, r)"
  shows "nesting [] tr = Some (case r of Inl _ \<Rightarrow> [] | Inr (ds, _) \<Rightarrow> ds)" "Served \<notin> set tr"
proof -
  have ds: "SinkConn \<notin> set (BrokerConn # ds0)" "QueueStore \<notin> set (BrokerConn # ds0)" "BrokerConn \<notin> set ds0"
    using assms(2) by auto
  obtain tr1 br where b: "build_bridge w cfg = (tr1, br)" by force
  note n = build_bridge_nesting [OF b ds(1,2)]
  show "nesting [] tr = Some (case r of Inl _ \<Rightarrow> [] | Inr (ds, _) \<Rightarrow> ds)"
    using assms n(1) b ds(3) nesting_close_all [of ds0] nesting_close_all [of "BrokerConn # ds0"]
    by (auto simp: build_components_def nesting_append Let_def split: sum.splits option.splits)
  show "Served \<notin> set tr"
    using assms n(2) b by (auto simp: build_components_def Let_def split: sum.splits option.splits)
qed

lemma startup_nesting:
  assumes "startup w = (tr, r)"
  shows "nesting [] tr = Some (case r of Inl _ \<Rightarrow> [] | Inr (ds, _) \<Rightarrow> ds)" "Served \<notin> set tr"
  using assms build_components_nesting [of "[Opened SignalContext, Opened Tracing]" "[Tracing, SignalContext]" w]
  by (auto simp: startup_def Let_def split: prod.splits option.splits sum.splits)

text \<open>
  C21: the process releases what it has opened. However it ends -- at any failing step of the
  start, or after serving -- the trace opens no resource twice, closes each in the reverse order,
  ends with nothing open, closes nothing while it serves, and the exit status is zero exactly
  when the start succeeded and the first error of the goroutines is none or the end of the context.
\<close>

theorem resources_released:
  "nesting [] (fst (plantstream_run w outcomes)) = Some [] \<and>
   (Served \<in> set (fst (plantstream_run w outcomes)) \<longleftrightarrow> (\<exists>x. snd (startup w) = Inr x)) \<and>
   (\<forall>x. snd (startup w) = Inr x \<longrightarrow> fst (plantstream_run w outcomes) = fst (startup w) @ [Served] @ map Closed (fst x)) \<and>
   (exit_status w outcomes = 0 \<longleftrightarrow> (\<exists>x. snd (startup w) = Inr x) \<and> group_Wait outcomes \<in> {None, Some Canceled})"
proof -
  obtain tr r where st: "startup w = (tr, r)" by force
  note n = startup_nesting [OF st]
  have g: "group_result outcomes = None \<longleftrightarrow> group_Wait outcomes \<in> {None, Some Canceled}"
    by (auto simp: group_result_def split: option.splits go_error.splits)
  show ?thesis
  proof (cases r)
    case (Inl e)
    then show ?thesis using st n by (auto simp: plantstream_run_def exit_status_def)
  next
    case (Inr x)
    obtain ds wd where "x = (ds, wd)" by force
    then show ?thesis using st n Inr g nesting_close_all [of ds]
      by (auto simp: plantstream_run_def exit_status_def nesting_append)
  qed
qed

lemma LoadFrom_usable: "LoadFrom pf pd lookup = (c, None) \<Longrightarrow> config_usable c"
  by (auto simp: LoadFrom_cases Let_def split: if_splits)

lemma service_version_usable [simp]: "config_usable (service_version w c) = config_usable c"
  by (simp add: service_version_def config_usable_def)

text \<open>How far a start that fails can come, and what a start that succeeds has built.\<close>

lemma startup_Inr:
  assumes "startup w = (tr, Inr (ds, wd))"
  obtains p b where "config_usable (wi_cfg wd)" "asset_Load (w_ReadFile w) (w_yaml w) (PlantFile (wi_cfg wd)) = Inr p"
    "newBroker w (wi_cfg wd) p = Inr b" "wi_plant wd = p"
    "edge_New (w_sorter w) (w_rand w) \<lparr>ec_StaleCheckInterval = StaleCheck (wi_cfg wd), ec_DeathTimeout = 0\<rparr>
       (plant_Index p) b NewHealth = Inr (wi_node wd)"
    "snd (build_bridge w (wi_cfg wd)) = Inr (wi_bridge wd)"
  using assms LoadFrom_usable
  by (fastforce simp: startup_def build_components_def Let_def split: prod.splits option.splits sum.splits)

lemma build_bridge_Some:
  assumes "snd (build_bridge w cfg) = Inr (Some br)"
  obtains k q where "BridgeEnabled cfg" "new_sink w cfg = Inr k" "new_queue w cfg = Inr q"
    "br = bridge_New (bridge_config_of cfg) k q"
  using assms by (auto simp: build_bridge_def newSinkAndQueue_def split: if_splits prod.splits sum.splits)

lemma build_bridge_None: "snd (build_bridge w cfg) = Inr None \<Longrightarrow> \<not> BridgeEnabled cfg"
  by (auto simp: build_bridge_def split: if_splits prod.splits sum.splits)

lemma asset_Load_ok: "asset_Load read yaml path = Inr p \<Longrightarrow> \<exists>b. asset_Parse yaml b = Inr p"
  by (auto simp: asset_Load_def split: sum.splits)

lemma build_components_Inl:
  assumes "build_components w cfg p tr0 ds0 = (tr, Inl e)"
  shows "(\<exists>x (b :: any_broker). e = NodeFailed x \<and> edge_New (w_sorter w) (w_rand w)
      \<lparr>ec_StaleCheckInterval = StaleCheck cfg, ec_DeathTimeout = 0\<rparr> (plant_Index p) b NewHealth = Inl x) \<or>
    (\<exists>x. e = SinkOrQueueFailed x \<and> snd (build_bridge w cfg) = Inl x) \<or>
    (\<forall>x. e \<noteq> NodeFailed x) \<and> (\<forall>x. e \<noteq> SinkOrQueueFailed x)"
proof (cases "newBroker w cfg p")
  case (Inl x)
  then show ?thesis using assms by (auto simp: build_components_def)
next
  case (Inr b)
  obtain tr1 r where r: "build_bridge w cfg = (tr1, r)" by force
  show ?thesis
    using assms Inr r
    by (cases "edge_New (w_sorter w) (w_rand w) \<lparr>ec_StaleCheckInterval = StaleCheck cfg, ec_DeathTimeout = 0\<rparr>
          (plant_Index p) b NewHealth"; cases r) (auto simp: build_components_def Let_def)
qed

lemma startup_Inl:
  assumes "startup w = (tr, Inl e)"
  shows "(\<exists>cfg p tr0 ds0. config_usable cfg \<and> asset_Load (w_ReadFile w) (w_yaml w) (PlantFile cfg) = Inr p \<and>
      build_components w cfg p tr0 ds0 = (tr, Inl e)) \<or>
    (\<forall>x. e \<noteq> NodeFailed x) \<and> (\<forall>x. e \<noteq> SinkOrQueueFailed x)"
proof -
  obtain cfg0 er where L: "LoadFrom (w_ParseFloat w) (w_ParseDuration w) (w_lookup w) = (cfg0, er)" by force
  show ?thesis
  proof (cases er)
    case (Some x)
    then show ?thesis using assms L by (auto simp: startup_def)
  next
    case None
    let ?cfg = "service_version w cfg0"
    have u: "config_usable ?cfg" using LoadFrom_usable L None by simp
    show ?thesis
    proof (cases "SetupTracing (w_resource w) (w_exporter w) (tracing_config_of ?cfg)")
      case (Inl x)
      then show ?thesis using assms L None by (auto simp: startup_def Let_def)
    next
      case (Inr x)
      then show ?thesis using assms L None u
        by (cases "asset_Load (w_ReadFile w) (w_yaml w) (PlantFile ?cfg)")
          (auto simp: startup_def Let_def)
    qed
  qed
qed

lemma build_bridge_Inl:
  assumes "snd (build_bridge w cfg) = Inl x" "config_usable cfg"
  shows "x \<noteq> SinkFailed NoBroker \<and> x \<noteq> SinkFailed NoTopic"
proof -
  have "BridgeEnabled cfg" using assms(1) by (simp add: build_bridge_def split: if_splits)
  then show ?thesis using assms
    by (auto simp: build_bridge_def newSinkAndQueue_def new_sink_def kafka_New_def kafka_config_of_def config_usable_def Let_def
        split: if_splits prod.splits sum.splits option.splits)
qed

lemma new_queue_invar:
  assumes "new_queue w cfg = Inr q" "config_usable cfg" "w_dir w (QueueDir cfg) = empty_dir"
  shows "any_invar q"
proof (cases "QueueDir cfg = []")
  case True
  then show ?thesis using assms(1) by (auto simp: new_queue_def NewQueue_def mq_inv_def)
next
  case False
  have "0 < QueueMaxBytes cfg" using assms(2) by (simp add: config_usable_def)
  then have "q = DiskQueue (fresh_queue (QueueMaxBytes cfg) 0 (QueueSync cfg))"
    using assms(1,3) False by (simp add: new_queue_def Open_empty)
  then show ?thesis using fresh_rep by (auto simp: dq_invar_def)
qed

lemma startup_failure:
  assumes "startup w = (tr, Inl e)"
  shows "(\<forall>x. e \<noteq> NodeFailed x) \<and>
    e \<noteq> SinkOrQueueFailed (SinkFailed NoBroker) \<and> e \<noteq> SinkOrQueueFailed (SinkFailed NoTopic)"
  using startup_Inl [OF assms]
proof (elim disjE exE conjE)
  fix cfg p tr0 ds0
  assume u: "config_usable cfg" and l: "asset_Load (w_ReadFile w) (w_yaml w) (PlantFile cfg) = Inr p"
    and b: "build_components w cfg p tr0 ds0 = (tr, Inl e)"
  have "plant_ok p" using asset_Load_ok [OF l] asset_Parse_ok by blast
  then have "edge_New (w_sorter w) (w_rand w) c (plant_Index p) b h \<noteq> Inl x" for c and b :: any_broker and h x
    using edge_New_order [of p "w_sorter w" "w_rand w" c b h] by auto
  then show ?thesis using build_components_Inl [OF b] build_bridge_Inl [OF _ u] by blast
qed simp

lemma startup_success:
  assumes "startup w = (tr, Inr (ds, wd))"
  shows "config_usable (wi_cfg wd)" "node_ok (wi_node wd)"
    "set (nd_order (wi_node wd)) = {name. TagsForSource (plant_Index (wi_plant wd)) name \<noteq> []}"
    "snd (build_bridge w (wi_cfg wd)) = Inr (wi_bridge wd)"
proof -
  obtain p b where p: "config_usable (wi_cfg wd)" "asset_Load (w_ReadFile w) (w_yaml w) (PlantFile (wi_cfg wd)) = Inr p"
    "wi_plant wd = p"
    "edge_New (w_sorter w) (w_rand w) \<lparr>ec_StaleCheckInterval = StaleCheck (wi_cfg wd), ec_DeathTimeout = 0\<rparr>
       (plant_Index p) (b :: any_broker) NewHealth = Inr (wi_node wd)"
    "snd (build_bridge w (wi_cfg wd)) = Inr (wi_bridge wd)"
    by (rule startup_Inr [OF assms])
  have "plant_ok p" using asset_Load_ok [OF p(2)] asset_Parse_ok by blast
  from edge_New_order [OF this, of "w_sorter w" "w_rand w" "\<lparr>ec_StaleCheckInterval = StaleCheck (wi_cfg wd), ec_DeathTimeout = 0\<rparr>" b NewHealth]
  show "config_usable (wi_cfg wd)" "node_ok (wi_node wd)"
    "set (nd_order (wi_node wd)) = {name. TagsForSource (plant_Index (wi_plant wd)) name \<noteq> []}"
    "snd (build_bridge w (wi_cfg wd)) = Inr (wi_bridge wd)"
    using p(1,3,5) unfolding p(4) by auto
qed

lemma wired_bridge:
  assumes "startup w = (tr, Inr (ds, wd))" "wi_bridge wd = Some br"
  obtains k q where "new_sink w (wi_cfg wd) = Inr k" "new_queue w (wi_cfg wd) = Inr q"
    "br = bridge_New (bridge_config_of (wi_cfg wd)) k q" "BridgeEnabled (wi_cfg wd)"
proof -
  have "snd (build_bridge w (wi_cfg wd)) = Inr (Some br)" using startup_success(4) [OF assms(1)] assms(2) by simp
  then show thesis using build_bridge_Some that by metis
qed

lemma wired_bridge_iff:
  assumes "startup w = (tr, Inr (ds, wd))"
  shows "wi_bridge wd \<noteq> None \<longleftrightarrow> BridgeEnabled (wi_cfg wd)"
proof (cases "wi_bridge wd")
  case None
  then show ?thesis using startup_success(4) [OF assms] build_bridge_None by metis
next
  case (Some br)
  then show ?thesis using wired_bridge [OF assms Some] by auto
qed

text \<open>
  C22: what a start yields. A failed start is never the node's fault nor that of a missing Kafka
  setting: once the configuration is accepted and the plant is parsed, only the outside can stop
  it. A successful start holds a usable configuration, a node of the plant's index that no
  sequence of handler calls can make panic, and a bridge exactly when it is enabled, over a queue that
  keeps its invariant if the configured directory is empty, with bounds in the right order.
\<close>

theorem startup_wires:
  "(\<forall>e. snd (startup w) = Inl e \<longrightarrow> (\<forall>x. e \<noteq> NodeFailed x) \<and>
      e \<noteq> SinkOrQueueFailed (SinkFailed NoBroker) \<and> e \<noteq> SinkOrQueueFailed (SinkFailed NoTopic)) \<and>
   (\<forall>ds wd. snd (startup w) = Inr (ds, wd) \<longrightarrow>
      config_usable (wi_cfg wd) \<and>
      set (nd_order (wi_node wd)) = {name. TagsForSource (plant_Index (wi_plant wd)) name \<noteq> []} \<and>
      (\<forall>B env xs. (\<forall>x \<in> set xs. \<forall>s. lifecycle_of (fst x) = Some s \<longrightarrow> s \<in> set (nd_order (wi_node wd))) \<longrightarrow>
         (\<exists>n'. node_run B env xs (wi_node wd) = Some n')) \<and>
      (wi_bridge wd \<noteq> None \<longleftrightarrow> BridgeEnabled (wi_cfg wd)) \<and>
      (\<forall>br. wi_bridge wd = Some br \<longrightarrow>
         0 < cf_PerTopicMax (br_cfg br) \<and> cf_PerTopicMax (br_cfg br) \<le> cf_InboxSize (br_cfg br) \<and>
         (w_dir w (QueueDir (wi_cfg wd)) = empty_dir \<longrightarrow> any_invar (br_queue br))))"
proof -
  obtain tr r where st: "startup w = (tr, r)" by force
  show ?thesis
  proof (cases r)
    case (Inl e)
    then show ?thesis using startup_failure [of w tr e] st by simp
  next
    case (Inr x)
    obtain ds wd where x: "x = (ds, wd)" by force
    note S = st [unfolded Inr x]
    have "0 < cf_PerTopicMax (br_cfg br) \<and> cf_PerTopicMax (br_cfg br) \<le> cf_InboxSize (br_cfg br) \<and>
         (w_dir w (QueueDir (wi_cfg wd)) = empty_dir \<longrightarrow> any_invar (br_queue br))" if br: "wi_bridge wd = Some br" for br
    proof -
      from wired_bridge [OF S br] obtain k q where q: "new_queue w (wi_cfg wd) = Inr q"
        "br = bridge_New (bridge_config_of (wi_cfg wd)) k q" by metis
      then show ?thesis
        using new_queue_invar [OF q(1) startup_success(1) [OF S]] bridge_defaults_sizes [of "bridge_config_of (wi_cfg wd)"]
        by (simp add: bridge_New_def Let_def)
    qed
    then show ?thesis
      using startup_success [OF S] wired_bridge_iff [OF S] node_run_ok [of "wi_node wd"] st Inr x by (auto; metis)
  qed
qed

section \<open>The bridge that the process runs\<close>

text \<open>
  The queue a process finds: none on disk, an empty directory, or a directory as a previous
  process has left it that died at any point of an append; \<open>items\<close> are the messages queued there.
\<close>

definition crashed :: "disk_queue \<Rightarrow> disk_fs \<Rightarrow> bool" where
  "crashed q fs \<longleftrightarrow> dq_invar q \<and> seg_id (last (dq_segments q)) < 2 ^ 64 \<and> dq_headOff q < 2 ^ 63 \<and> 0 < dq_MaxBytes q \<and>
     (\<exists>m k. dq_storable m \<and> k < length (encode m) \<and>
        fs = fs_write (seg_id (last (dq_segments q)))
          (file_bytes (dq_fs q) (seg_id (last (dq_segments q))) @ take k (encode m)) (dq_fs q))"

definition queue_start :: "('r, 'c) world \<Rightarrow> config \<Rightarrow> message list \<Rightarrow> bool" where
  "queue_start w cfg items \<longleftrightarrow>
     (QueueDir cfg = [] \<or> w_dir w (QueueDir cfg) = empty_dir) \<and> items = [] \<or>
     QueueDir cfg \<noteq> [] \<and> (\<exists>q. crashed q (w_dir w (QueueDir cfg)) \<and> dq_MaxBytes q = QueueMaxBytes cfg \<and> items = dq_contents q)"

lemma new_queue_start:
  assumes "new_queue w cfg = Inr q" "config_usable cfg" "queue_start w cfg items"
  shows "any_invar q \<and> any_contents q = items"
proof (cases "QueueDir cfg = []")
  case True
  then show ?thesis using assms(1,3) by (auto simp: queue_start_def new_queue_def NewQueue_def mq_inv_def)
next
  case dir: False
  have mx: "0 < QueueMaxBytes cfg" using assms(2) by (simp add: config_usable_def)
  show ?thesis
  proof (cases "w_dir w (QueueDir cfg) = empty_dir \<and> items = []")
    case True
    then have "q = DiskQueue (fresh_queue (QueueMaxBytes cfg) 0 (QueueSync cfg))"
      using assms(1) dir mx by (simp add: new_queue_def Open_empty)
    then show ?thesis using True fresh_rep fresh_contents by (auto simp: dq_invar_def)
  next
    case False
    then obtain q0 where q0: "crashed q0 (w_dir w (QueueDir cfg))" "dq_MaxBytes q0 = QueueMaxBytes cfg" "items = dq_contents q0"
      using assms(3) dir unfolding queue_start_def by blast
    then obtain m k where c: "dq_invar q0" "dq_storable m" "k < length (encode m)" "seg_id (last (dq_segments q0)) < 2 ^ 64"
      "dq_headOff q0 < 2 ^ 63" "0 < dq_MaxBytes q0"
      "w_dir w (QueueDir cfg) = fs_write (seg_id (last (dq_segments q0)))
          (file_bytes (dq_fs q0) (seg_id (last (dq_segments q0))) @ take k (encode m)) (dq_fs q0)"
      unfolding crashed_def by blast
    from Open_after_crash [OF c, of 0 "QueueSync cfg"] show ?thesis
      using assms(1) dir q0(2,3) by (auto simp: new_queue_def)
  qed
qed

text \<open>Any sink that stands for a Kafka sink writes to the remote log of that sink.\<close>

definition any_kafka_log ::
  "('c \<Rightarrow> bool) \<Rightarrow> ('c \<Rightarrow> kafka_record list) \<Rightarrow> 'c any_sink \<Rightarrow> remote \<Rightarrow> bool" where
  "any_kafka_log live recs s h \<longleftrightarrow> (\<exists>k. s = KafkaSink k \<and> kafka_log live recs [] k h)"

fun any_recs :: "('c \<Rightarrow> kafka_record list) \<Rightarrow> 'c any_sink \<Rightarrow> kafka_record list" where
  "any_recs recs (KafkaSink k) = recs (ks_cl k)"
| "any_recs recs (MemorySink k) = []"

lemma any_remote:
  assumes K: "kafka_cluster K live recs"
    and env: "\<And>k k'. E (KafkaSink k) k' \<Longrightarrow> live (ks_cl k) \<Longrightarrow>
      \<exists>x. k' = KafkaSink x \<and> live (ks_cl x) \<and> recs (ks_cl x) = recs (ks_cl k)"
  shows "remote_sink any_queue_ops any_invar any_contents dq_storable (any_sink_ops K) E (any_kafka_log live recs)
    (\<lambda>k k'. any_recs recs k' \<noteq> any_recs recs k)"
proof (intro remote_sink.intro remote_sink_axioms.intro any_queue.queue_contract_axioms)
  fix k h x m k' assume "any_kafka_log live recs k h" "s_send (any_sink_ops K) x m k = (None, k')"
  then show "any_recs recs k' \<noteq> any_recs recs k \<and> any_kafka_log live recs k' (h @ [(m, True)])"
    using kafka_Send_ok [OF K]
    by (fastforce simp: any_kafka_log_def kafka_log_def any_sink_ops_def apsnd_def map_prod_def split: prod.splits)
next
  fix k h x m e k' assume "any_kafka_log live recs k h" "s_send (any_sink_ops K) x m k = (Some e, k')"
  then show "any_kafka_log live recs k' (if any_recs recs k' \<noteq> any_recs recs k then h @ [(m, False)] else h)"
    using kafka_Send_error [OF K]
    by (fastforce simp: any_kafka_log_def kafka_log_def any_sink_ops_def apsnd_def map_prod_def split: prod.splits)
next
  fix k h k' assume "any_kafka_log live recs k h" "E k k'"
  then show "any_kafka_log live recs k' h"
    using env by (fastforce simp: any_kafka_log_def kafka_log_def)
qed


section \<open>A process that starts\<close>

definition sample_lookup :: "string \<rightharpoonup> string" where
  "sample_lookup = [Prefix @ ''BRIDGE_ENABLED'' \<mapsto> ''true'', Prefix @ ''SINK'' \<mapsto> ''kafka'']"

definition sample_world :: "(unit, kafka_record list) world" where
  "sample_world =
     \<lparr>w_lookup = sample_lookup, w_ParseFloat = (\<lambda>_. None), w_ParseDuration = (\<lambda>_. None), w_version = ''dev'',
      w_resource = (\<lambda>_ _. Inr ()), w_exporter = (\<lambda>_. Inr ()), w_ReadFile = (\<lambda>_. Inr []), w_yaml = (\<lambda>_. Inr sample_plant),
      w_now = 0, w_marshal = (\<lambda>_. Some []), w_url_host = (\<lambda>_. None), w_connection = (\<lambda>_. None), w_awaited = None,
      w_sorter = sort_tags, w_rand = (\<lambda>_. ()), w_kgo = flaky_cluster, w_NewClient = (\<lambda>_. Inr []),
      w_dir = (\<lambda>_. empty_dir)\<rparr>"

lemma sample_load:
  obtains c where "LoadFrom (\<lambda>_. None) (\<lambda>_. None) sample_lookup = (c, None)" "BridgeEnabled c" "cf_Sink c = ''kafka''"
    "cf_Broker c = ''memory''" "QueueDir c = []" "KafkaBrokers c = [''localhost:9092'']" "KafkaTopic c = ''uns.events''"
    "OTelEndpoint c = []" "ServiceVersion c = ''dev''"
proof -
  have raw: "env_raw sample_lookup key =
      (if key = ''BRIDGE_ENABLED'' then Some ''true'' else if key = ''SINK'' then Some ''kafka'' else None)" for key
  proof -
    have "TrimSpace ''true'' = ''true''" "TrimSpace ''kafka'' = ''kafka''"
      by (rule TrimSpace_id, simp add: is_space_def)+
    then show ?thesis by (auto simp: env_raw_def sample_lookup_def)
  qed
  have otel: "sample_lookup ''OTEL_EXPORTER_OTLP_ENDPOINT'' = None" by (simp add: sample_lookup_def Prefix_def)
  have mk: "misread_keys (\<lambda>_. None) (\<lambda>_. None) sample_lookup = []"
    by (simp add: misread_keys_def misread_def raw ParseBool_def)
  have trim: "TrimSpace ''localhost:9092'' = ''localhost:9092''"
    by (rule TrimSpace_id) (simp add: is_space_def)
  have split: "split_on CHR '','' ''localhost:9092'' = [''localhost:9092'']" by (rule split_on_no_sep) simp
  obtain c e where c: "run_state (read_config (\<lambda>_. None) (\<lambda>_. None) sample_lookup) [] = (c, e)" by fastforce
  then have v: "BridgeEnabled c" "cf_Sink c = ''kafka''" "cf_Broker c = ''memory''" "QueueDir c = []"
    "KafkaBrokers c = [''localhost:9092'']" "KafkaTopic c = ''uns.events''" "OTelEndpoint c = []" "ServiceVersion c = ''dev''"
    "config_usable c"
    by (simp_all add: read_config_def run_bind run_return env_int_def env_int64_def env_boolean_def env_float_def env_dur_def
        setting_def raw ParseBool_def trim split)
      (auto simp: config_usable_def ToLower_def lower_char_def trim split)
  have "otel_fallback sample_lookup c = c" using otel by (simp add: otel_fallback_def)
  then have "LoadFrom (\<lambda>_. None) (\<lambda>_. None) sample_lookup = (c, None)"
    using v(9) c by (simp add: LoadFrom_cases mk Let_def)
  then show thesis using that v by blast
qed

lemma sample_startup:
  obtains tr ds wd br where "startup sample_world = (tr, Inr (ds, wd))" "wi_bridge wd = Some br"
    "cf_Sink (wi_cfg wd) = ''kafka''" "QueueDir (wi_cfg wd) = []" "BridgeEnabled (wi_cfg wd)"
    "br = bridge_New (bridge_config_of (wi_cfg wd)) (KafkaSink sample_kafka) (MemoryQueue (NewQueue (QueueMaxBytes (wi_cfg wd))))"
proof -
  obtain c where c: "LoadFrom (\<lambda>_. None) (\<lambda>_. None) sample_lookup = (c, None)" "BridgeEnabled c" "cf_Sink c = ''kafka''"
    "cf_Broker c = ''memory''" "QueueDir c = []" "KafkaBrokers c = [''localhost:9092'']" "KafkaTopic c = ''uns.events''"
    "OTelEndpoint c = []" "ServiceVersion c = ''dev''" by (rule sample_load)
  have sv: "service_version sample_world c = c" by (simp add: service_version_def sample_world_def)
  have ld: "asset_Load (w_ReadFile sample_world) (w_yaml sample_world) path = Inr sample_plant" for path
    using sample_plant_parses by (simp add: asset_Load_def sample_world_def)
  have tracing: "SetupTracing (w_resource sample_world) (w_exporter sample_world) (tracing_config_of c) =
      Inr [WithResource (), WithParentBasedRatio (sample_ratio (TraceSampleRatio c))]"
    using c(8) by (simp add: SetupTracing_def tracing_config_of_def sample_world_def)
  have nb: "newBroker sample_world c sample_plant = Inr (MemoryBroker NewBroker)" using c(4) by (simp add: newBroker_def)
  have "plant_ok sample_plant" using asset_Parse_ok [OF sample_plant_parses] by blast
  then obtain n where n: "edge_New (w_sorter sample_world) (w_rand sample_world)
      \<lparr>ec_StaleCheckInterval = StaleCheck c, ec_DeathTimeout = 0\<rparr> (plant_Index sample_plant) (MemoryBroker NewBroker) NewHealth = Inr n"
    using edge_New_order [of sample_plant "w_sorter sample_world" "w_rand sample_world"
      "\<lparr>ec_StaleCheckInterval = StaleCheck c, ec_DeathTimeout = 0\<rparr>" "MemoryBroker NewBroker" NewHealth] by auto
  let ?br = "bridge_New (bridge_config_of c) (KafkaSink sample_kafka) (MemoryQueue (NewQueue (QueueMaxBytes c)))"
  have "kafka_New (w_kgo sample_world) (w_NewClient sample_world) False (kafka_config_of c) = Inr sample_kafka"
    using c(6,7)
    by (simp add: kafka_New_def kafka_config_of_def kafka_defaults_def sample_world_def flaky_cluster_def sample_kafka_def Let_def)
  then have "new_sink sample_world c = Inr (KafkaSink sample_kafka)"
    "new_queue sample_world c = Inr (MemoryQueue (NewQueue (QueueMaxBytes c)))"
    using c(3,5) by (simp_all add: new_sink_def new_queue_def)
  then have bb: "build_bridge sample_world c = ([Opened SinkConn, Opened QueueStore], Inr (Some ?br))"
    using c(2) by (simp add: build_bridge_def newSinkAndQueue_def)
  have w: "w_lookup sample_world = sample_lookup" "w_ParseFloat sample_world = (\<lambda>_. None)"
    "w_ParseDuration sample_world = (\<lambda>_. None)" by (simp_all add: sample_world_def)
  let ?wd = "\<lparr>wi_cfg = c, wi_level = snd (NewLogger (Some ()) () (LogLevel c)), wi_plant = sample_plant, wi_node = n,
    wi_bridge = Some ?br\<rparr>"
  let ?ds = "[QueueStore, SinkConn, BrokerConn, Tracing, SignalContext]"
  let ?tr = "[Opened SignalContext, Opened Tracing, Opened BrokerConn, Opened SinkConn, Opened QueueStore]"
  have "startup sample_world = build_components sample_world c sample_plant
      [Opened SignalContext, Opened Tracing] [Tracing, SignalContext]"
    unfolding startup_def w c(1) by (simp only: prod.case option.case Let_def sv tracing sum.case ld append.simps)
  also have "\<dots> = (?tr, Inr (?ds, ?wd))"
    unfolding build_components_def nb by (simp only: sum.case Let_def n bb prod.case append.simps option.distinct if_False)
  finally show thesis
    by (rule that [of _ _ ?wd ?br]) (use c in simp_all)
qed

theorem resources_released_witness:
  "Served \<in> set (fst (plantstream_run sample_world [None, Some Canceled])) \<and>
   nesting [] (fst (plantstream_run sample_world [None, Some Canceled])) = Some [] \<and>
   exit_status sample_world [None, Some Canceled] = 0"
proof -
  obtain x where "snd (startup sample_world) = Inr x" using sample_startup by (metis snd_conv)
  then show ?thesis using resources_released [of sample_world "[None, Some Canceled]"] by auto
qed

theorem startup_wires_witness:
  "\<exists>ds wd. snd (startup sample_world) = Inr (ds, wd) \<and> config_usable (wi_cfg wd) \<and> wi_bridge wd \<noteq> None"
proof -
  obtain tr ds wd br where "startup sample_world = (tr, Inr (ds, wd))" "wi_bridge wd = Some br" by (rule sample_startup)
  then show ?thesis using startup_wires [of sample_world] by (intro exI [of _ ds] exI [of _ wd]) simp
qed


end
