(* ===== verification/Spec2Isabelle.thy ===== *)
theory Spec2Isabelle
  imports Uns_Topic Modbus_Regs Modbus_Link Mem_Adapters Inbox Bridge Disk_Queue Quality_Rules
    Asset_Model Edge_Pipeline Mem_Broker Env_Config Http_Api Plc_Sim Mqtt_Broker
    Mqtt_Connect Bridge_History Kafka_Sink Kafka_Delivery Observability Plantstream_Main
begin

text \<open>
  A verification library of plantstream, the edge node that polls field devices, stamps and
  rates their readings, publishes them in a unified namespace (UNS) and forwards that
  namespace to a cloud sink. All paths below are under \<^verbatim>\<open>src\<close>.

  How the program works. \<^verbatim>\<open>cmd/plantstream/main.go\<close> reads the environment (\<^verbatim>\<open>internal/config\<close>) and the
  plant file (\<^verbatim>\<open>internal/domain/asset\<close>), whose index maps sources, assets and topics to tags. The
  edge node (\<^verbatim>\<open>internal/edge/node.go\<close>) builds one collector per source
  (\<^verbatim>\<open>internal/collectors\<close>: a Modbus TCP device, the simulated line, a CSV replay); pollers call
  its handlers, which scale a reading, rate it (\<^verbatim>\<open>internal/domain/quality\<close>), number and encode
  it (\<^verbatim>\<open>internal/domain/uns/payload.go\<close>), remember it (\<^verbatim>\<open>internal/edge/latest.go\<close>) and
  publish it on the tag's topic (\<^verbatim>\<open>internal/domain/uns/topic.go\<close>) to a broker
  (\<^verbatim>\<open>internal/adapters/memory/broker.go\<close> or \<^verbatim>\<open>internal/adapters/mqtt\<close>). The bridge
  (\<^verbatim>\<open>internal/bridge\<close>) subscribes to the broker, buffers messages per topic, sends them to the
  sink and stores them in a queue (\<^verbatim>\<open>internal/adapters/diskqueue\<close> or
  \<^verbatim>\<open>internal/adapters/memory/sink.go\<close>) while the sink is down. The HTTP server
  (\<^verbatim>\<open>internal/api/http\<close>) answers from the index, the cache, the health registry and the bridge.
  \<^verbatim>\<open>cmd/plc-sim\<close> serves a simulated line over Modbus.

  Foundations. \<open>Plant_Prelude\<close>: machine integers, big-endian codecs, strings, times and
  durations, outcomes of system calls. \<open>Go_Strconv\<close>: numbers in text. \<open>Go_Float\<close>: float64 and
  float32 as exact rationals with NaN, infinities and the negative zero, rounded to nearest
  even.

  Namespace. \<open>Uns_Topic\<close>: segments, topics, filters; parsing accepts exactly the printed valid
  topics, and matching decides the level-wise meaning of a filter. \<open>Uns_Payload\<close>: message,
  data and quality types, millisecond timestamps, payload checks, the sequence counter.

  Plant. \<open>Asset_Model\<close>: the records of the plant file, defaults, validation and index;
  validation equals a declarative description of a usable plant, and the index of a
  parsed plant is complete and unambiguous. \<open>Env_Config\<close>: loading is exact with respect to
  the variables, and names all that do not parse.

  Devices. \<open>Modbus_Frame\<close>, \<open>Modbus_Regs\<close>, \<open>Modbus_Link\<close>: frames, register codec, server and
  client over byte streams; a read through the server returns the table, stale answers are
  discarded. \<open>Line_Sim\<close> and \<open>Plc_Sim\<close>: the packaging line and the registers that show it.
  \<open>Modbus_Source\<close>: read planning and the poll cycle. \<open>Collectors\<close>: health registry, one
  poller cycle, simulator and CSV sources.

  Edge. \<open>Quality_Rules\<close>: the incremental evaluator equals a definition over the history.
  \<open>Edge_Latest\<close>: the cache with its counters. \<open>Edge_Node\<close>: construction, handlers,
  staleness check, BIRTH and DEATH; no sequence of calls dereferences nil. \<open>Edge_Pipeline\<close>:
  what the handlers publish (typing, numbering, outages) and what they do not.

  Delivery. \<open>Ports\<close>: messages and the interfaces, with the contracts \<open>queue_contract\<close> and
  \<open>sink_contract\<close>. \<open>Mem_Adapters\<close>, \<open>Disk_Record\<close>, \<open>Disk_Queue\<close>: the implementations; the
  queue on disk refines a FIFO with counted eviction and recovers after a crash. \<open>Mem_Broker\<close>
  and \<open>Mqtt_Broker\<close>: publishing and subscriptions with their interleavings. \<open>Inbox\<close>,
  \<open>Bridge\<close>: the buffer and the forwarder as a state machine. This theory joins the bridge with
  the queue on disk: order without loss or duplication, no lost wake-up, delivery after an
  outage, storing on shutdown. \<open>Http_Api\<close>: handlers, middleware and event stream.

  Cloud. \<open>Kafka_Sink\<close>: the sink of \<^verbatim>\<open>internal/adapters/kafka\<close> over its client. \<open>Bridge_History\<close>: the
  bridge with a history of what a remote log holds, in front of sinks that may have stored a message
  whose acknowledgement was lost. \<open>Kafka_Delivery\<close> joins the two: at-least-once delivery in the
  order of each topic.

  Process. \<open>Observability\<close> (\<^verbatim>\<open>internal/observability\<close>): log level, tracer options, metrics and their
  registration. \<open>Mqtt_Connect\<close>: constructing the MQTT adapter, its packets. \<open>Plantstream_Main\<close>
  (\<^verbatim>\<open>cmd/plantstream/main.go\<close>): the start with its error branches and releases, the choice of
  adapters, the wiring, the exit status; delivery is stated once more of the process that starts.

  Conventions. Pointers that may be nil are options, and \<open>None\<close> as the result of an operation
  is a panic (or a step that is not enabled, where steps are labelled). A Go map is a map or, where
  the code sorts its keys, an association list; where the order of ranging over a map shows,
  it is an argument. An operation under one mutex is one step; operations that release it are cut
  there. Errors keep the branch that made them, and mostly not their text.

  Interfaces. The locales \<open>queue_contract\<close>, \<open>sink_contract\<close>, \<open>bridge_env\<close>, \<open>remote_sink\<close>,
  \<open>register_tables\<close>, \<open>register_conn\<close> and \<open>publish_log\<close> state what a component relies on of another; each is
  interpreted on the model of the code that provides it.

  Parameters. Code outside the repository is an argument of the definitions: the YAML and CSV
  decoders, JSON encoding, float and duration parsing, sorting of tags (assumed to
  sort), the random source and exponential function of the line, the MQTT client (by its
  answers), the Kafka client (a record of operations, assumed in \<open>kafka_cluster\<close> to behave as
  documented: an acknowledged record is stored, an unacknowledged one may be), the registry of
  metrics (\<open>registry_ok\<close>) and the trace exporter. \<open>Plantstream_Main\<close> collects them in \<open>world\<close>.

  Bounds. No theorem uses fuel: loops are structural or have a measure. Durations are 64-bit where
  the code computes with them; counters of the health registry, of the disk queue and of the
  bridge are unbounded integers; segment ids do not wrap.

  Not modelled: log output, updates of metrics other than the loss counter, the \<^verbatim>\<open>/metrics\<close>
  handler, signals, the HTTP server of \<^verbatim>\<open>net/http\<close> (the results of the goroutines are an argument),
  dialing, listening and deadlines of the Modbus endpoints, the tickers of the pollers (their cycles
  are the arbitrary sequences the theorems quantify over), TLS, routing and the text of JSON and
  of server-sent events.
\<close>

section \<open>Store and forward: the bridge over the queue on disk\<close>

text \<open>
  Any sink that meets \<open>sink_contract\<close> (a send that reports success has delivered the message, one
  that reports an error has not); \<open>E\<close> describes how its state changes by itself. For sinks that
  may lose acknowledgements see \<open>Kafka_Delivery\<close>.
\<close>

lemma bridge_env_disk:
  assumes "sink_contract S sink_inv accepted"
    and "\<And>k k'. sink_inv k \<Longrightarrow> E k k' \<Longrightarrow> sink_inv k' \<and> accepted k' = accepted k"
  shows "bridge_env disk_queue_ops dq_invar dq_contents dq_storable S sink_inv accepted E"
  using assms disk_queue.queue_contract_axioms
  by (simp add: bridge_env_def bridge_env_axioms_def)

interpretation disk_bridge: bridge_env disk_queue_ops dq_invar dq_contents dq_storable
  mem_sink_ops "\<lambda>k. ms_max k = 0" ms_messages mem_sink_env
  by (rule bridge_env_disk [OF mem_sink.sink_contract_axioms]) (auto simp: mem_sink_env_def SetFail_def)

lemma New_good:
  assumes "bridge_env disk_queue_ops dq_invar dq_contents dq_storable S sink_inv accepted E"
    and "dq_invar q" "sink_inv k"
  shows "bridge_env.good dq_invar dq_storable sink_inv (bridge_New cfg k q)"
proof -
  have "br_queue (bridge_New cfg k q) = q" "br_sink (bridge_New cfg k q) = k"
    by (simp_all add: bridge_New_def Let_def)
  then show ?thesis
    using assms bridge_New_inbox [of cfg k q] by (auto simp: bridge_env.good_def [OF assms(1)])
qed


text \<open>A run for the witnesses: a message arrives and is forwarded to the sink.\<close>

definition sample_bridge :: "(disk_queue, mem_sink) bridge" where
  "sample_bridge = bridge_New \<lparr>cf_Filter = [], cf_InboxSize = 0, cf_PerTopicMax = 0, cf_RetryMin = 0,
     cf_RetryMax = 0, cf_ReplayBatch = 0\<rparr> (NewSink 0) (fresh_queue 1000 100 False)"

lemma sample_bridge_simps:
  "br_pc sample_bridge = NotStarted" "br_queue sample_bridge = fresh_queue 1000 100 False"
  "br_sink sample_bridge = NewSink 0" "br_in sample_bridge = newInbox 64 4096" "br_sinkUp sample_bridge"
  "\<not> br_ctxDone sample_bridge" "br_forwarded sample_bridge = 0" "br_lost sample_bridge = 0"
  by (simp_all add: sample_bridge_def bridge_New_def Let_def bridge_defaults_def)

lemma fresh_invar: "dq_invar (fresh_queue mx sb sync)"
  using fresh_rep by (auto simp: dq_invar_def)

lemma fresh_count: "dq_count (fresh_queue mx sb sync) = 0" "dq_dropped (fresh_queue mx sb sync) = 0"
  by (simp_all add: fresh_queue_def empty_queue_def)

definition sample_running :: "(disk_queue, mem_sink) bridge" where
  "sample_running = sample_bridge\<lparr>br_subscribed := True, br_backoff := cf_RetryMin (br_cfg sample_bridge),
     br_timer := Some (cf_RetryMax (br_cfg sample_bridge)), br_pc := Top\<rparr>"

lemma sample_start:
  "admissible_run disk_queue_ops mem_sink_ops mem_sink_env dq_storable sample_bridge [Subscribe True] sample_running"
  using adm_snoc [OF adm_Nil, of disk_queue_ops mem_sink_ops mem_sink_env "Subscribe True" sample_bridge sample_running dq_storable]
  by (simp add: sample_running_def sample_bridge_simps)

lemma sample_arrive:
  "admissible_run disk_queue_ops mem_sink_ops mem_sink_env dq_storable sample_bridge
     [Subscribe True, Arrive sample_msg] (onMessage sample_msg sample_running)"
proof -
  have "push_safe sample_msg (newInbox 64 4096)" by (simp add: push_safe_def newInbox_def)
  then show ?thesis
    using adm_snoc [OF sample_start, of "Arrive sample_msg" "onMessage sample_msg sample_running"]
    by (simp add: sample_running_def sample_bridge_simps sample_storable)
qed



lemma sample_select:
  "admissible_run disk_queue_ops mem_sink_ops mem_sink_env dq_storable sample_bridge
     [Subscribe True, Arrive sample_msg, Forward] ((onMessage sample_msg sample_running)\<lparr>br_pc := Selecting\<rparr>)"
  using adm_snoc [OF sample_arrive, of Forward "(onMessage sample_msg sample_running)\<lparr>br_pc := Selecting\<rparr>"]
  by (simp add: forward_step_def onMessage_def sample_running_def sample_bridge_simps disk_queue_ops_def fresh_count)


text \<open>
  C2: after an outage everything stored is delivered. When \<^verbatim>\<open>Run\<close> waits with the sink
  marked down and messages in the queue, the context is live and the sink works again
  (\<open>up\<close>: it accepts what it is sent), then the timer event leads, after finitely many
  forwarder steps, back to the \<^verbatim>\<open>select\<close> with the sink marked up, an empty queue, and
  exactly the stored messages delivered in their order behind what was accepted before.
\<close>

theorem stored_messages_delivered:
  assumes sink: "sink_contract S sink_inv accepted"
    and env: "\<And>k k'. sink_inv k \<Longrightarrow> E k k' \<Longrightarrow> sink_inv k' \<and> accepted k' = accepted k"
    and start: "dq_invar q" "sink_inv k"
    and run: "admissible_run disk_queue_ops S E dq_storable (bridge_New cfg k q) ls s"
    and wait: "br_pc s = Selecting" "\<not> br_sinkUp s" "\<not> br_ctxDone s" "dq_contents (br_queue s) \<noteq> []"
    and up: "up (br_sink s)"
      "\<And>k m. sink_inv k \<Longrightarrow> up k \<Longrightarrow> \<exists>k'. s_send S False m k = (None, k') \<and> up k'"
  shows "\<exists>s1 n s2. bridge_step disk_queue_ops S E SelTimer s = Some s1 \<and> forwards disk_queue_ops S s1 n s2 \<and>
    br_pc s2 = Selecting \<and> br_sinkUp s2 \<and> dq_contents (br_queue s2) = [] \<and>
    accepted (br_sink s2) = accepted (br_sink s) @ dq_contents (br_queue s)"
proof -
  have B: "bridge_env disk_queue_ops dq_invar dq_contents dq_storable S sink_inv accepted E"
    by (rule bridge_env_disk [OF sink env])
  note G0 = New_good [OF B start, where cfg = cfg]
  have "wakeup_ok s" by (rule bridge_env.run_wakeup [OF B run G0 bridge_New_wakeup])
  then have tm: "bridge_step disk_queue_ops S E SelTimer s = Some (timer_case disk_queue_ops s)"
    using wait(1) by (simp add: wakeup_ok_def)
  have good: "bridge_env.good dq_invar dq_storable sink_inv s"
    using bridge_env.run_moves [OF B run G0] by (simp add: bridge_env.moves_def [OF B])
  have "q_len disk_queue_ops (br_queue s) \<noteq> 0"
    using good wait(4) disk_queue.len_law [of "br_queue s"] by (simp add: bridge_env.good_def [OF B])
  then have t: "timer_case disk_queue_ops s = s\<lparr>br_timer := None, br_pc := Replaying AtTimer 0\<rparr>" (is "_ = ?s1")
    using wait(2) by (simp add: timer_case_def Let_def)
  have "bridge_env.good dq_invar dq_storable sink_inv ?s1"
    using good by (simp add: bridge_env.good_def [OF B])
  moreover have "0 < cf_ReplayBatch (br_cfg ?s1)"
    using admissible_cfg [OF run] bridge_defaults_sizes [of cfg] by (simp add: bridge_New_def Let_def)
  ultimately obtain n s2 where "forwards disk_queue_ops S ?s1 n s2"
    "bridge_env.resumed dq_invar dq_contents dq_storable sink_inv accepted ?s1 (dq_contents (br_queue ?s1)) s2"
    using bridge_env.replay_delivers [OF B, where s = ?s1 and site = AtTimer and i = 0 and up = up] wait(3) up by auto
  then show ?thesis using tm t by (auto simp: bridge_env.resumed_def [OF B])
qed

text \<open>A run through an outage: the sink fails on the stored message and then recovers.\<close>

lemma outage_run:
  assumes q: "dq_invar q" "dq_contents q = [m]"
  obtains s where "admissible_run disk_queue_ops mem_sink_ops mem_sink_env dq_storable
      (bridge_New cfg (SetFail True (NewSink 0)) q) [Subscribe True, Forward, Forward, SinkChange (NewSink 0)] s"
    "br_pc s = Selecting" "\<not> br_sinkUp s" "\<not> br_ctxDone s" "dq_contents (br_queue s) = [m]" "br_sink s = NewSink 0"
proof -
  let ?A = "admissible_run disk_queue_ops mem_sink_ops mem_sink_env dq_storable"
  define s0 where "s0 = bridge_New cfg (SetFail True (NewSink 0)) q"
  have v: "br_pc s0 = NotStarted" "br_queue s0 = q" "br_sink s0 = SetFail True (NewSink 0)" "br_sinkUp s0"
    "\<not> br_ctxDone s0" "0 < cf_ReplayBatch (br_cfg s0)"
    using bridge_defaults_sizes [of cfg] by (simp_all add: s0_def bridge_New_def Let_def)
  obtain q' where q': "dq_Peek q = (Inr (Some m), q')" "dq_contents q' = [m]"
    using disk_queue.peek_law [OF q(1)] q(2) by (auto simp: disk_queue_ops_def)
  have len: "dq_count q = 1" using disk_queue.len_law [OF q(1)] q(2) by (simp add: disk_queue_ops_def)
  define s1 where "s1 = s0\<lparr>br_subscribed := True, br_backoff := cf_RetryMin (br_cfg s0),
     br_timer := Some (cf_RetryMax (br_cfg s0)), br_pc := Top\<rparr>"
  define s3 where "s3 = (fail (br_backoff s1) (s1\<lparr>br_queue := q'\<rparr>))\<lparr>br_pc := Selecting\<rparr>"
  have 1: "?A s0 [Subscribe True] s1"
    using adm_snoc [OF adm_Nil, of _ _ _ "Subscribe True" s0 s1] by (simp add: s1_def v)
  have 2: "?A s0 [Subscribe True, Forward] (s1\<lparr>br_pc := Replaying AtTop 0\<rparr>)"
    using adm_snoc [OF 1, of Forward] by (simp add: forward_step_def s1_def v disk_queue_ops_def len)
  have "replay_iter disk_queue_ops mem_sink_ops (s1\<lparr>br_pc := Replaying AtTop 0\<rparr>) =
      (Return False, s1\<lparr>br_queue := q', br_pc := Replaying AtTop 0\<rparr>)"
    by (simp add: replay_iter_def s1_def v disk_queue_ops_def q' send_def mem_sink_ops_def sink_Send_def
        SetFail_def NewSink_def)
  then have "forward_step disk_queue_ops mem_sink_ops (s1\<lparr>br_pc := Replaying AtTop 0\<rparr>) = Some s3"
    by (simp add: forward_step_def replay_step_def s3_def fail_def) (simp add: s1_def v)
  then have 3: "?A s0 [Subscribe True, Forward, Forward] s3" using adm_snoc [OF 2, of Forward] by simp
  have "br_sink s3 = SetFail True (NewSink 0)" by (simp add: s3_def fail_def s1_def v)
  then have "mem_sink_env (br_sink s3) (NewSink 0)" by (simp add: mem_sink_env_def SetFail_def NewSink_def)
  then have 4: "?A s0 [Subscribe True, Forward, Forward, SinkChange (NewSink 0)] (s3\<lparr>br_sink := NewSink 0\<rparr>)"
    using adm_snoc [OF 3, of "SinkChange (NewSink 0)"] by simp
  show thesis
    by (rule that [OF 4 [unfolded s0_def]]) (simp_all add: s3_def fail_def s1_def v q')
qed

theorem stored_messages_delivered_witness:
  "\<exists>q s s1 n s2. admissible_run disk_queue_ops mem_sink_ops mem_sink_env dq_storable
      (bridge_New \<lparr>cf_Filter = [], cf_InboxSize = 0, cf_PerTopicMax = 0, cf_RetryMin = 0, cf_RetryMax = 0,
         cf_ReplayBatch = 0\<rparr> (SetFail True (NewSink 0)) q) [Subscribe True, Forward, Forward, SinkChange (NewSink 0)] s \<and>
    bridge_step disk_queue_ops mem_sink_ops mem_sink_env SelTimer s = Some s1 \<and>
    forwards disk_queue_ops mem_sink_ops s1 n s2 \<and> ms_messages (br_sink s2) = [sample_msg]"
proof -
  obtain q where q: "dq_invar q" "dq_contents q = [sample_msg]"
    using disk_queue.push_law [OF fresh_invar [of 1000 100 False] sample_storable] by (auto simp: fresh_contents)
  obtain s where s: "admissible_run disk_queue_ops mem_sink_ops mem_sink_env dq_storable
      (bridge_New \<lparr>cf_Filter = [], cf_InboxSize = 0, cf_PerTopicMax = 0, cf_RetryMin = 0, cf_RetryMax = 0,
         cf_ReplayBatch = 0\<rparr> (SetFail True (NewSink 0)) q) [Subscribe True, Forward, Forward, SinkChange (NewSink 0)] s"
    "br_pc s = Selecting" "\<not> br_sinkUp s" "\<not> br_ctxDone s" "dq_contents (br_queue s) = [sample_msg]" "br_sink s = NewSink 0"
    by (rule outage_run [OF q])
  let ?up = "\<lambda>k. \<not> ms_fail k \<and> \<not> ms_closed k"
  have "\<exists>s1 n s2. bridge_step disk_queue_ops mem_sink_ops mem_sink_env SelTimer s = Some s1 \<and>
    forwards disk_queue_ops mem_sink_ops s1 n s2 \<and> br_pc s2 = Selecting \<and> br_sinkUp s2 \<and>
    dq_contents (br_queue s2) = [] \<and> ms_messages (br_sink s2) = ms_messages (br_sink s) @ dq_contents (br_queue s)"
    by (rule stored_messages_delivered [OF mem_sink.sink_contract_axioms disk_bridge.env_law q(1) _ s(1-4), where up = ?up])
      (use s in \<open>simp_all add: NewSink_def SetFail_def mem_sink_ops_def sink_Send_def\<close>)
  moreover have "ms_messages (br_sink s) = []" using s(6) by (simp add: NewSink_def)
  ultimately show ?thesis using s(1,5) by (metis append_Nil)
qed



end
